(* ===== verification/Prelude.thy ===== *)
theory Prelude
  imports Main "HOL-Library.Word" "HOL-Library.Monad_Syntax"
begin

section \<open>Shared vocabulary of the development\<close>

text \<open>
  Machine types, byte strings, little and big endian codecs, radix numerals and the small
  result monad that every component uses. A Rust \<open>String\<close> is the list of its UTF-8 bytes,
  written as an Isabelle \<open>string\<close> (whose characters are bytes); a \<open>Vec<u8>\<close> or \<open>&[u8]\<close> is
  a list of 8-bit words. An unsigned integer is a word of its width; a signed one is an
  \<open>int\<close>, read from its two's complement word by \<open>sint\<close>.
\<close>

named_theorems codec_simps \<open>sizes and inverse laws of the byte codecs\<close>
named_theorems res_simps \<open>rewriting of the result monad\<close>

subsection \<open>Machine types\<close>

type_synonym u8 = "8 word"
type_synonym u16 = "16 word"
type_synonym u32 = "32 word"
type_synonym u64 = "64 word"
type_synonym usize = "64 word"
type_synonym bytes = "u8 list"

abbreviation usize_bound :: nat where
  "usize_bound \<equiv> 2 ^ 64"

definition is_i32 :: "int \<Rightarrow> bool" where
  "is_i32 i \<longleftrightarrow> - (2 ^ 31) \<le> i \<and> i < 2 ^ 31"

definition is_i64 :: "int \<Rightarrow> bool" where
  "is_i64 i \<longleftrightarrow> - (2 ^ 63) \<le> i \<and> i < 2 ^ 63"

lemma sint_word_of_int_i32: "is_i32 i \<Longrightarrow> sint (word_of_int i :: u32) = i"
  by (simp add: is_i32_def signed_word_eqI sint_sbintrunc' signed_take_bit_int_eq_self)

lemma sint_word_of_int_i64: "is_i64 i \<Longrightarrow> sint (word_of_int i :: u64) = i"
  by (simp add: is_i64_def signed_word_eqI sint_sbintrunc' signed_take_bit_int_eq_self)

subsection \<open>Results\<close>

text \<open>
  \<open>Result<T, E>\<close> is \<open>E + T\<close> with \<open>Inl\<close> for \<open>Err\<close>; the \<open>?\<close> operator is \<open>and_then\<close>, and
  \<open>Option::ok_or\<close> is \<open>ok_or\<close>.
\<close>

fun and_then :: "'e + 'a \<Rightarrow> ('a \<Rightarrow> 'e + 'b) \<Rightarrow> 'e + 'b" where
  "and_then (Inl e) f = Inl e"
| "and_then (Inr a) f = f a"

fun ok_or :: "'e \<Rightarrow> 'a option \<Rightarrow> 'e + 'a" where
  "ok_or e None = Inl e"
| "ok_or e (Some a) = Inr a"

lemma and_then_Inr_iff [res_simps]:
  "and_then m f = Inr b \<longleftrightarrow> (\<exists>a. m = Inr a \<and> f a = Inr b)"
  by (cases m) auto

lemma and_then_Inl_iff [res_simps]:
  "and_then m f = Inl e \<longleftrightarrow> m = Inl e \<or> (\<exists>a. m = Inr a \<and> f a = Inl e)"
  by (cases m) auto

lemma ok_or_Inr_iff [res_simps]: "ok_or e m = Inr a \<longleftrightarrow> m = Some a"
  by (cases m) auto

lemma ok_or_Inl_iff [res_simps]: "ok_or e m = Inl e' \<longleftrightarrow> m = None \<and> e = e'"
  by (cases m) auto

text \<open>
  \<open>std::io::Error\<close>: its kind, the OS error code when it has one, and its text. The kinds are
  the ones the program distinguishes; \<open>OtherKind\<close> is any other kind.
\<close>

datatype io_error_kind =
  InvalidInput | InvalidData | TimedOut | UnexpectedEof | BrokenPipe
| ConnectionRefused | ConnectionReset | ConnectionAborted | Other | OtherKind

record io_error =
  err_kind :: io_error_kind
  err_raw_os :: "int option"
  err_text :: string

definition io_err :: "io_error_kind \<Rightarrow> string \<Rightarrow> io_error" where
  "io_err k t = \<lparr>err_kind = k, err_raw_os = None, err_text = t\<rparr>"

lemma io_err_kind [simp]: "err_kind (io_err k t) = k"
  by (simp add: io_err_def)

subsection \<open>Little and big endian numerals\<close>

fun le_bytes :: "nat \<Rightarrow> nat \<Rightarrow> bytes" where
  "le_bytes 0 v = []"
| "le_bytes (Suc n) v = word_of_nat (v mod 256) # le_bytes n (v div 256)"

fun le_value :: "bytes \<Rightarrow> nat" where
  "le_value [] = 0"
| "le_value (b # bs) = unat b + 256 * le_value bs"

lemma length_le_bytes [simp]: "length (le_bytes n v) = n"
  by (induction n arbitrary: v) auto

lemma unat_u8_less [simp]: "unat (b :: u8) < 256"
  using unsigned_less [of b, where ?'a = nat] by simp

lemma le_value_bound: "le_value bs < 256 ^ length bs"
proof (induction bs)
  case Nil
  then show ?case by simp
next
  case (Cons b bs)
  have "le_value (b # bs) < 256 * Suc (le_value bs)"
    using unat_u8_less [of b] by (simp del: unat_u8_less)
  also from Cons.IH have "256 * Suc (le_value bs) \<le> 256 * 256 ^ length bs"
    by (intro mult_le_mono2) simp
  finally show ?case by simp
qed

lemma le_value_le_bytes: "le_value (le_bytes n v) = v mod 256 ^ n"
proof (induction n arbitrary: v)
  case 0
  then show ?case by simp
next
  case (Suc n)
  have "unat (word_of_nat (v mod 256) :: u8) = v mod 256"
    by (simp add: unat_of_nat)
  then show ?case by (simp add: Suc.IH mod_mult2_eq)
qed

lemma le_bytes_le_value: "length bs = n \<Longrightarrow> le_bytes n (le_value bs) = bs"
proof (induction bs arbitrary: n)
  case Nil
  then show ?case by simp
next
  case (Cons b bs)
  have m: "(unat b + 256 * le_value bs) mod 256 = unat b"
    by (simp add: mod_less)
  have d: "(unat b + 256 * le_value bs) div 256 = le_value bs"
    by (simp add: div_less)
  from Cons show ?case by (auto simp: m d)
qed

text \<open>\<open>to_le_bytes\<close>, \<open>from_le_bytes\<close> and their big endian twins, for every word width.\<close>

definition to_le_bytes :: "'a::len word \<Rightarrow> bytes" where
  "to_le_bytes w = le_bytes (LENGTH('a) div 8) (unat w)"

definition from_le_bytes :: "bytes \<Rightarrow> 'a::len word" where
  "from_le_bytes bs = word_of_nat (le_value bs)"

definition to_be_bytes :: "'a::len word \<Rightarrow> bytes" where
  "to_be_bytes w = rev (to_le_bytes w)"

definition from_be_bytes :: "bytes \<Rightarrow> 'a::len word" where
  "from_be_bytes bs = from_le_bytes (rev bs)"

lemma length_to_le_bytes [simp]: "length (to_le_bytes (w :: 'a::len word)) = LENGTH('a) div 8"
  by (simp add: to_le_bytes_def)

lemma length_to_be_bytes [simp]: "length (to_be_bytes (w :: 'a::len word)) = LENGTH('a) div 8"
  by (simp add: to_be_bytes_def)

lemma pow256: "(256::nat) ^ n = 2 ^ (8 * n)"
  by (simp add: power_mult)

lemma from_to_le_bytes:
  fixes w :: "'a::len word"
  assumes "LENGTH('a) = 8 * n"
  shows "from_le_bytes (to_le_bytes w) = w"
proof -
  have "unat w mod 256 ^ n = unat w"
    using assms unsigned_less [of w, where ?'a = nat] by (simp add: pow256)
  with assms show ?thesis
    by (simp add: from_le_bytes_def to_le_bytes_def le_value_le_bytes)
qed

lemma to_from_le_bytes:
  assumes "LENGTH('a::len) = 8 * n" "length bs = n"
  shows "to_le_bytes (from_le_bytes bs :: 'a word) = bs"
proof -
  have "le_value bs < 2 ^ LENGTH('a)"
    using le_value_bound [of bs] assms by (simp add: pow256)
  then have "unat (word_of_nat (le_value bs) :: 'a word) = le_value bs"
    by (simp add: unat_of_nat)
  with assms show ?thesis
    by (simp add: from_le_bytes_def to_le_bytes_def le_bytes_le_value)
qed

lemma from_to_le16 [codec_simps]: "from_le_bytes (to_le_bytes (w :: u16)) = w"
  by (rule from_to_le_bytes [where n = 2]) simp
lemma from_to_le32 [codec_simps]: "from_le_bytes (to_le_bytes (w :: u32)) = w"
  by (rule from_to_le_bytes [where n = 4]) simp
lemma from_to_le64 [codec_simps]: "from_le_bytes (to_le_bytes (w :: u64)) = w"
  by (rule from_to_le_bytes [where n = 8]) simp
lemma from_to_be16 [codec_simps]: "from_be_bytes (to_be_bytes (w :: u16)) = w"
  by (simp add: from_be_bytes_def to_be_bytes_def from_to_le16)
lemma to_from_le16 [codec_simps]: "length bs = 2 \<Longrightarrow> to_le_bytes (from_le_bytes bs :: u16) = bs"
  by (rule to_from_le_bytes [where n = 2]) simp_all
lemma to_from_le32 [codec_simps]: "length bs = 4 \<Longrightarrow> to_le_bytes (from_le_bytes bs :: u32) = bs"
  by (rule to_from_le_bytes [where n = 4]) simp_all
lemma to_from_le64 [codec_simps]: "length bs = 8 \<Longrightarrow> to_le_bytes (from_le_bytes bs :: u64) = bs"
  by (rule to_from_le_bytes [where n = 8]) simp_all
lemma to_from_be16 [codec_simps]: "length bs = 2 \<Longrightarrow> to_be_bytes (from_be_bytes bs :: u16) = bs"
  by (simp add: from_be_bytes_def to_be_bytes_def to_from_le16)

subsection \<open>Characters as bytes\<close>

definition byte_of_char :: "char \<Rightarrow> u8" where
  "byte_of_char c = word_of_nat (of_char c)"

definition char_of_byte :: "u8 \<Rightarrow> char" where
  "char_of_byte b = char_of (unat b)"

definition str_bytes :: "string \<Rightarrow> bytes" where
  "str_bytes s = map byte_of_char s"

definition bytes_str :: "bytes \<Rightarrow> string" where
  "bytes_str bs = map char_of_byte bs"

lemma of_char_less_256 [simp]: "(of_char c :: nat) < 256"
  by simp

lemma char_of_byte_of_char [simp]: "char_of_byte (byte_of_char c) = c"
  by (simp add: char_of_byte_def byte_of_char_def unat_of_nat)

lemma byte_of_char_of_byte [simp]: "byte_of_char (char_of_byte b) = b"
  by (simp add: char_of_byte_def byte_of_char_def of_char_of mod_less)

lemma bytes_str_str_bytes [simp]: "bytes_str (str_bytes s) = s"
  by (simp add: bytes_str_def str_bytes_def comp_def)

lemma str_bytes_bytes_str [simp]: "str_bytes (bytes_str bs) = bs"
  by (simp add: bytes_str_def str_bytes_def comp_def)

lemma length_str_bytes [simp]: "length (str_bytes s) = length s"
  by (simp add: str_bytes_def)

lemma length_bytes_str [simp]: "length (bytes_str s) = length s"
  by (simp add: bytes_str_def)

subsection \<open>Numerals in radix 10 and 16\<close>

text \<open>
  \<open>digit_of r c\<close> is \<open>char::to_digit(r)\<close>; \<open>show_radix\<close> is the formatting of an unsigned integer
  by \<open>{}\<close> (radix 10) and \<open>{:x}\<close> (radix 16).
\<close>

definition digit_of :: "nat \<Rightarrow> char \<Rightarrow> nat option" where
  "digit_of r c =
     (let n = (of_char c :: nat);
          v = (if 48 \<le> n \<and> n \<le> 57 then n - 48
               else if 97 \<le> n \<and> n \<le> 122 then n - 87
               else if 65 \<le> n \<and> n \<le> 90 then n - 55
               else 36)
      in if v < r then Some v else None)"

definition digit_char :: "nat \<Rightarrow> char" where
  "digit_char d = (if d < 10 then char_of (48 + d) else char_of (87 + d))"

fun show_radix :: "nat \<Rightarrow> nat \<Rightarrow> string" where
  "show_radix r n =
     (if r < 2 \<or> n < r then [digit_char n]
      else show_radix r (n div r) @ [digit_char (n mod r)])"

declare show_radix.simps [simp del]

abbreviation show_dec :: "nat \<Rightarrow> string" where
  "show_dec \<equiv> show_radix 10"

definition is_ascii_digit :: "char \<Rightarrow> bool" where
  "is_ascii_digit c \<longleftrightarrow> digit_of 10 c \<noteq> None"

lemma digit_of_less: "digit_of r c = Some d \<Longrightarrow> d < r"
  by (auto simp: digit_of_def Let_def split: if_splits)

lemma digit_of_digit_char: "r \<le> 36 \<Longrightarrow> d < r \<Longrightarrow> digit_of r (digit_char d) = Some d"
  by (auto simp: digit_of_def digit_char_def Let_def of_char_of)

text \<open>Reading digits left to right, as \<open>from_str_radix\<close> does: \<open>None\<close> on a non-digit.\<close>

fun read_digits :: "nat \<Rightarrow> nat \<Rightarrow> string \<Rightarrow> nat option" where
  "read_digits r acc [] = Some acc"
| "read_digits r acc (c # cs) =
     (case digit_of r c of None \<Rightarrow> None | Some d \<Rightarrow> read_digits r (acc * r + d) cs)"

lemma read_digits_append:
  "read_digits r acc (xs @ ys) = Option.bind (read_digits r acc xs) (\<lambda>a. read_digits r a ys)"
  by (induction xs arbitrary: acc) (auto split: option.splits)

lemma show_radix_not_Nil [simp]: "show_radix r n \<noteq> []"
  by (subst show_radix.simps) simp

lemma read_digits_show_radix:
  "2 \<le> r \<Longrightarrow> r \<le> 36 \<Longrightarrow> read_digits r 0 (show_radix r n) = Some n"
proof (induction r n rule: show_radix.induct)
  case (1 r n)
  then show ?case
    by (cases "n < r") (auto simp: show_radix.simps [of r n] read_digits_append digit_of_digit_char)
qed

lemma show_radix_digits:
  "2 \<le> r \<Longrightarrow> r \<le> 36 \<Longrightarrow> c \<in> set (show_radix r n) \<Longrightarrow> \<exists>d<r. c = digit_char d"
proof (induction r n rule: show_radix.induct)
  case (1 r n)
  show ?case
  proof (cases "n < r")
    case True
    with "1.prems" show ?thesis by (auto simp: show_radix.simps [of r n])
  next
    case False
    with "1.prems" have "c \<in> set (show_radix r (n div r)) \<or> c = digit_char (n mod r)"
      by (auto simp: show_radix.simps [of r n])
    then show ?thesis
    proof
      assume "c \<in> set (show_radix r (n div r))"
      with "1.IH" "1.prems" False show ?thesis by auto
    next
      assume "c = digit_char (n mod r)"
      moreover have "n mod r < r" using "1.prems" by simp
      ultimately show ?thesis by blast
    qed
  qed
qed

lemma show_radix_inj: "2 \<le> r \<Longrightarrow> r \<le> 36 \<Longrightarrow> show_radix r m = show_radix r n \<Longrightarrow> m = n"
  by (metis read_digits_show_radix option.inject)

lemma length_show_radix_le:
  "2 \<le> r \<Longrightarrow> n < r ^ k \<Longrightarrow> 0 < k \<Longrightarrow> length (show_radix r n) \<le> k"
proof (induction k arbitrary: n)
  case 0
  then show ?case by simp
next
  case (Suc k)
  show ?case
  proof (cases "n < r")
    case True
    then show ?thesis by (simp add: show_radix.simps [of r n])
  next
    case False
    with Suc.prems have k: "0 < k" by (cases k) auto
    from Suc.prems have "n div r < r ^ k"
      by (simp add: less_mult_imp_div_less mult.commute)
    with Suc.IH Suc.prems k have "length (show_radix r (n div r)) \<le> k" by simp
    with False Suc.prems show ?thesis by (simp add: show_radix.simps [of r n])
  qed
qed

text \<open>
  \<open>str::parse::<uN>()\<close>: an optional \<open>+\<close>, at least one digit, and the value below \<open>2 ^ bits\<close>.
\<close>

definition parse_unsigned :: "nat \<Rightarrow> string \<Rightarrow> nat option" where
  "parse_unsigned bits s =
     (let ds = (case s of [] \<Rightarrow> [] | c # cs \<Rightarrow> if c = CHR ''+'' then cs else s)
      in if ds = [] then None
         else case read_digits 10 0 ds of
                None \<Rightarrow> None
              | Some n \<Rightarrow> if n < 2 ^ bits then Some n else None)"

text \<open>\<open>str::parse::<i64>()\<close>: an optional sign, at least one digit, and a value of the type.\<close>

definition parse_i64 :: "string \<Rightarrow> int option" where
  "parse_i64 s =
     (let neg = (case s of c # cs \<Rightarrow> c = CHR ''-'' | [] \<Rightarrow> False);
          ds = (case s of [] \<Rightarrow> [] | c # cs \<Rightarrow> if c = CHR ''+'' \<or> c = CHR ''-'' then cs else s)
      in if ds = [] then None
         else case read_digits 10 0 ds of
                None \<Rightarrow> None
              | Some n \<Rightarrow> (let i = (if neg then - int n else int n)
                           in if is_i64 i then Some i else None))"

lemma digit_char_not_sign:
  "d < 36 \<Longrightarrow> digit_char d \<noteq> CHR ''+'' \<and> digit_char d \<noteq> CHR ''-''"
proof -
  assume d: "d < 36"
  then have "digit_of 36 (digit_char d) = Some d" by (simp add: digit_of_digit_char)
  moreover have "digit_of 36 (CHR ''+'') = None" "digit_of 36 (CHR ''-'') = None"
    by (simp_all add: digit_of_def)
  ultimately show ?thesis by auto
qed

lemma show_dec_Cons_not_sign:
  "show_radix r n = c # cs \<Longrightarrow> 2 \<le> r \<Longrightarrow> r \<le> 36 \<Longrightarrow> c \<noteq> CHR ''+'' \<and> c \<noteq> CHR ''-''"
  using show_radix_digits [of r c n] digit_char_not_sign by fastforce

lemma parse_unsigned_show_dec: "n < 2 ^ bits \<Longrightarrow> parse_unsigned bits (show_dec n) = Some n"
proof -
  assume n: "n < 2 ^ bits"
  obtain c cs where s: "show_dec n = c # cs" by (cases "show_dec n") auto
  have "c \<noteq> CHR ''+''" using show_dec_Cons_not_sign [OF s] by simp
  moreover have "read_digits 10 0 (c # cs) = Some n"
    using read_digits_show_radix [of 10 n] s by simp
  ultimately show ?thesis using n s
    by (simp add: parse_unsigned_def Let_def del: read_digits.simps)
qed

lemma parse_unsigned_bound: "parse_unsigned bits s = Some n \<Longrightarrow> n < 2 ^ bits"
  by (auto simp: parse_unsigned_def Let_def split: option.splits if_splits)

subsection \<open>Splitting strings\<close>

text \<open>\<open>str::split(sep)\<close> for a single character; \<open>strip_prefix\<close> and \<open>strip_suffix\<close>.\<close>

fun split_on :: "'a \<Rightarrow> 'a list \<Rightarrow> 'a list list" where
  "split_on sep [] = [[]]"
| "split_on sep (c # cs) =
     (if c = sep then [] # split_on sep cs
      else case split_on sep cs of [] \<Rightarrow> [[c]] | p # ps \<Rightarrow> (c # p) # ps)"

definition strip_prefix :: "'a list \<Rightarrow> 'a list \<Rightarrow> 'a list option" where
  "strip_prefix p s = (if take (length p) s = p then Some (drop (length p) s) else None)"

definition strip_suffix :: "'a list \<Rightarrow> 'a list \<Rightarrow> 'a list option" where
  "strip_suffix p s =
     (if length p \<le> length s \<and> drop (length s - length p) s = p
      then Some (take (length s - length p) s) else None)"

lemma split_on_not_Nil [simp]: "split_on sep s \<noteq> []"
  by (induction s) (auto split: list.splits)

lemma split_on_no_sep: "sep \<notin> set s \<Longrightarrow> split_on sep s = [s]"
  by (induction s) auto

lemma split_on_append:
  "sep \<notin> set p \<Longrightarrow> split_on sep (p @ sep # s) = p # split_on sep s"
  by (induction p) auto

lemma strip_suffix_append [simp]: "strip_suffix p (s @ p) = Some s"
  by (simp add: strip_suffix_def)

lemma strip_suffix_Some: "strip_suffix p s = Some t \<longleftrightarrow> s = t @ p"
  by (auto simp: strip_suffix_def) (metis append_take_drop_id)

lemma strip_suffix_None: "strip_suffix p s = None \<longleftrightarrow> (\<nexists>t. s = t @ p)"
  using strip_suffix_Some [of p s] by (metis not_None_eq)

lemma strip_prefix_Some: "strip_prefix p s = Some t \<longleftrightarrow> s = p @ t"
  by (auto simp: strip_prefix_def) (metis append_take_drop_id)

end
