(* ===== verification/Text.thy ===== *)
theory Text
  imports Prelude "HOL-Library.Sublist"
begin

section \<open>Text operations of the standard library\<close>

text \<open>
  The parts of \<open>core::str\<close> the program calls on text that comes from outside: UTF-8 validation and
  lossy decoding, substring search, trimming, line splitting and hexadecimal text. A string is the
  list of its UTF-8 bytes.
\<close>

subsection \<open>UTF-8\<close>

definition cont_byte :: "nat \<Rightarrow> nat \<Rightarrow> u8 \<Rightarrow> bool" where
  "cont_byte lo hi b \<longleftrightarrow> lo \<le> unat b \<and> unat b \<le> hi"

text \<open>\<open>std::str::from_utf8\<close>: the well-formed UTF-8 byte sequences.\<close>

fun utf8_valid :: "bytes \<Rightarrow> bool" where
  "utf8_valid [] = True"
| "utf8_valid (a # r) =
     (let n = unat a
      in if n < 0x80 then utf8_valid r
         else if 0xC2 \<le> n \<and> n \<le> 0xDF then
           (case r of b # r' \<Rightarrow> cont_byte 0x80 0xBF b \<and> utf8_valid r' | _ \<Rightarrow> False)
         else if 0xE0 \<le> n \<and> n \<le> 0xEF then
           (case r of b # c # r' \<Rightarrow>
              cont_byte (if n = 0xE0 then 0xA0 else 0x80) (if n = 0xED then 0x9F else 0xBF) b \<and>
              cont_byte 0x80 0xBF c \<and> utf8_valid r' | _ \<Rightarrow> False)
         else if 0xF0 \<le> n \<and> n \<le> 0xF4 then
           (case r of b # c # d # r' \<Rightarrow>
              cont_byte (if n = 0xF0 then 0x90 else 0x80) (if n = 0xF4 then 0x8F else 0xBF) b \<and>
              cont_byte 0x80 0xBF c \<and> cont_byte 0x80 0xBF d \<and> utf8_valid r' | _ \<Rightarrow> False)
         else False)"

text \<open>
  \<open>String::from_utf8_lossy\<close>: every maximal prefix of a sequence that cannot be continued is
  replaced by one U+FFFD. \<open>utf8_step\<close> gives the length of the next sequence and whether it is a
  character.
\<close>

definition utf8_step :: "bytes \<Rightarrow> nat \<times> bool" where
  "utf8_step s =
     (case s of
        [] \<Rightarrow> (0, True)
      | a # r \<Rightarrow>
          let n = unat a;
              second = (\<lambda>lo hi. r \<noteq> [] \<and> cont_byte lo hi (r ! 0));
              third = (length r > 1 \<and> cont_byte 0x80 0xBF (r ! 1));
              fourth = (length r > 2 \<and> cont_byte 0x80 0xBF (r ! 2))
          in if n < 0x80 then (1, True)
             else if 0xC2 \<le> n \<and> n \<le> 0xDF then
               (if second 0x80 0xBF then (2, True) else (1, False))
             else if 0xE0 \<le> n \<and> n \<le> 0xEF then
               (if \<not> second (if n = 0xE0 then 0xA0 else 0x80) (if n = 0xED then 0x9F else 0xBF)
                then (1, False) else if \<not> third then (2, False) else (3, True))
             else if 0xF0 \<le> n \<and> n \<le> 0xF4 then
               (if \<not> second (if n = 0xF0 then 0x90 else 0x80) (if n = 0xF4 then 0x8F else 0xBF)
                then (1, False)
                else if \<not> third then (2, False) else if \<not> fourth then (3, False) else (4, True))
             else (1, False))"

lemma utf8_step_pos: "fst (utf8_step (a # r)) > 0"
  by (simp add: utf8_step_def Let_def)

function utf8_lossy :: "bytes \<Rightarrow> bytes" where
  "utf8_lossy [] = []"
| "utf8_lossy (a # r) =
     (let (n, ok) = utf8_step (a # r)
      in (if ok then take n (a # r) else [0xEF, 0xBF, 0xBD]) @ utf8_lossy (drop n (a # r)))"
  by pat_completeness auto
termination
proof (relation "measure length")
  fix a :: u8 and r x n ok
  assume "x = utf8_step (a # r)" "(n, ok) = x"
  then have "n > 0" using utf8_step_pos [of a r] by (metis fst_conv)
  then show "(drop n (a # r), a # r) \<in> measure length" by simp
qed simp

lemma utf8_valid_step:
  "utf8_valid (a # r) \<Longrightarrow>
     snd (utf8_step (a # r)) \<and> utf8_valid (drop (fst (utf8_step (a # r))) (a # r))"
  by (auto simp: utf8_step_def Let_def split: if_splits list.splits)

lemma utf8_lossy_valid: "utf8_valid s \<Longrightarrow> utf8_lossy s = s"
proof (induction s rule: utf8_lossy.induct)
  case 1
  then show ?case by simp
next
  case (2 a r)
  obtain n ok where step: "utf8_step (a # r) = (n, ok)" by fastforce
  with utf8_valid_step [OF "2.prems"] have ok: "ok" "utf8_valid (drop n (a # r))" by auto
  have "utf8_lossy (drop n (a # r)) = drop n (a # r)"
    using "2.IH" [OF step [symmetric] refl ok(2)] .
  with ok step show ?case by simp
qed

subsection \<open>Searching and trimming\<close>

text \<open>\<open>str::contains\<close> with a string pattern.\<close>

fun contains :: "string \<Rightarrow> string \<Rightarrow> bool" where
  "contains [] p \<longleftrightarrow> p = []"
| "contains (c # s) p \<longleftrightarrow> prefix p (c # s) \<or> contains s p"

lemma contains_iff: "contains s p \<longleftrightarrow> (\<exists>a b. s = a @ p @ b)"
proof (induction s)
  case Nil
  then show ?case by auto
next
  case (Cons c s)
  show ?case
  proof
    assume "contains (c # s) p"
    then show "\<exists>a b. c # s = a @ p @ b"
    proof (cases "prefix p (c # s)")
      case True
      then show ?thesis by (metis append_Nil prefix_def)
    next
      case False
      with \<open>contains (c # s) p\<close> Cons.IH obtain a b where "s = a @ p @ b" by auto
      then show ?thesis by (metis append_Cons)
    qed
  next
    assume "\<exists>a b. c # s = a @ p @ b"
    then obtain a b where ab: "c # s = a @ p @ b" by blast
    show "contains (c # s) p"
    proof (cases a)
      case Nil
      with ab have "prefix p (c # s)" by (simp add: prefix_def)
      then show ?thesis by simp
    next
      case (Cons x a')
      with ab have "s = a' @ p @ b" by simp
      with Cons.IH show ?thesis by auto
    qed
  qed
qed

text \<open>The code points of property White_Space, as UTF-8.\<close>

definition white_space :: "string list" where
  "white_space =
     map bytes_str
       ([[9], [10], [11], [12], [13], [32], [0xC2, 0x85], [0xC2, 0xA0], [0xE1, 0x9A, 0x80]] @
        map (\<lambda>b. [0xE2, 0x80, b])
          [0x80, 0x81, 0x82, 0x83, 0x84, 0x85, 0x86, 0x87, 0x88, 0x89, 0x8A, 0xA8, 0xA9, 0xAF] @
        [[0xE2, 0x81, 0x9F], [0xE3, 0x80, 0x80]])"

text \<open>
  Dropping the given non-empty words from the front as long as one of them is there:
  \<open>trim_start\<close>, and on the reversed text \<open>trim_end\<close>.
\<close>

function strip_words :: "string list \<Rightarrow> string \<Rightarrow> string" where
  "strip_words ws s =
     (case find (\<lambda>w. w \<noteq> [] \<and> prefix w s) ws of
        None \<Rightarrow> s
      | Some w \<Rightarrow> strip_words ws (drop (length w) s))"
  by pat_completeness auto
termination
proof (relation "measure (\<lambda>(ws, s). length s)")
  fix ws s w
  assume "find (\<lambda>w. w \<noteq> [] \<and> prefix w s) ws = Some w"
  then have "w \<noteq> []" "prefix w s" by (auto simp: find_Some_iff)
  then show "((ws, drop (length w) s), ws, s) \<in> measure (\<lambda>(ws, s). length s)"
    by (cases w; cases s) auto
qed simp

declare strip_words.simps [simp del]

definition trim :: "string \<Rightarrow> string" where
  "trim s = rev (strip_words (map rev white_space) (rev (strip_words white_space s)))"

lemma strip_words_suffix: "suffix (strip_words ws s) s"
proof (induction ws s rule: strip_words.induct)
  case (1 ws s)
  show ?case
  proof (cases "find (\<lambda>w. w \<noteq> [] \<and> prefix w s) ws")
    case None
    then show ?thesis by (simp add: strip_words.simps [of ws s])
  next
    case (Some w)
    with 1 [OF Some] show ?thesis
      by (simp add: strip_words.simps [of ws s]) (meson suffix_drop suffix_order.trans)
  qed
qed

lemma strip_words_stop: "w \<in> set ws \<Longrightarrow> w \<noteq> [] \<Longrightarrow> \<not> prefix w (strip_words ws s)"
proof (induction ws s rule: strip_words.induct)
  case (1 ws s)
  show ?case
  proof (cases "find (\<lambda>w. w \<noteq> [] \<and> prefix w s) ws")
    case None
    then have "\<not> (w \<noteq> [] \<and> prefix w s)" using 1(2) by (auto simp: find_None_iff)
    with 1(3) show ?thesis by (subst strip_words.simps) (simp add: None)
  next
    case (Some v)
    with 1(1) [OF Some 1(2,3)] show ?thesis by (subst strip_words.simps) (simp add: Some)
  qed
qed

text \<open>A text that starts and ends with a printable ASCII character is not changed by \<open>trim\<close>.\<close>

definition plain :: "char \<Rightarrow> bool" where
  "plain c \<longleftrightarrow> 33 \<le> (of_char c :: nat) \<and> (of_char c :: nat) < 128"

lemma strip_words_none:
  assumes "\<And>w. w \<in> set ws \<Longrightarrow> w \<noteq> [] \<Longrightarrow> hd w \<noteq> c"
  shows "strip_words ws (c # s) = c # s"
proof -
  have "find (\<lambda>w. w \<noteq> [] \<and> prefix w (c # s)) ws = None"
    using assms by (fastforce simp: find_None_iff prefix_Cons)
  then show ?thesis by (subst strip_words.simps) simp
qed

lemma white_space_ends:
  "list_all (\<lambda>w. w \<noteq> [] \<and> \<not> plain (hd w) \<and> \<not> plain (last w)) white_space"
  by (simp add: white_space_def plain_def bytes_str_def char_of_byte_def)

lemma trim_plain:
  assumes "s \<noteq> []" "plain (hd s)" "plain (last s)"
  shows "trim s = s"
proof -
  have "strip_words white_space (hd s # tl s) = hd s # tl s"
    using white_space_ends assms(2) by (intro strip_words_none) (auto simp: list_all_iff)
  then have 1: "strip_words white_space s = s" using assms(1) by simp
  have "strip_words (map rev white_space) (last s # rev (butlast s)) = last s # rev (butlast s)"
    using white_space_ends assms(3) by (intro strip_words_none) (auto simp: list_all_iff hd_rev)
  moreover have "last s # rev (butlast s) = rev s"
    using assms(1) by (cases s rule: rev_cases) simp_all
  ultimately have "strip_words (map rev white_space) (rev s) = rev s" by simp
  then show ?thesis unfolding trim_def 1 by simp
qed

subsection \<open>Hexadecimal text\<close>

definition hex_of :: "bytes \<Rightarrow> string" where
  "hex_of bs = concat (map (\<lambda>b. [digit_char (unat b div 16), digit_char (unat b mod 16)]) bs)"

lemma length_hex_of [simp]: "length (hex_of bs) = 2 * length bs"
  by (induction bs) (auto simp: hex_of_def)

lemma hex_of_Cons:
  "hex_of (b # bs) = digit_char (unat b div 16) # digit_char (unat b mod 16) # hex_of bs"
  by (simp add: hex_of_def)

lemma digit_char_inj: "d < 16 \<Longrightarrow> e < 16 \<Longrightarrow> digit_char d = digit_char e \<Longrightarrow> d = e"
proof -
  assume d: "d < 16" and e: "e < 16" and eq: "digit_char d = digit_char e"
  have "(16 :: nat) \<le> 36" by simp
  from digit_of_digit_char [OF this d] digit_of_digit_char [OF this e] eq
  have "Some d = Some e" by metis
  then show "d = e" by (rule option.inject [THEN iffD1])
qed

lemma hex_of_inj: "hex_of a = hex_of b \<Longrightarrow> a = b"
proof (induction a arbitrary: b)
  case Nil
  then show ?case by (cases b) (auto simp: hex_of_def)
next
  case (Cons x a)
  then obtain y b' where b: "b = y # b'" by (cases b) (auto simp: hex_of_def)
  have lt: "unat z div 16 < 16" "unat z mod 16 < 16" for z :: u8
  proof -
    have "unat z < 16 * 16" using unat_u8_less [of z] by simp
    then show "unat z div 16 < 16" by (rule less_mult_imp_div_less)
  qed simp
  from Cons.prems b have "unat x div 16 = unat y div 16" "unat x mod 16 = unat y mod 16"
    "hex_of a = hex_of b'"
    using digit_char_inj [OF lt(1) lt(1), of x y] digit_char_inj [OF lt(2) lt(2), of x y]
    unfolding hex_of_Cons b by blast+
  then have "unat x = unat y" "a = b'" using Cons.IH [of b'] by (metis div_mult_mod_eq, blast)
  then show ?case using b by (simp add: word_unat_eq_iff)
qed

end
