(* ===== verification/Net_Text.thy ===== *)
theory Net_Text
  imports Prelude
begin

section \<open>Textual IP addresses\<close>

text \<open>
  The part of \<open>std::net\<close> the crawler relies on: \<open>Display\<close> and \<open>FromStr\<close> of \<open>Ipv4Addr\<close> and
  \<open>Ipv6Addr\<close>. An IPv4 address is its four octets as numbers, an IPv6 address the sixteen octets
  of \<open>Ipv6Addr::octets\<close>. The reader follows the standard library's recursive descent parser:
  every \<open>read_*\<close> consumes a prefix of the text or, when it fails, nothing. The main result is
  that parsing the text of an address gives the address back, for all three output formats
  (plain, zero-compressed, IPv4-mapped).
\<close>

subsection \<open>Octets and segments\<close>

fun segs :: "bytes \<Rightarrow> nat list" where
  "segs (a # b # r) = (unat a * 256 + unat b) # segs r"
| "segs _ = []"

fun octs :: "nat list \<Rightarrow> bytes" where
  "octs [] = []"
| "octs (s # r) = word_of_nat (s div 256) # word_of_nat (s mod 256) # octs r"

lemma octs_segs: "even (length bs) \<Longrightarrow> octs (segs bs) = bs"
proof (induction bs rule: segs.induct)
  case (1 a b r)
  have "(unat a * 256 + unat b) div 256 = unat a" "(unat a * 256 + unat b) mod 256 = unat b"
    by simp_all
  with 1 show ?case by simp
qed auto

lemma length_segs [simp]: "length (segs bs) = length bs div 2"
  by (induction bs rule: segs.induct) auto

lemma segs_bound: "g \<in> set (segs bs) \<Longrightarrow> g < 65536"
proof (induction bs rule: segs.induct)
  case (1 a b r)
  have "unat a * 256 + unat b < 65536"
    using unat_u8_less [of a] unat_u8_less [of b] by linarith
  with 1 show ?case by auto
qed auto

subsection \<open>Printing\<close>

definition show_ipv4 :: "nat \<Rightarrow> nat \<Rightarrow> nat \<Rightarrow> nat \<Rightarrow> string" where
  "show_ipv4 a b c d =
     show_dec a @ ''.'' @ show_dec b @ ''.'' @ show_dec c @ ''.'' @ show_dec d"

fun show_groups :: "nat list \<Rightarrow> string" where
  "show_groups [] = []"
| "show_groups [g] = show_radix 16 g"
| "show_groups (g # gs) = show_radix 16 g @ '':'' @ show_groups gs"

text \<open>The longest run of zero segments, the first one on a tie, as (start, length).\<close>

fun zero_run :: "nat \<Rightarrow> nat \<times> nat \<Rightarrow> nat \<times> nat \<Rightarrow> nat list \<Rightarrow> nat \<times> nat" where
  "zero_run i cur longest [] = longest"
| "zero_run i (cs, cl) (ls, ll) (x # xs) =
     (if x = 0 then
        (let cs' = (if cl = 0 then i else cs)
         in zero_run (Suc i) (cs', Suc cl)
              (if Suc cl > ll then (cs', Suc cl) else (ls, ll)) xs)
      else zero_run (Suc i) (0, 0) (ls, ll) xs)"

definition is_ipv4_mapped :: "bytes \<Rightarrow> bool" where
  "is_ipv4_mapped o16 \<longleftrightarrow> take 12 o16 = [0, 0, 0, 0, 0, 0, 0, 0, 0, 0, 0xff, 0xff]"

definition show_ipv6 :: "bytes \<Rightarrow> string" where
  "show_ipv6 o16 =
     (if is_ipv4_mapped o16 then
        ''::ffff:'' @ show_ipv4 (unat (o16 ! 12)) (unat (o16 ! 13)) (unat (o16 ! 14)) (unat (o16 ! 15))
      else
        (let gs = segs o16; (s, l) = zero_run 0 (0, 0) (0, 0) gs
         in if l > 1 then show_groups (take s gs) @ ''::'' @ show_groups (drop (s + l) gs)
            else show_groups gs))"

subsection \<open>Parsing\<close>

type_synonym 'a reader = "string \<Rightarrow> ('a \<times> string) option"

definition read_given_char :: "char \<Rightarrow> unit reader" where
  "read_given_char c s = (case s of [] \<Rightarrow> None | x # xs \<Rightarrow> if x = c then Some ((), xs) else None)"

definition read_number :: "nat \<Rightarrow> nat \<Rightarrow> bool \<Rightarrow> nat \<Rightarrow> nat reader" where
  "read_number radix max_digits allow_zero_prefix bound s =
     (let ds = takeWhile (\<lambda>c. digit_of radix c \<noteq> None) s
      in if ds = [] \<or> length ds > max_digits then None
         else if \<not> allow_zero_prefix \<and> hd ds = CHR ''0'' \<and> length ds > 1 then None
         else case read_digits radix 0 ds of
                None \<Rightarrow> None
              | Some n \<Rightarrow> if n < bound then Some (n, drop (length ds) s) else None)"

text \<open>\<open>read_separator(sep, index, inner)\<close>: the separator is read unless the index is 0.\<close>

definition read_separator :: "char \<Rightarrow> bool \<Rightarrow> 'a reader \<Rightarrow> 'a reader" where
  "read_separator sep first inner s =
     (if first then inner s
      else Option.bind (read_given_char sep s) (\<lambda>(_, s). inner s))"

definition read_octet :: "nat reader" where
  "read_octet = read_number 10 3 False 256"

definition read_ipv4 :: "(nat \<times> nat \<times> nat \<times> nat) reader" where
  "read_ipv4 s =
     Option.bind (read_separator (CHR ''.'') True read_octet s) (\<lambda>(a, s).
     Option.bind (read_separator (CHR ''.'') False read_octet s) (\<lambda>(b, s).
     Option.bind (read_separator (CHR ''.'') False read_octet s) (\<lambda>(c, s).
     Option.bind (read_separator (CHR ''.'') False read_octet s) (\<lambda>(d, s).
     Some ((a, b, c, d), s)))))"

text \<open>
  \<open>read_groups\<close> with \<open>n\<close> groups left to fill. The flag says whether an embedded IPv4 address
  (which fills two groups) ended the list.
\<close>

fun read_groups :: "nat \<Rightarrow> bool \<Rightarrow> string \<Rightarrow> nat list \<times> bool \<times> string" where
  "read_groups 0 first s = ([], False, s)"
| "read_groups (Suc n) first s =
     (case (if 0 < n then read_separator (CHR '':'') first read_ipv4 s else None) of
        Some ((a, b, c, d), s') \<Rightarrow> ([a * 256 + b, c * 256 + d], True, s')
      | None \<Rightarrow>
         (case read_separator (CHR '':'') first (read_number 16 4 True 65536) s of
            Some (g, s') \<Rightarrow>
              (let (gs, v4, s'') = read_groups n False s' in (g # gs, v4, s''))
          | None \<Rightarrow> ([], False, s)))"

definition read_ipv6 :: "nat list reader" where
  "read_ipv6 s =
     (let (head, head_v4, s1) = read_groups 8 True s
      in if length head = 8 then Some (head, s1)
         else if head_v4 then None
         else
           Option.bind (read_given_char (CHR '':'') s1) (\<lambda>(_, s2).
           Option.bind (read_given_char (CHR '':'') s2) (\<lambda>(_, s3).
             let (tail, _, s4) = read_groups (8 - (length head + 1)) True s3
             in Some (head @ replicate (8 - length tail - length head) 0 @ tail, s4))))"

definition parse_with :: "'a reader \<Rightarrow> string \<Rightarrow> 'a option" where
  "parse_with r s = (case r s of Some (a, []) \<Rightarrow> Some a | _ \<Rightarrow> None)"

text \<open>\<open>"..".parse::<Ipv6Addr>()\<close> and \<open>"..".parse::<Ipv4Addr>()\<close>, as octets.\<close>

definition parse_ipv6 :: "string \<Rightarrow> bytes option" where
  "parse_ipv6 s = map_option octs (parse_with read_ipv6 s)"

definition parse_ipv4 :: "string \<Rightarrow> bytes option" where
  "parse_ipv4 s =
     (if length s > 15 then None
      else map_option (\<lambda>(a, b, c, d). map word_of_nat [a, b, c, d]) (parse_with read_ipv4 s))"

text \<open>
  \<open>"..".parse::<IpAddr>()\<close>: the IPv4 reader first; the IPv6 reader only when that one fails,
  and the reader that succeeds must reach the end of the text.
\<close>

definition parse_ip :: "string \<Rightarrow> bytes option" where
  "parse_ip s =
     (case read_ipv4 s of
        Some ((a, b, c, d), rest) \<Rightarrow> if rest = [] then Some (map word_of_nat [a, b, c, d]) else None
      | None \<Rightarrow> parse_ipv6 s)"

subsection \<open>Reading back a number\<close>

definition stops :: "nat \<Rightarrow> string \<Rightarrow> bool" where
  "stops radix t \<longleftrightarrow> (\<forall>c cs. t = c # cs \<longrightarrow> digit_of radix c = None)"

lemma stops_Nil [simp]: "stops r []"
  by (simp add: stops_def)

lemma stops_colon [simp]: "r \<le> 36 \<Longrightarrow> stops r (CHR '':'' # cs)"
  by (simp add: stops_def digit_of_def)

lemma stops_dot [simp]: "r \<le> 36 \<Longrightarrow> stops r (CHR ''.'' # cs)"
  by (simp add: stops_def digit_of_def)

lemma takeWhile_number:
  assumes "2 \<le> r" "r \<le> 36" "stops r t"
  shows "takeWhile (\<lambda>c. digit_of r c \<noteq> None) (show_radix r n @ t) = show_radix r n"
proof -
  have "\<forall>c\<in>set (show_radix r n). digit_of r c \<noteq> None"
    using show_radix_digits [of r _ n] assms digit_of_digit_char by fastforce
  moreover have "takeWhile (\<lambda>c. digit_of r c \<noteq> None) t = []"
    using assms(3) by (cases t) (auto simp: stops_def)
  ultimately show ?thesis by (simp add: takeWhile_append2)
qed

lemmas takeWhile_number_ex = takeWhile_number [unfolded not_None_eq]

lemma read_group_show:
  assumes "g < 65536" "stops 16 t"
  shows "read_number 16 4 True 65536 (show_radix 16 g @ t) = Some (g, t)"
proof -
  have "length (show_radix 16 g) \<le> 4"
    using length_show_radix_le [of 16 g 4] assms by simp
  with assms show ?thesis
    by (simp add: read_number_def Let_def takeWhile_number_ex read_digits_show_radix)
qed

lemma hd_show_dec_zero: "hd (show_dec n) = CHR ''0'' \<Longrightarrow> length (show_dec n) \<le> 1"
proof (induction "10 :: nat" n rule: show_radix.induct)
  case (1 n)
  show ?case
  proof (cases "n < 10")
    case True
    then show ?thesis by (simp add: show_radix.simps [of 10 n])
  next
    case False
    then have s: "show_dec n = show_dec (n div 10) @ [digit_char (n mod 10)]"
      by (simp add: show_radix.simps [of 10 n])
    with 1 False have "length (show_dec (n div 10)) \<le> 1" and h: "hd (show_dec (n div 10)) = CHR ''0''"
      by simp_all
    then have "show_dec (n div 10) = [CHR ''0'']"
      by (cases "show_dec (n div 10)") auto
    then have "n div 10 = 0"
      using read_digits_show_radix [of 10 "n div 10"] by (simp add: digit_of_def)
    with False show ?thesis by simp
  qed
qed

lemma read_octet_show:
  assumes "n < 256" "stops 10 t"
  shows "read_octet (show_dec n @ t) = Some (n, t)"
proof -
  have "length (show_dec n) \<le> 3"
    using length_show_radix_le [of 10 n 3] assms by simp
  moreover have "\<not> (hd (show_dec n) = CHR ''0'' \<and> length (show_dec n) > 1)"
    using hd_show_dec_zero [of n] by auto
  ultimately show ?thesis using assms
    by (simp add: read_octet_def read_number_def Let_def takeWhile_number_ex read_digits_show_radix)
qed

lemma read_ipv4_show:
  assumes "a < 256" "b < 256" "c < 256" "d < 256" "stops 10 t"
  shows "read_ipv4 (show_ipv4 a b c d @ t) = Some ((a, b, c, d), t)"
  using assms
  by (simp add: read_ipv4_def show_ipv4_def read_separator_def read_given_char_def read_octet_show)

lemma parse_ipv4_show:
  assumes "a < 256" "b < 256" "c < 256" "d < 256"
  shows "parse_ipv4 (show_ipv4 a b c d) = Some (map word_of_nat [a, b, c, d])"
proof -
  have l: "length (show_dec n) \<le> 3" if "n < 256" for n
    using length_show_radix_le [of 10 n 3] that by simp
  have "length (show_ipv4 a b c d) \<le> 15"
    using l [OF assms(1)] l [OF assms(2)] l [OF assms(3)] l [OF assms(4)]
    by (simp add: show_ipv4_def)
  moreover have "read_ipv4 (show_ipv4 a b c d) = Some ((a, b, c, d), [])"
    using read_ipv4_show [OF assms, of "[]"] by simp
  ultimately show ?thesis by (simp add: parse_ipv4_def parse_with_def)
qed

subsection \<open>Reading back groups\<close>

text \<open>An IPv4 address is not mistaken for a hexadecimal group: no dot follows its digits.\<close>

lemma read_ipv4_None:
  assumes "\<And>c cs. dropWhile (\<lambda>c. digit_of 10 c \<noteq> None) s = c # cs \<Longrightarrow> c \<noteq> CHR ''.''"
  shows "read_ipv4 s = None"
proof (cases "read_octet s")
  case None
  then show ?thesis by (simp add: read_ipv4_def read_separator_def)
next
  case (Some p)
  then obtain n r where r: "read_octet s = Some (n, r)"
    and "r = dropWhile (\<lambda>c. digit_of 10 c \<noteq> None) s"
    by (auto simp: read_octet_def read_number_def Let_def dropWhile_eq_drop
        split: if_splits option.splits)
  with assms have "\<And>c cs. r = c # cs \<Longrightarrow> c \<noteq> CHR ''.''" by metis
  with r show ?thesis
    by (cases r) (auto simp: read_ipv4_def read_separator_def read_given_char_def)
qed

definition sep_or_end :: "string \<Rightarrow> bool" where
  "sep_or_end t \<longleftrightarrow> t = [] \<or> (\<exists>t'. t = CHR '':'' # t')"

lemma sep_or_end_stops: "sep_or_end t \<Longrightarrow> r \<le> 36 \<Longrightarrow> stops r t"
  by (auto simp: sep_or_end_def)

lemma dropWhile_head_in:
  "dropWhile P (xs @ ys) = c # cs \<Longrightarrow> c \<in> set xs \<or> (\<exists>cs'. dropWhile P ys = c # cs')"
  by (induction xs) (auto split: if_splits)

lemma digit_char_not_dot: "d < 36 \<Longrightarrow> digit_char d \<noteq> CHR ''.''"
  using digit_of_digit_char [of 36 d] by (auto simp: digit_of_def)

lemma read_ipv4_group_None:
  assumes "sep_or_end t"
  shows "read_ipv4 (show_radix 16 g @ t) = None"
proof (rule read_ipv4_None)
  fix c cs
  assume "dropWhile (\<lambda>c. digit_of 10 c \<noteq> None) (show_radix 16 g @ t) = c # cs"
  then consider "c \<in> set (show_radix 16 g)" |
      cs' where "dropWhile (\<lambda>c. digit_of 10 c \<noteq> None) t = c # cs'"
    by (blast dest: dropWhile_head_in)
  then show "c \<noteq> CHR ''.''"
  proof cases
    case 1
    then obtain d where "d < 16" "c = digit_char d" using show_radix_digits [of 16 c g] by auto
    then show ?thesis using digit_char_not_dot [of d] by simp
  next
    case 2
    with assms show ?thesis by (auto simp: sep_or_end_def digit_of_def)
  qed
qed

lemma read_ipv4_no_digit: "stops 10 s \<Longrightarrow> read_ipv4 s = None"
  by (cases s) (auto simp: stops_def read_ipv4_def read_separator_def read_octet_def
      read_number_def Let_def)

lemma read_number_no_digit: "stops r s \<Longrightarrow> read_number r m z bd s = None"
  by (cases s) (auto simp: stops_def read_number_def Let_def)

definition group_text :: "bool \<Rightarrow> nat list \<Rightarrow> string" where
  "group_text first gs =
     (if first then show_groups gs else concat (map (\<lambda>g. CHR '':'' # show_radix 16 g) gs))"

lemma group_text_Cons:
  "group_text first (g # gs) =
     (if first then [] else '':'') @ show_radix 16 g @ group_text False gs"
  by (induction gs arbitrary: g) (auto simp: group_text_def)

lemma sep_or_end_group_text: "sep_or_end t \<Longrightarrow> sep_or_end (group_text False gs @ t)"
  by (cases gs) (auto simp: group_text_def sep_or_end_def)

text \<open>
  The text that follows the groups must not continue them: it is empty, or starts with
  \<open>::\<close>.
\<close>

definition double_or_end :: "string \<Rightarrow> bool" where
  "double_or_end t \<longleftrightarrow> t = [] \<or> (\<exists>t'. t = CHR '':'' # CHR '':'' # t')"

lemma double_sep: "double_or_end t \<Longrightarrow> sep_or_end t"
  by (auto simp: double_or_end_def sep_or_end_def)

lemma read_groups_stop:
  "double_or_end t \<Longrightarrow> read_groups n first t = ([], False, t)"
  by (cases n)
    (auto simp: double_or_end_def read_separator_def read_given_char_def
      read_ipv4_no_digit read_number_no_digit)

lemma read_groups_show:
  assumes "\<forall>g\<in>set gs. g < 65536" "length gs \<le> n" "double_or_end t"
  shows "read_groups n first (group_text first gs @ t) = (gs, False, t)"
  using assms
proof (induction gs arbitrary: n first)
  case Nil
  then show ?case by (simp add: group_text_def read_groups_stop)
next
  case (Cons g gs)
  then obtain m where n: "n = Suc m" by (cases n) auto
  let ?rest = "group_text False gs @ t"
  have sep: "sep_or_end ?rest"
    using Cons.prems by (simp add: double_sep sep_or_end_group_text)
  have IH: "read_groups m False ?rest = (gs, False, t)"
    using Cons.IH [of m False] Cons.prems n by simp
  have num: "read_number 16 4 True 65536 (show_radix 16 g @ ?rest) = Some (g, ?rest)"
    using Cons.prems sep by (simp add: read_group_show sep_or_end_stops)
  have v4: "read_ipv4 (show_radix 16 g @ ?rest) = None"
    using sep by (rule read_ipv4_group_None)
  have "(if 0 < m then read_separator (CHR '':'') first read_ipv4 (group_text first (g # gs) @ t)
      else None) = None"
    by (simp add: group_text_Cons read_separator_def read_given_char_def v4)
  moreover have "read_separator (CHR '':'') first (read_number 16 4 True 65536)
      (group_text first (g # gs) @ t) = Some (g, ?rest)"
    by (simp add: group_text_Cons read_separator_def read_given_char_def num)
  ultimately show ?case by (simp only: n read_groups.simps option.case IH prod.case Let_def)
qed

subsection \<open>The round trip\<close>

lemma zero_run_spec:
  assumes "zero_run i (cs, cl) (ls, ll) xs = (s, l)"
    and "gs = pre @ xs" "i = length pre"
    and "cl = 0 \<or> (cs + cl = i \<and> (\<forall>k. cs \<le> k \<and> k < i \<longrightarrow> gs ! k = 0))"
    and "ls + ll \<le> i \<and> (\<forall>k. ls \<le> k \<and> k < ls + ll \<longrightarrow> gs ! k = 0)"
  shows "s + l \<le> length gs \<and> (\<forall>k. s \<le> k \<and> k < s + l \<longrightarrow> gs ! k = 0)"
  using assms
proof (induction xs arbitrary: i cs cl ls ll pre)
  case Nil
  then show ?case by auto
next
  case (Cons x xs)
  have gs: "gs = (pre @ [x]) @ xs" and gi: "gs ! i = x"
    using Cons.prems by simp_all
  show ?case
  proof (cases "x = 0")
    case False
    with Cons.prems have "zero_run (Suc i) (0, 0) (ls, ll) xs = (s, l)" by simp
    from Cons.IH [OF this gs] Cons.prems show ?thesis by simp
  next
    case True
    let ?cs = "if cl = 0 then i else cs"
    have cur: "?cs + Suc cl = Suc i \<and> (\<forall>k. ?cs \<le> k \<and> k < Suc i \<longrightarrow> gs ! k = 0)"
      using Cons.prems(4) gi True by (auto simp: less_Suc_eq)
    have run: "zero_run (Suc i) (?cs, Suc cl)
        (if Suc cl > ll then (?cs, Suc cl) else (ls, ll)) xs = (s, l)"
      using Cons.prems(1) True by (simp add: Let_def)
    show ?thesis
    proof (cases "Suc cl > ll")
      case t: True
      then have "zero_run (Suc i) (?cs, Suc cl) (?cs, Suc cl) xs = (s, l)" using run by simp
      from Cons.IH [OF this gs] cur Cons.prems(3) show ?thesis by auto
    next
      case f: False
      then have "zero_run (Suc i) (?cs, Suc cl) (ls, ll) xs = (s, l)" using run by simp
      from Cons.IH [OF this gs] cur Cons.prems(3,5) show ?thesis by auto
    qed
  qed
qed

lemma zero_run_zeros:
  assumes "zero_run 0 (0, 0) (0, 0) gs = (s, l)"
  shows "gs = take s gs @ replicate l 0 @ drop (s + l) gs" and "s + l \<le> length gs"
proof -
  have *: "s + l \<le> length gs \<and> (\<forall>k. s \<le> k \<and> k < s + l \<longrightarrow> gs ! k = 0)"
    using zero_run_spec [OF assms, of gs "[]"] by simp
  then have "take l (drop s gs) = replicate l 0"
    by (auto intro!: nth_equalityI)
  then show "gs = take s gs @ replicate l 0 @ drop (s + l) gs"
    by (metis append_take_drop_id drop_drop add.commute)
  from * show "s + l \<le> length gs" by simp
qed

lemma read_ipv6_plain:
  assumes "\<forall>g\<in>set gs. g < 65536" "length gs = 8"
  shows "read_ipv6 (show_groups gs) = Some (gs, [])"
proof -
  have "read_groups 8 True (show_groups gs) = (gs, False, [])"
    using read_groups_show [OF assms(1), of 8 "[]" True] assms(2)
    by (simp add: group_text_def double_or_end_def)
  with assms show ?thesis by (simp add: read_ipv6_def)
qed

lemma read_ipv6_compressed:
  assumes "\<forall>g\<in>set hs. g < 65536" "\<forall>g\<in>set ts. g < 65536" "length hs + length ts < 7"
  shows "read_ipv6 (show_groups hs @ ''::'' @ show_groups ts) =
           Some (hs @ replicate (8 - length ts - length hs) 0 @ ts, [])"
proof -
  have h: "read_groups 8 True (show_groups hs @ ''::'' @ show_groups ts) =
      (hs, False, ''::'' @ show_groups ts)"
    using read_groups_show [OF assms(1), of 8 "''::'' @ show_groups ts" True] assms(3)
    by (simp add: group_text_def double_or_end_def)
  have t: "read_groups (8 - (length hs + 1)) True (show_groups ts) = (ts, False, [])"
    using read_groups_show [OF assms(2), of "8 - (length hs + 1)" "[]" True] assms(3)
    by (simp add: group_text_def double_or_end_def)
  from assms(3) have "length hs \<noteq> 8" by simp
  with h t show ?thesis by (simp add: read_ipv6_def read_given_char_def)
qed

lemma read_ipv6_mapped:
  assumes "a < 256" "b < 256" "c < 256" "d < 256"
  shows "read_ipv6 (''::ffff:'' @ show_ipv4 a b c d) =
           Some ([0, 0, 0, 0, 0, 65535, a * 256 + b, c * 256 + d], [])"
proof -
  let ?v4 = "show_ipv4 a b c d"
  have v4: "read_ipv4 ?v4 = Some ((a, b, c, d), [])"
    using read_ipv4_show [OF assms, of "[]"] by simp
  have h: "read_groups 8 True (''::ffff:'' @ ?v4) = ([], False, ''::ffff:'' @ ?v4)"
    by (rule read_groups_stop) (simp add: double_or_end_def)
  have ffff: "show_radix 16 65535 = ''ffff''"
    by (simp add: show_radix.simps [of 16] digit_char_def char_of_eq_iff)
  have g: "read_number 16 4 True 65536 (''ffff:'' @ ?v4) = Some (65535, CHR '':'' # ?v4)"
    using read_group_show [of 65535 "CHR '':'' # ?v4"] by (simp add: ffff)
  have n: "read_ipv4 (''ffff:'' @ ?v4) = None"
    using read_ipv4_group_None [of "CHR '':'' # ?v4" 65535] by (simp add: ffff sep_or_end_def)
  have "read_groups (Suc (Suc (Suc k))) True (''ffff:'' @ ?v4) =
      ([65535, a * 256 + b, c * 256 + d], True, [])" for k
    using g n v4 by (simp add: read_separator_def read_given_char_def)
  moreover have "Suc (Suc (Suc 4)) = 8 - (length ([] :: nat list) + 1)" by simp
  ultimately have t: "read_groups (8 - (length ([] :: nat list) + 1)) True (''ffff:'' @ ?v4) =
      ([65535, a * 256 + b, c * 256 + d], True, [])"
    by metis
  have "replicate (Suc (Suc (Suc (Suc (Suc 0))))) z @ xs = z # z # z # z # z # xs" for z :: nat and xs
    by simp
  moreover have "Suc (Suc (Suc (Suc (Suc 0)))) = 5" by simp
  ultimately have "replicate 5 z @ xs = z # z # z # z # z # xs" for z :: nat and xs
    by metis
  with h t show ?thesis
    by (simp add: read_ipv6_def read_given_char_def)
qed

lemma mapped_segs:
  assumes "length o16 = 16" "is_ipv4_mapped o16"
  shows "segs o16 = [0, 0, 0, 0, 0, 65535, unat (o16 ! 12) * 256 + unat (o16 ! 13),
           unat (o16 ! 14) * 256 + unat (o16 ! 15)]"
proof -
  have "o16 = [0, 0, 0, 0, 0, 0, 0, 0, 0, 0, 0xff, 0xff] @ drop 12 o16"
    using assms(2) append_take_drop_id [of 12 o16] by (simp add: is_ipv4_mapped_def)
  moreover have "drop 12 o16 = [o16 ! 12, o16 ! 13, o16 ! 14, o16 ! 15]"
    using assms(1) Cons_nth_drop_Suc [of 12 o16] Cons_nth_drop_Suc [of 13 o16]
      Cons_nth_drop_Suc [of 14 o16] Cons_nth_drop_Suc [of 15 o16] by simp
  ultimately have "o16 = [0, 0, 0, 0, 0, 0, 0, 0, 0, 0, 0xff, 0xff, o16 ! 12, o16 ! 13, o16 ! 14, o16 ! 15]"
    by simp
  then have "segs o16 = segs ([0, 0, 0, 0, 0, 0, 0, 0, 0, 0, 0xff, 0xff, o16 ! 12, o16 ! 13, o16 ! 14, o16 ! 15])"
    by simp
  then show ?thesis by simp
qed

theorem parse_show_ipv6:
  assumes "length o16 = 16"
  shows "parse_ipv6 (show_ipv6 o16) = Some o16"
proof -
  let ?gs = "segs o16"
  have len: "length ?gs = 8" and bnd: "\<forall>g\<in>set ?gs. g < 65536"
    using assms segs_bound by auto
  have "read_ipv6 (show_ipv6 o16) = Some (?gs, [])"
  proof (cases "is_ipv4_mapped o16")
    case True
    with assms show ?thesis
      by (simp only: show_ipv6_def if_True mapped_segs read_ipv6_mapped unat_u8_less)
  next
    case False
    obtain s l where run: "zero_run 0 (0, 0) (0, 0) ?gs = (s, l)" by fastforce
    note z = zero_run_zeros [OF run]
    show ?thesis
    proof (cases "l > 1")
      case True
      let ?hd = "take s ?gs" and ?tl = "drop (s + l) ?gs"
      have "length ?hd + length ?tl < 7" "8 - length ?tl - length ?hd = l"
        using z(2) len True by simp_all
      then have "read_ipv6 (show_groups ?hd @ ''::'' @ show_groups ?tl) =
          Some (?hd @ replicate l 0 @ ?tl, [])"
        using read_ipv6_compressed [of ?hd ?tl] bnd
        by (metis in_set_dropD in_set_takeD)
      with True False z(1) run show ?thesis by (simp add: show_ipv6_def Let_def)
    next
      case f: False
      with False run show ?thesis
        using read_ipv6_plain [OF bnd len] by (simp add: show_ipv6_def Let_def)
    qed
  qed
  then show ?thesis using assms
    by (simp add: parse_ipv6_def parse_with_def octs_segs)
qed

lemma show_groups_colon: "2 \<le> length gs \<Longrightarrow> CHR '':'' \<in> set (show_groups gs)"
  by (induction gs rule: show_groups.induct) auto

lemma show_ipv6_colon:
  assumes "length o16 = 16"
  shows "CHR '':'' \<in> set (show_ipv6 o16)"
proof -
  obtain s l where run: "zero_run 0 (0, 0) (0, 0) (segs o16) = (s, l)" by fastforce
  have "CHR '':'' \<in> set (show_groups (segs o16))"
    using assms by (intro show_groups_colon) simp
  then show ?thesis by (simp add: show_ipv6_def run Let_def)
qed

lemma show_ipv4_no_colon: "CHR '':'' \<notin> set (show_ipv4 a b c d)"
proof -
  have "digit_of 10 (CHR '':'') = None" by (simp add: digit_of_def)
  then have "CHR '':'' \<noteq> digit_char d" if "d < 10" for d
    using digit_of_digit_char [of 10 d] that by auto
  then have "CHR '':'' \<notin> set (show_dec n)" for n
    using show_radix_digits [of 10 "CHR '':''" n] by auto
  then show ?thesis by (simp add: show_ipv4_def)
qed

text \<open>\<open>IpAddr\<close> accepts both kinds of texts: the IPv4 reader does not stumble over an IPv6 text.\<close>

lemma show_groups_no_dot: "CHR ''.'' \<notin> set (show_groups gs)"
proof -
  have "CHR ''.'' \<notin> set (show_radix 16 g)" for g
  proof
    assume "CHR ''.'' \<in> set (show_radix 16 g)"
    from show_radix_digits [OF _ _ this] obtain d where "d < 16" "CHR ''.'' = digit_char d" by auto
    with digit_char_not_dot [of d] show False by simp
  qed
  then show ?thesis by (induction gs rule: show_groups.induct) auto
qed

lemma read_ipv4_show_ipv6: "read_ipv4 (show_ipv6 o16) = None"
proof (cases "is_ipv4_mapped o16")
  case True
  then show ?thesis
    by (intro read_ipv4_None) (auto simp: show_ipv6_def digit_of_def)
next
  case False
  have "CHR ''.'' \<notin> set (show_ipv6 o16)"
    using False show_groups_no_dot by (simp add: show_ipv6_def Let_def split: prod.split)
  then show ?thesis
    by (intro read_ipv4_None) (metis list.set_intros(1) set_dropWhileD)
qed

lemma parse_ip_show_ipv6: "length o16 = 16 \<Longrightarrow> parse_ip (show_ipv6 o16) = Some o16"
  by (simp add: parse_ip_def read_ipv4_show_ipv6 parse_show_ipv6)

lemma parse_ip_show_ipv4:
  assumes "a < 256" "b < 256" "c < 256" "d < 256"
  shows "parse_ip (show_ipv4 a b c d) = Some (map word_of_nat [a, b, c, d])"
  using read_ipv4_show [OF assms, of "[]"] by (simp add: parse_ip_def)

subsection \<open>What an IPv6 text consists of\<close>

abbreviation colons :: "string \<Rightarrow> nat" where
  "colons s \<equiv> count_list s (CHR '':'')"

lemma read_number_rest:
  assumes "read_number r m z b s = Some (n, s')" "r \<le> 36"
  shows "colons s' = colons s" "CHR '']'' \<in> set s \<Longrightarrow> CHR '']'' \<in> set s'"
proof -
  let ?ds = "takeWhile (\<lambda>c. digit_of r c \<noteq> None) s"
  have s': "s' = drop (length ?ds) s"
    using assms(1) by (auto simp: read_number_def Let_def split: if_splits option.splits)
  then have s: "s = ?ds @ s'" by (metis append_take_drop_id takeWhile_eq_take)
  have nd: "digit_of r (CHR '':'') = None" "digit_of r (CHR '']'') = None"
    using assms(2) by (auto simp: digit_of_def)
  have "CHR '':'' \<notin> set ?ds" "CHR '']'' \<notin> set ?ds" using nd by (auto dest: set_takeWhileD)
  then show "colons s' = colons s" "CHR '']'' \<in> set s \<Longrightarrow> CHR '']'' \<in> set s'"
    using s by (metis count_list_append count_notin add_0, metis Un_iff set_append)
qed

lemma read_given_char_Some: "read_given_char c s = Some (u, s') \<longleftrightarrow> s = c # s'"
  by (cases s) (auto simp: read_given_char_def)

lemma read_separator_rest:
  assumes "read_separator c first (read_number r m z b) s = Some (n, s')" "r \<le> 36" "c \<noteq> CHR '']''"
  shows "colons s = colons s' + of_bool (\<not> first \<and> c = CHR '':'')"
    "CHR '']'' \<in> set s \<Longrightarrow> CHR '']'' \<in> set s'"
proof -
  obtain s1 where s: "s = (if first then s1 else c # s1)" and r: "read_number r m z b s1 = Some (n, s')"
    using assms(1) by (cases first) (auto simp: read_separator_def bind_eq_Some_conv read_given_char_Some)
  from read_number_rest [OF r assms(2)] s assms(3)
  show "colons s = colons s' + of_bool (\<not> first \<and> c = CHR '':'')" "CHR '']'' \<in> set s \<Longrightarrow> CHR '']'' \<in> set s'"
    by (auto split: if_splits)
qed

lemma read_ipv4_rest:
  assumes "read_ipv4 s = Some (x, s')"
  shows "colons s = colons s'" "CHR '']'' \<in> set s \<Longrightarrow> CHR '']'' \<in> set s'"
proof -
  from assms obtain a b c d s1 s2 s3 where
      1: "read_separator (CHR ''.'') True read_octet s = Some (a, s1)"
    and 2: "read_separator (CHR ''.'') False read_octet s1 = Some (b, s2)"
    and 3: "read_separator (CHR ''.'') False read_octet s2 = Some (c, s3)"
    and 4: "read_separator (CHR ''.'') False read_octet s3 = Some (d, s')"
    by (auto simp: read_ipv4_def bind_eq_Some_conv)
  note r = read_separator_rest [where r = 10 and m = 3 and z = False and b = 256, folded read_octet_def]
  from r(1) [OF 1] r(1) [OF 2] r(1) [OF 3] r(1) [OF 4] show "colons s = colons s'" by simp
  from r(2) [OF 1] r(2) [OF 2] r(2) [OF 3] r(2) [OF 4] show "CHR '']'' \<in> set s \<Longrightarrow> CHR '']'' \<in> set s'" by simp
qed

lemma read_groups_rest:
  "read_groups n first s = (gs, v4, s') \<Longrightarrow>
     length gs + colons s' \<le> colons s + of_bool v4 + of_bool (first \<and> gs \<noteq> []) \<and>
     (CHR '']'' \<in> set s \<longrightarrow> CHR '']'' \<in> set s')"
proof (induction n first s arbitrary: gs v4 s' rule: read_groups.induct)
  case (1 first s)
  then show ?case by simp
next
  case (2 n first s)
  let ?v4 = "if 0 < n then read_separator (CHR '':'') first read_ipv4 s else None"
  show ?case
  proof (cases ?v4)
    case (Some x)
    obtain a b c d s1 where x: "x = ((a, b, c, d), s1)" by (metis prod.exhaust)
    obtain s2 where s: "s = (if first then s2 else CHR '':'' # s2)" and r: "read_ipv4 s2 = Some ((a, b, c, d), s1)"
      using Some x by (cases first)
        (auto simp: read_separator_def bind_eq_Some_conv read_given_char_Some split: if_splits)
    have "gs = [a * 256 + b, c * 256 + d]" "v4" "s' = s1" using 2(2) Some x by simp_all
    with read_ipv4_rest [OF r] s show ?thesis by auto
  next
    case None
    show ?thesis
    proof (cases "read_separator (CHR '':'') first (read_number 16 4 True 65536) s")
      case n2: None
      with 2(2) None show ?thesis by simp
    next
      case g: (Some x)
      obtain g s1 where x: "x = (g, s1)" by fastforce
      obtain gs1 v1 s2 where r: "read_groups n False s1 = (gs1, v1, s2)" by (metis prod_cases3)
      have e: "gs = g # gs1" "v4 = v1" "s' = s2" using 2(2) None g x r by simp_all
      from g x have "read_separator (CHR '':'') first (read_number 16 4 True 65536) s = Some (g, s1)" by simp
      from read_separator_rest [OF this] 2(1) [OF None g x [symmetric] r] e show ?thesis by auto
    qed
  qed
qed

lemma parse_ipv6_text:
  assumes "parse_ipv6 s = Some o16"
  shows "2 \<le> colons s" "CHR '']'' \<notin> set s"
proof -
  obtain x where x: "read_ipv6 s = Some (x, [])"
    using assms by (auto simp: parse_ipv6_def parse_with_def split: option.splits list.splits prod.splits)
  obtain head v4 s1 where h: "read_groups 8 True s = (head, v4, s1)" by (metis prod_cases3)
  note rh = read_groups_rest [OF h]
  have "2 \<le> colons s \<and> CHR '']'' \<notin> set s"
  proof (cases "length head = 8")
    case True
    with x h have "s1 = []" by (simp add: read_ipv6_def del: read_groups.simps)
    with rh True show ?thesis by (cases v4; cases head) auto
  next
    case False
    with x h have nv: "\<not> v4" by (auto simp: read_ipv6_def simp del: read_groups.simps split: if_splits)
    with x h False obtain s3 where s1: "s1 = CHR '':'' # CHR '':'' # s3"
      by (auto simp: read_ipv6_def bind_eq_Some_conv read_given_char_Some simp del: read_groups.simps)
    obtain tail w s4 where t: "read_groups (8 - (length head + 1)) True s3 = (tail, w, s4)" by (metis prod_cases3)
    have s4: "s4 = []"
      using x h False nv t by (simp add: read_ipv6_def s1 read_given_char_def del: read_groups.simps)
    from read_groups_rest [OF t] s4 have "CHR '']'' \<notin> set s3" by auto
    moreover have "2 \<le> colons s" using rh nv s1 by (cases head) auto
    ultimately show ?thesis using rh s1 by auto
  qed
  then show "2 \<le> colons s" "CHR '']'' \<notin> set s" by simp_all
qed

end
