(* ===== verification/Crates.thy ===== *)
theory Crates
  imports Prelude
begin

section \<open>Third-party code as a parameter\<close>

text \<open>
  The crates \<open>sha2\<close>, \<open>sha3\<close> and \<open>data-encoding\<close> are not part of the repository: what the
  program calls of them is the record \<open>crates\<close>, an argument of every definition that uses it.
  \<open>crates_ok\<close> is the documented behaviour the program relies on: both digests are 32 bytes, and
  \<open>BASE32_NOPAD\<close> is RFC 4648 base32 without padding (one symbol of A-Z, 2-7 for five bits,
  rounded up, and a decoder that inverts the encoder). \<open>rfc4648_crates\<close> is an executable
  instance, with a real base32, that shows the laws can hold.
\<close>

record crates =
  sha256 :: "bytes \<Rightarrow> bytes"
  sha3_256 :: "bytes \<Rightarrow> bytes"
  b32_encode :: "bytes \<Rightarrow> string"
  b32_decode :: "string \<Rightarrow> bytes option"

definition b32_symbol :: "char \<Rightarrow> bool" where
  "b32_symbol c \<longleftrightarrow>
     (let n = (of_char c :: nat) in (65 \<le> n \<and> n \<le> 90) \<or> (50 \<le> n \<and> n \<le> 55))"

definition crates_ok :: "crates \<Rightarrow> bool" where
  "crates_ok cr \<longleftrightarrow>
     (\<forall>m. length (sha256 cr m) = 32) \<and>
     (\<forall>m. length (sha3_256 cr m) = 32) \<and>
     (\<forall>bs. list_all b32_symbol (b32_encode cr bs)) \<and>
     (\<forall>bs. length (b32_encode cr bs) = (8 * length bs + 4) div 5) \<and>
     (\<forall>bs. b32_decode cr (b32_encode cr bs) = Some bs)"

lemma crates_okD:
  assumes "crates_ok cr"
  shows "length (sha256 cr m) = 32" "length (sha3_256 cr m) = 32"
    "list_all b32_symbol (b32_encode cr bs)"
    "length (b32_encode cr bs) = (8 * length bs + 4) div 5"
    "b32_decode cr (b32_encode cr bs) = Some bs"
  using assms by (simp_all add: crates_ok_def)

subsection \<open>An RFC 4648 instance\<close>

text \<open>
  The bytes are read as one big endian number, shifted left to a multiple of five bits, and
  written in base 32; decoding checks the length and the zero padding bits.
\<close>

fun digits :: "nat \<Rightarrow> nat \<Rightarrow> nat \<Rightarrow> nat list" where
  "digits r 0 v = []"
| "digits r (Suc n) v = digits r n (v div r) @ [v mod r]"

definition undigits :: "nat \<Rightarrow> nat list \<Rightarrow> nat" where
  "undigits r ds = foldl (\<lambda>acc d. acc * r + d) 0 ds"

lemma length_digits [simp]: "length (digits r n v) = n"
  by (induction n arbitrary: v) auto

lemma undigits_snoc [simp]: "undigits r (ds @ [d]) = undigits r ds * r + d"
  by (simp add: undigits_def)

lemma undigits_digits: "undigits r (digits r n v) = v mod r ^ n"
proof (induction n arbitrary: v)
  case 0
  then show ?case by (simp add: undigits_def)
next
  case (Suc n)
  have "v mod r ^ Suc n = v div r mod r ^ n * r + v mod r"
    by (simp add: mod_mult2_eq algebra_simps)
  with Suc.IH show ?case by simp
qed

lemma digits_undigits: "\<forall>d\<in>set ds. d < r \<Longrightarrow> digits r (length ds) (undigits r ds) = ds"
  by (induction ds rule: rev_induct) auto

lemma undigits_bound: "\<forall>d\<in>set ds. d < r \<Longrightarrow> undigits r ds < r ^ length ds"
proof (induction ds rule: rev_induct)
  case Nil
  then show ?case by (simp add: undigits_def)
next
  case (snoc d ds)
  then have "Suc (undigits r ds) * r \<le> r ^ length ds * r" by (intro mult_le_mono1) simp
  with snoc.prems show ?case by (simp add: mult.commute)
qed

lemma digits_less: "0 < r \<Longrightarrow> d \<in> set (digits r n v) \<Longrightarrow> d < r"
  by (induction n arbitrary: v) auto

definition b32_char :: "nat \<Rightarrow> char" where
  "b32_char d = (if d < 26 then char_of (65 + d) else char_of (24 + d))"

definition b32_value :: "char \<Rightarrow> nat option" where
  "b32_value c =
     (let n = (of_char c :: nat)
      in if 65 \<le> n \<and> n \<le> 90 then Some (n - 65)
         else if 50 \<le> n \<and> n \<le> 55 then Some (n - 24) else None)"

lemma b32_value_char: "d < 32 \<Longrightarrow> b32_value (b32_char d) = Some d"
  by (auto simp: b32_value_def b32_char_def Let_def of_char_of)

lemma b32_symbol_char: "d < 32 \<Longrightarrow> b32_symbol (b32_char d)"
  by (auto simp: b32_symbol_def b32_char_def Let_def of_char_of)

definition pad_bits :: "nat \<Rightarrow> nat" where
  "pad_bits n = 5 * ((8 * n + 4) div 5) - 8 * n"

fun opt_all :: "'a option list \<Rightarrow> 'a list option" where
  "opt_all [] = Some []"
| "opt_all (x # xs) = Option.bind x (\<lambda>a. map_option (Cons a) (opt_all xs))"

lemma opt_all_map_Some: "\<forall>x\<in>set xs. f x = Some (g x) \<Longrightarrow> opt_all (map f xs) = Some (map g xs)"
  by (induction xs) auto

definition rfc4648_encode :: "bytes \<Rightarrow> string" where
  "rfc4648_encode bs =
     map b32_char
       (digits 32 ((8 * length bs + 4) div 5) (undigits 256 (map unat bs) * 2 ^ pad_bits (length bs)))"

definition rfc4648_decode :: "string \<Rightarrow> bytes option" where
  "rfc4648_decode s =
     (let n = 5 * length s div 8
      in if (8 * n + 4) div 5 \<noteq> length s then None
         else Option.bind (opt_all (map b32_value s)) (\<lambda>ds.
           let v = undigits 32 ds
           in if v mod 2 ^ pad_bits n \<noteq> 0 then None
              else Some (map word_of_nat (digits 256 n (v div 2 ^ pad_bits n)))))"

lemma rfc4648_roundtrip: "rfc4648_decode (rfc4648_encode bs) = Some bs"
proof -
  let ?n = "length bs" and ?m = "(8 * length bs + 4) div 5"
  let ?v = "undigits 256 (map unat bs)"
  let ?ds = "digits 32 ?m (?v * 2 ^ pad_bits ?n)"
  have n: "5 * ?m div 8 = ?n" by presburger
  have bits: "8 * ?n + pad_bits ?n = 5 * ?m" unfolding pad_bits_def by presburger
  have "?v < 256 ^ ?n" using undigits_bound [of "map unat bs" 256] by auto
  then have "?v * 2 ^ pad_bits ?n < 256 ^ ?n * 2 ^ pad_bits ?n" by simp
  also have "256 ^ ?n * 2 ^ pad_bits ?n = (2 :: nat) ^ (8 * ?n + pad_bits ?n)"
    by (simp add: pow256 power_add)
  also have "\<dots> = 32 ^ ?m" by (simp only: bits power_mult) simp
  finally have v: "undigits 32 ?ds = ?v * 2 ^ pad_bits ?n" by (simp add: undigits_digits)
  have "opt_all (map b32_value (map b32_char ?ds)) = Some ?ds"
    using opt_all_map_Some [of ?ds "\<lambda>d. b32_value (b32_char d)" id] digits_less [of 32]
    by (simp add: b32_value_char comp_def)
  moreover have "map word_of_nat (digits 256 ?n ?v) = bs"
    using digits_undigits [of "map unat bs" 256] by (auto simp: comp_def)
  ultimately show ?thesis
    by (simp add: rfc4648_decode_def rfc4648_encode_def n v)
qed

definition rfc4648_crates :: crates where
  "rfc4648_crates =
     \<lparr>sha256 = (\<lambda>m. replicate 32 (word_of_nat (length m))),
      sha3_256 = (\<lambda>m. replicate 32 (word_of_nat (length m))),
      b32_encode = rfc4648_encode, b32_decode = rfc4648_decode\<rparr>"

lemma rfc4648_crates_ok: "crates_ok rfc4648_crates"
proof -
  have "list_all b32_symbol (rfc4648_encode bs)"
    "length (rfc4648_encode bs) = (8 * length bs + 4) div 5" for bs
    using digits_less [of 32] by (auto simp: rfc4648_encode_def list_all_iff b32_symbol_char)
  then show ?thesis by (simp add: crates_ok_def rfc4648_crates_def rfc4648_roundtrip)
qed

end
