(* ===== verification/Wire.thy ===== *)
theory Wire
  imports Prelude
begin

section \<open>The wire cursor and CompactSize (src/protocol.rs)\<close>

text \<open>
  \<open>Cursor\<close> reads a byte slice defensively: a short read yields \<open>None\<close>. A method that takes
  \<open>&mut self\<close> returns the new cursor with its value; on \<open>None\<close> every caller returns at once,
  so no cursor is needed there. The interface the parsers build on is the locale
  \<open>wire_reader\<close>: a reader accepts exactly the encodings of the valid values and consumes
  exactly one encoding. Every primitive of the cursor is an instance of it.
\<close>

record cursor =
  cbuf :: bytes
  cpos :: nat

definition cursor_new :: "bytes \<Rightarrow> cursor" where
  "cursor_new b = \<lparr>cbuf = b, cpos = 0\<rparr>"

type_synonym 'a wire = "cursor \<Rightarrow> ('a \<times> cursor) option"

definition cursor_take :: "nat \<Rightarrow> bytes wire" where
  "cursor_take n c =
     (let e = cpos c + n
      in if usize_bound \<le> e then None
         else if e > length (cbuf c) then None
         else Some (take n (drop (cpos c) (cbuf c)), c\<lparr>cpos := e\<rparr>))"

definition remaining :: "cursor \<Rightarrow> nat" where
  "remaining c = length (cbuf c) - cpos c"

definition read_u8 :: "u8 wire" where
  "read_u8 c = do { (b, c) \<leftarrow> cursor_take 1 c; Some (b ! 0, c) }"

definition read_u16_le :: "u16 wire" where
  "read_u16_le c = do { (b, c) \<leftarrow> cursor_take 2 c; Some (from_le_bytes b, c) }"

definition read_u16_be :: "u16 wire" where
  "read_u16_be c = do { (b, c) \<leftarrow> cursor_take 2 c; Some (from_be_bytes b, c) }"

definition read_u32_le :: "u32 wire" where
  "read_u32_le c = do { (b, c) \<leftarrow> cursor_take 4 c; Some (from_le_bytes b, c) }"

definition read_i32_le :: "int wire" where
  "read_i32_le c = do { (w, c) \<leftarrow> read_u32_le c; Some (sint w, c) }"

definition read_u64_le :: "u64 wire" where
  "read_u64_le c = do { (b, c) \<leftarrow> cursor_take 8 c; Some (from_le_bytes b, c) }"

definition read_i64_le :: "int wire" where
  "read_i64_le c = do { (w, c) \<leftarrow> read_u64_le c; Some (sint w, c) }"

subsection \<open>CompactSize\<close>

definition write_compact_size :: "u64 \<Rightarrow> bytes" where
  "write_compact_size v =
     (if v \<le> 0xFC then [ucast v]
      else if v \<le> 0xFFFF then 0xFD # to_le_bytes (ucast v :: u16)
      else if v \<le> 0xFFFFFFFF then 0xFE # to_le_bytes (ucast v :: u32)
      else 0xFF # to_le_bytes v)"

definition compact_size :: "u64 wire" where
  "compact_size c = do {
     (n, c) \<leftarrow> read_u8 c;
     if n = 0xFF then read_u64_le c
     else if n = 0xFE then do { (v, c) \<leftarrow> read_u32_le c; Some (ucast v, c) }
     else if n = 0xFD then do { (v, c) \<leftarrow> read_u16_le c; Some (ucast v, c) }
     else Some (ucast n, c) }"

definition compact_size_canonical :: "u64 wire" where
  "compact_size_canonical c = do {
     (prefix, c) \<leftarrow> read_u8 c;
     (value, c) \<leftarrow>
       (if prefix = 0xFF then read_u64_le c
        else if prefix = 0xFE then do { (v, c) \<leftarrow> read_u32_le c; Some (ucast v, c) }
        else if prefix = 0xFD then do { (v, c) \<leftarrow> read_u16_le c; Some (ucast v, c) }
        else Some (ucast prefix, c));
     if prefix = 0xFF \<and> value \<le> 0xffffffff then None
     else if prefix = 0xFE \<and> value \<le> 0xffff then None
     else if prefix = 0xFD \<and> value < 0xfd then None
     else Some (value, c) }"

subsection \<open>The unread suffix\<close>

definition rest :: "cursor \<Rightarrow> bytes" where
  "rest c = drop (cpos c) (cbuf c)"

definition advance :: "cursor \<Rightarrow> nat \<Rightarrow> cursor" where
  "advance c n = c\<lparr>cpos := cpos c + n\<rparr>"

text \<open>A slice is shorter than \<open>usize::MAX\<close>, and the position stays within it.\<close>

definition cursor_ok :: "cursor \<Rightarrow> bool" where
  "cursor_ok c \<longleftrightarrow> cpos c \<le> length (cbuf c) \<and> length (cbuf c) < usize_bound"

lemma rest_new [simp]: "rest (cursor_new b) = b"
  by (simp add: rest_def cursor_new_def)

lemma cursor_ok_new [simp]: "cursor_ok (cursor_new b) \<longleftrightarrow> length b < usize_bound"
  by (simp add: cursor_ok_def cursor_new_def)

lemma rest_advance [simp]: "rest (advance c n) = drop n (rest c)"
  by (simp add: rest_def advance_def add.commute)

lemma advance_advance: "advance (advance c m) n = advance c (m + n)"
  by (simp add: advance_def)

lemma advance_prefix [simp]:
  "advance (advance c (Suc 0)) 2 = advance c 3" "advance (advance c (Suc 0)) 4 = advance c 5"
  "advance (advance c (Suc 0)) 8 = advance c 9"
  by (simp_all add: advance_def)

lemma advance_0 [simp]: "advance c 0 = c"
  by (simp add: advance_def)

lemma cursor_ok_advance: "cursor_ok c \<Longrightarrow> rest c = bs @ r \<Longrightarrow> cursor_ok (advance c (length bs))"
proof -
  assume ok: "cursor_ok c" and r: "rest c = bs @ r"
  have "length bs + length r = length (cbuf c) - cpos c"
    using arg_cong [OF r, of length] by (simp add: rest_def)
  with ok show ?thesis by (auto simp: cursor_ok_def advance_def)
qed

lemma remaining_rest: "remaining c = length (rest c)"
  by (simp add: remaining_def rest_def)

lemma cursor_take_iff:
  assumes "cursor_ok c"
  shows "cursor_take n c = Some (bs, c') \<longleftrightarrow>
           length bs = n \<and> (\<exists>r. rest c = bs @ r) \<and> c' = advance c n"
proof
  assume t: "cursor_take n c = Some (bs, c')"
  then have "cpos c + n \<le> length (cbuf c)" "bs = take n (rest c)" "c' = advance c n"
    by (auto simp: cursor_take_def rest_def advance_def Let_def split: if_splits)
  then show "length bs = n \<and> (\<exists>r. rest c = bs @ r) \<and> c' = advance c n"
    by (auto simp: rest_def) (metis append_take_drop_id)
next
  assume a: "length bs = n \<and> (\<exists>r. rest c = bs @ r) \<and> c' = advance c n"
  then obtain r where r: "drop (cpos c) (cbuf c) = bs @ r" by (auto simp: rest_def)
  then have "length (cbuf c) - cpos c = n + length r"
    using a by (metis length_append length_drop)
  with a r assms show "cursor_take n c = Some (bs, c')"
    by (auto simp: cursor_take_def advance_def cursor_ok_def Let_def)
qed

subsection \<open>The reader interface\<close>

text \<open>
  \<open>wire_decoder\<close>: reading the encoding of a valid value gives the value and leaves what
  follows it. \<open>wire_reader\<close> adds the converse: nothing but an encoding is accepted.
\<close>

locale wire_decoder =
  fixes enc :: "'a \<Rightarrow> bytes"
    and valid :: "'a \<Rightarrow> bool"
    and rd :: "'a wire"
  assumes rd_enc: "cursor_ok c \<Longrightarrow> valid v \<Longrightarrow> rest c = enc v @ r \<Longrightarrow>
      rd c = Some (v, advance c (length (enc v)))"
begin

lemma rd_step:
  assumes "cursor_ok c" "valid v" "rest c = enc v @ r"
  obtains c' where "rd c = Some (v, c')" "rest c' = r" "cursor_ok c'"
  using rd_enc [OF assms] cursor_ok_advance [OF assms(1,3)] assms(3) by (simp add: that)

lemma enc_prefix_free:
  assumes "valid v" "valid w" "enc v @ r = enc w @ s" "length (enc v @ r) < usize_bound"
  shows "v = w \<and> r = s"
proof -
  let ?c = "cursor_new (enc v @ r)"
  have "rd ?c = Some (v, advance ?c (length (enc v)))"
    using assms by (intro rd_enc [where r = r]) simp_all
  moreover have "rd ?c = Some (w, advance ?c (length (enc w)))"
    using assms by (intro rd_enc [where r = s]) simp_all
  ultimately show ?thesis using assms(3) by auto
qed

end

locale wire_reader = wire_decoder enc valid rd
  for enc :: "'a \<Rightarrow> bytes" and valid :: "'a \<Rightarrow> bool" and rd :: "'a wire" +
  assumes rd_inv: "cursor_ok c \<Longrightarrow> rd c = Some (v, c') \<Longrightarrow>
      valid v \<and> (\<exists>r. rest c = enc v @ r) \<and> c' = advance c (length (enc v))"
begin

lemma reads_iff:
  "cursor_ok c \<Longrightarrow> rd c = Some (v, c') \<longleftrightarrow>
     valid v \<and> (\<exists>r. rest c = enc v @ r) \<and> c' = advance c (length (enc v))"
  using rd_enc rd_inv by blast

lemma cursor_ok_rd: "cursor_ok c \<Longrightarrow> rd c = Some (v, c') \<Longrightarrow> cursor_ok c'"
  using rd_inv cursor_ok_advance by blast

lemma rest_rd: "cursor_ok c \<Longrightarrow> rd c = Some (v, c') \<Longrightarrow> rest c = enc v @ rest c'"
  using rd_inv by fastforce

end

text \<open>Two readers in sequence are a reader of pairs.\<close>

definition rd_pair :: "'a wire \<Rightarrow> 'b wire \<Rightarrow> ('a \<times> 'b) wire" where
  "rd_pair ra rb c = do { (a, c) \<leftarrow> ra c; (b, c) \<leftarrow> rb c; Some ((a, b), c) }"

definition enc_pair :: "('a \<Rightarrow> bytes) \<Rightarrow> ('b \<Rightarrow> bytes) \<Rightarrow> 'a \<times> 'b \<Rightarrow> bytes" where
  "enc_pair ea eb = (\<lambda>(a, b). ea a @ eb b)"

definition valid_pair :: "('a \<Rightarrow> bool) \<Rightarrow> ('b \<Rightarrow> bool) \<Rightarrow> 'a \<times> 'b \<Rightarrow> bool" where
  "valid_pair va vb = (\<lambda>(a, b). va a \<and> vb b)"

locale wire_pair = A: wire_reader ea va ra + B: wire_reader eb vb rb
  for ea :: "'a \<Rightarrow> bytes" and va and ra and eb :: "'b \<Rightarrow> bytes" and vb and rb

sublocale wire_pair \<subseteq> P: wire_reader "enc_pair ea eb" "valid_pair va vb" "rd_pair ra rb"
proof
  fix c :: cursor and v :: "'a \<times> 'b" and r
  obtain a b where v: "v = (a, b)" by fastforce
  assume ok: "cursor_ok c" and "valid_pair va vb v" and "rest c = enc_pair ea eb v @ r"
  with v have va: "va a" "vb b" and r: "rest c = ea a @ eb b @ r"
    by (auto simp: valid_pair_def enc_pair_def)
  note a = A.rd_enc [OF ok va(1) r]
  have "rb (advance c (length (ea a))) =
      Some (b, advance (advance c (length (ea a))) (length (eb b)))"
    using B.rd_enc [OF cursor_ok_advance [OF ok r] va(2)] r by simp
  with a v show "rd_pair ra rb c = Some (v, advance c (length (enc_pair ea eb v)))"
    by (simp add: rd_pair_def enc_pair_def advance_advance)
next
  fix c :: cursor and v :: "'a \<times> 'b" and c'
  obtain a b where v: "v = (a, b)" by fastforce
  assume ok: "cursor_ok c" and "rd_pair ra rb c = Some (v, c')"
  with v obtain c1 where 1: "ra c = Some (a, c1)" and 2: "rb c1 = Some (b, c')"
    by (auto simp: rd_pair_def Option.bind_eq_Some_conv)
  note ia = A.rd_inv [OF ok 1]
  note ib = B.rd_inv [OF A.cursor_ok_rd [OF ok 1] 2]
  have "rest c = ea a @ eb b @ rest c'"
    using A.rest_rd [OF ok 1] B.rest_rd [OF A.cursor_ok_rd [OF ok 1] 2] by simp
  with ia ib v show "valid_pair va vb v \<and> (\<exists>r. rest c = enc_pair ea eb v @ r) \<and>
      c' = advance c (length (enc_pair ea eb v))"
    by (auto simp: valid_pair_def enc_pair_def advance_advance)
qed

lemma and_then_pair:
  "and_then (ok_or e (ra c)) (\<lambda>(a, c). and_then (ok_or e (rb c)) (\<lambda>(b, c). f a b c)) =
   and_then (ok_or e (rd_pair ra rb c)) (\<lambda>((a, b), c). f a b c)"
proof (cases "ra c")
  case None
  then show ?thesis by (simp add: rd_pair_def)
next
  case (Some p)
  then obtain a c1 where "ra c = Some (a, c1)" by (cases p) auto
  then show ?thesis by (cases "rb c1") (auto simp: rd_pair_def)
qed

subsection \<open>The cursor's primitives are readers\<close>

lemma wire_reader_take: "wire_reader id (\<lambda>bs. length bs = n) (cursor_take n)"
  by unfold_locales (auto simp: cursor_take_iff)

text \<open>A fixed-width field whose codec is a bijection between its values and the byte strings.\<close>

lemma wire_reader_fixed:
  assumes "\<And>v. valid v \<Longrightarrow> length (enc v) = n" "\<And>v. valid v \<Longrightarrow> dec (enc v) = v"
    and "\<And>bs. length bs = n \<Longrightarrow> valid (dec bs) \<and> enc (dec bs) = bs"
    and "\<And>c. rd c = Option.bind (cursor_take n c) (\<lambda>(b, c). Some (dec b, c))"
  shows "wire_reader enc valid rd"
proof
  fix c v r
  assume "cursor_ok c" "valid v" "rest c = enc v @ r"
  then have "cursor_take n c = Some (enc v, advance c n)"
    using assms(1) by (simp add: cursor_take_iff)
  with assms \<open>valid v\<close> show "rd c = Some (v, advance c (length (enc v)))" by simp
next
  fix c v c'
  assume "cursor_ok c" "rd c = Some (v, c')"
  then show "valid v \<and> (\<exists>r. rest c = enc v @ r) \<and> c' = advance c (length (enc v))"
    using assms by (auto simp: bind_eq_Some_conv cursor_take_iff)
qed

lemma sint_word_bounds32: "is_i32 (sint (w :: u32))"
  using sint_greater_eq [of w] sint_less [of w] by (simp add: is_i32_def)

lemma sint_word_bounds64: "is_i64 (sint (w :: u64))"
  using sint_greater_eq [of w] sint_less [of w] by (simp add: is_i64_def)

interpretation w_bytes: wire_reader id "\<lambda>bs. length bs = n" "cursor_take n" for n
  by (rule wire_reader_take)

interpretation w_u8: wire_reader "\<lambda>b. [b]" "\<lambda>_. True" read_u8
  by (rule wire_reader_fixed [where n = 1 and dec = "\<lambda>b. b ! 0"])
    (auto simp: read_u8_def length_Suc_conv)

interpretation w_u16_le: wire_reader "to_le_bytes :: u16 \<Rightarrow> bytes" "\<lambda>_. True" read_u16_le
  by (rule wire_reader_fixed [where n = 2 and dec = from_le_bytes])
    (simp_all add: read_u16_le_def codec_simps)

interpretation w_u16_be: wire_reader "to_be_bytes :: u16 \<Rightarrow> bytes" "\<lambda>_. True" read_u16_be
  by (rule wire_reader_fixed [where n = 2 and dec = from_be_bytes])
    (simp_all add: read_u16_be_def codec_simps)

interpretation w_u32_le: wire_reader "to_le_bytes :: u32 \<Rightarrow> bytes" "\<lambda>_. True" read_u32_le
  by (rule wire_reader_fixed [where n = 4 and dec = from_le_bytes])
    (simp_all add: read_u32_le_def codec_simps)

interpretation w_u64_le: wire_reader "to_le_bytes :: u64 \<Rightarrow> bytes" "\<lambda>_. True" read_u64_le
  by (rule wire_reader_fixed [where n = 8 and dec = from_le_bytes])
    (simp_all add: read_u64_le_def codec_simps)

definition i32_bytes :: "int \<Rightarrow> bytes" where
  "i32_bytes i = to_le_bytes (word_of_int i :: u32)"

definition i64_bytes :: "int \<Rightarrow> bytes" where
  "i64_bytes i = to_le_bytes (word_of_int i :: u64)"

interpretation w_i32_le: wire_reader i32_bytes is_i32 read_i32_le
  by (rule wire_reader_fixed [where n = 4 and dec = "\<lambda>b. sint (from_le_bytes b :: u32)"])
    (simp_all add: read_i32_le_def read_u32_le_def i32_bytes_def codec_simps
      sint_word_of_int_i32 sint_word_bounds32 split_def)

interpretation w_i64_le: wire_reader i64_bytes is_i64 read_i64_le
  by (rule wire_reader_fixed [where n = 8 and dec = "\<lambda>b. sint (from_le_bytes b :: u64)"])
    (simp_all add: read_i64_le_def read_u64_le_def i64_bytes_def codec_simps
      sint_word_of_int_i64 sint_word_bounds64 split_def)

subsection \<open>CompactSize is minimal and unambiguous\<close>

lemma ucast_down_up:
  fixes v :: "'a::len word"
  assumes "unat v < 2 ^ LENGTH('b::len)"
  shows "ucast (ucast v :: 'b word) = v"
  using assms by (simp add: word_unat_eq_iff unsigned_ucast_eq unsigned_take_bit_eq take_bit_nat_eq_self)

lemma ucast_up_down:
  fixes w :: "'b::len word"
  assumes "LENGTH('b) \<le> LENGTH('a::len)"
  shows "ucast (ucast w :: 'a word) = w" and "unat (ucast w :: 'a word) = unat w"
proof -
  have "unat w < 2 ^ LENGTH('a)"
    using unsigned_less [of w, where ?'a = nat] assms
    by (meson less_le_trans one_le_numeral power_increasing)
  then show "unat (ucast w :: 'a word) = unat w"
    by (simp add: unsigned_ucast_eq unsigned_take_bit_eq take_bit_nat_eq_self)
  then show "ucast (ucast w :: 'a word) = w"
    by (simp add: word_unat_eq_iff unsigned_ucast_eq unsigned_take_bit_eq)
qed

lemma compact_cases:
  fixes v :: u64
  obtains (byte) "unat v \<le> 252" "write_compact_size v = [ucast v]"
  | (word16) "252 < unat v" "unat v \<le> 65535" "write_compact_size v = 0xFD # to_le_bytes (ucast v :: u16)"
  | (word32) "65535 < unat v" "unat v \<le> 4294967295" "write_compact_size v = 0xFE # to_le_bytes (ucast v :: u32)"
  | (word64) "4294967295 < unat v" "write_compact_size v = 0xFF # to_le_bytes v"
proof (cases "unat v \<le> 252")
  case True
  then show ?thesis using byte by (simp add: write_compact_size_def word_le_nat_alt)
next
  case 1: False
  show ?thesis
  proof (cases "unat v \<le> 65535")
    case True
    with 1 show ?thesis using word16 by (simp add: write_compact_size_def word_le_nat_alt)
  next
    case 2: False
    with 1 show ?thesis using word32 word64
      by (cases "unat v \<le> 4294967295") (simp_all add: write_compact_size_def word_le_nat_alt)
  qed
qed

lemma length_write_compact_size: "length (write_compact_size v) \<in> {1, 3, 5, 9}"
  by (rule compact_cases [of v]) simp_all

lemma read_u8_Cons:
  "cursor_ok c \<Longrightarrow> rest c = b # r \<Longrightarrow> read_u8 c = Some (b, advance c 1) \<and> cursor_ok (advance c 1)"
  using w_u8.rd_enc [of c b r] cursor_ok_advance [of c "[b]" r] by simp

lemma ucast_u8_small: "unat (v :: u64) \<le> 252 \<Longrightarrow> unat (ucast v :: u8) = unat v"
  by (simp add: unsigned_ucast_eq unsigned_take_bit_eq take_bit_nat_eq_self)

interpretation w_compact: wire_decoder write_compact_size "\<lambda>_. True" compact_size
proof
  fix c v r
  assume ok: "cursor_ok c" and r: "rest c = write_compact_size v @ r"
  show "compact_size c = Some (v, advance c (length (write_compact_size v)))"
  proof (cases v rule: compact_cases)
    case byte
    then have "unat (ucast v :: u8) \<noteq> unat (0xFF :: u8)" "unat (ucast v :: u8) \<noteq> unat (0xFE :: u8)"
      "unat (ucast v :: u8) \<noteq> unat (0xFD :: u8)" "ucast (ucast v :: u8) = v"
      by (simp_all add: ucast_u8_small ucast_down_up)
    then have "ucast v \<noteq> (0xFF :: u8)" "ucast v \<noteq> (0xFE :: u8)" "ucast v \<noteq> (0xFD :: u8)"
      "ucast (ucast v :: u8) = v" by metis+
    with byte r read_u8_Cons [OF ok, of "ucast v" r] show ?thesis
      by (simp add: compact_size_def)
  next
    case word16
    let ?r = "to_le_bytes (ucast v :: u16) @ r"
    have 1: "read_u8 c = Some (0xFD, advance c 1)" "cursor_ok (advance c 1)"
      using read_u8_Cons [OF ok, of "0xFD" ?r] r word16 by simp_all
    have "read_u16_le (advance c 1) = Some (ucast v, advance (advance c 1) 2)"
      using w_u16_le.rd_enc [OF 1(2), of "ucast v" r] r word16 by simp
    with 1 word16 show ?thesis by (simp add: compact_size_def ucast_down_up)
  next
    case word32
    let ?r = "to_le_bytes (ucast v :: u32) @ r"
    have 1: "read_u8 c = Some (0xFE, advance c 1)" "cursor_ok (advance c 1)"
      using read_u8_Cons [OF ok, of "0xFE" ?r] r word32 by simp_all
    have "read_u32_le (advance c 1) = Some (ucast v, advance (advance c 1) 4)"
      using w_u32_le.rd_enc [OF 1(2), of "ucast v" r] r word32 by simp
    with 1 word32 show ?thesis by (simp add: compact_size_def ucast_down_up)
  next
    case word64
    let ?r = "to_le_bytes v @ r"
    have 1: "read_u8 c = Some (0xFF, advance c 1)" "cursor_ok (advance c 1)"
      using read_u8_Cons [OF ok, of "0xFF" ?r] r word64 by simp_all
    have "read_u64_le (advance c 1) = Some (v, advance (advance c 1) 8)"
      using w_u64_le.rd_enc [OF 1(2), of v r] r word64 by simp
    with 1 word64 show ?thesis by (simp add: compact_size_def)
  qed
qed

text \<open>The canonical reader is the plain one restricted to minimal encodings.\<close>

definition minimal_for :: "u8 \<Rightarrow> u64 \<Rightarrow> bool" where
  "minimal_for prefix v \<longleftrightarrow>
     \<not> (prefix = 0xFF \<and> v \<le> 0xffffffff) \<and> \<not> (prefix = 0xFE \<and> v \<le> 0xffff) \<and>
     \<not> (prefix = 0xFD \<and> v < 0xfd)"

lemma compact_size_canonical_eq:
  "compact_size_canonical c =
     do { (prefix, c1) \<leftarrow> read_u8 c;
          (v, c') \<leftarrow> compact_size c;
          if minimal_for prefix v then Some (v, c') else None }"
proof (cases "read_u8 c")
  case None
  then show ?thesis by (simp add: compact_size_canonical_def)
next
  case (Some p)
  then obtain n b where "read_u8 c = Some (n, b)" by (cases p) auto
  then show ?thesis
    by (cases "read_u64_le b"; cases "read_u32_le b"; cases "read_u16_le b")
      (auto simp: compact_size_canonical_def compact_size_def minimal_for_def)
qed

lemma compact_size_inv:
  assumes ok: "cursor_ok c" and cs: "compact_size c = Some (v, c')"
    and pre: "read_u8 c = Some (prefix, c1)" and min: "minimal_for prefix v"
  shows "rest c = write_compact_size v @ rest c' \<and> c' = advance c (length (write_compact_size v))"
proof -
  have r1: "rest c = prefix # rest c1" and c1: "c1 = advance c 1" and ok1: "cursor_ok c1"
    using w_u8.rest_rd [OF ok pre] w_u8.rd_inv [OF ok pre] w_u8.cursor_ok_rd [OF ok pre] by simp_all
  consider (64) "prefix = 0xFF" | (32) "prefix = 0xFE" | (16) "prefix = 0xFD"
    | (8) "prefix \<noteq> 0xFF" "prefix \<noteq> 0xFE" "prefix \<noteq> 0xFD" by blast
  then show ?thesis
  proof cases
    case 64
    with cs pre have rd: "read_u64_le c1 = Some (v, c')" by (simp add: compact_size_def)
    from 64 min have "write_compact_size v = 0xFF # to_le_bytes v"
      by (auto simp: minimal_for_def word_le_nat_alt write_compact_size_def)
    with 64 r1 c1 w_u64_le.rest_rd [OF ok1 rd] w_u64_le.rd_inv [OF ok1 rd] show ?thesis by simp
  next
    case 32
    with cs pre obtain w where rd: "read_u32_le c1 = Some (w, c')" and v: "v = ucast w"
      by (auto simp: compact_size_def bind_eq_Some_conv)
    have w: "ucast v = w" "unat v = unat w" unfolding v by (simp_all add: ucast_up_down)
    have "unat w < 4294967296" using unsigned_less [of w, where ?'a = nat] by simp
    with 32 min w have "write_compact_size v = 0xFE # to_le_bytes w"
      by (auto simp: minimal_for_def word_le_nat_alt write_compact_size_def)
    with 32 r1 c1 w_u32_le.rest_rd [OF ok1 rd] w_u32_le.rd_inv [OF ok1 rd] show ?thesis by simp
  next
    case 16
    with cs pre obtain w where rd: "read_u16_le c1 = Some (w, c')" and v: "v = ucast w"
      by (auto simp: compact_size_def bind_eq_Some_conv)
    have w: "ucast v = w" "unat v = unat w" unfolding v by (simp_all add: ucast_up_down)
    have "unat w < 65536" using unsigned_less [of w, where ?'a = nat] by simp
    with 16 min w have "write_compact_size v = 0xFD # to_le_bytes w"
      by (auto simp: minimal_for_def word_le_nat_alt word_less_nat_alt write_compact_size_def)
    with 16 r1 c1 w_u16_le.rest_rd [OF ok1 rd] w_u16_le.rd_inv [OF ok1 rd] show ?thesis by simp
  next
    case 8
    with cs pre have v: "v = ucast prefix" and c': "c' = c1" by (auto simp: compact_size_def)
    have w: "ucast v = prefix" "unat v = unat prefix" unfolding v by (simp_all add: ucast_up_down)
    from 8 have "unat prefix \<noteq> unat (0xFF :: u8)" "unat prefix \<noteq> unat (0xFE :: u8)"
      "unat prefix \<noteq> unat (0xFD :: u8)" unfolding word_unat_eq_iff by blast+
    then have "unat prefix \<le> 252" using unat_u8_less [of prefix] by (simp del: unat_u8_less)
    with w have "write_compact_size v = [prefix]"
      by (simp add: write_compact_size_def word_le_nat_alt)
    with r1 c1 c' show ?thesis by simp
  qed
qed

lemma write_compact_minimal:
  "write_compact_size v = b # bs \<Longrightarrow> minimal_for b v"
proof (cases v rule: compact_cases)
  case byte
  assume "write_compact_size v = b # bs"
  with byte have "unat b \<le> 252" by (simp add: ucast_u8_small)
  then show ?thesis by (auto simp: minimal_for_def)
qed (auto simp: minimal_for_def word_le_nat_alt word_less_nat_alt)

interpretation w_canonical: wire_reader write_compact_size "\<lambda>_. True" compact_size_canonical
proof
  fix c v r
  assume ok: "cursor_ok c" and r: "rest c = write_compact_size v @ r"
  obtain b bs where b: "write_compact_size v = b # bs"
    using length_write_compact_size [of v] by (cases "write_compact_size v") auto
  have "read_u8 c = Some (b, advance c 1)" using read_u8_Cons [OF ok, of b "bs @ r"] r b by simp
  moreover have "minimal_for b v" using b by (rule write_compact_minimal)
  ultimately show "compact_size_canonical c = Some (v, advance c (length (write_compact_size v)))"
    using w_compact.rd_enc [OF ok TrueI r] by (simp add: compact_size_canonical_eq)
next
  fix c v c'
  assume ok: "cursor_ok c" and "compact_size_canonical c = Some (v, c')"
  then obtain prefix c1 where "read_u8 c = Some (prefix, c1)" "compact_size c = Some (v, c')"
    "minimal_for prefix v"
    by (auto simp: compact_size_canonical_eq bind_eq_Some_conv split: if_splits)
  with compact_size_inv [OF ok] show
    "True \<and> (\<exists>r. rest c = write_compact_size v @ r) \<and> c' = advance c (length (write_compact_size v))"
    by blast
qed

section \<open>Properties of the cursor\<close>

text \<open>C28: The canonical CompactSize reader accepts exactly the bytes that the writer produces, for every
  64-bit value, and consumes exactly those: there is one accepted encoding per value.\<close>

theorem compact_size_exact:
  assumes "cursor_ok c"
  shows "compact_size_canonical c = Some (v, c') \<longleftrightarrow>
    (\<exists>r. rest c = write_compact_size v @ r) \<and> c' = advance c (length (write_compact_size v))"
  using w_canonical.reads_iff [OF assms, of v c'] by simp

lemma compact_size_exact_witness:
  "compact_size_canonical (cursor_new [0xFD, 0x2C, 0x01, 7]) =
     Some (300, \<lparr>cbuf = [0xFD, 0x2C, 0x01, 7], cpos = 3\<rparr>)"
proof -
  let ?c = "cursor_new [0xFD, 0x2C, 0x01, 7]"
  have ok: "cursor_ok ?c" by simp
  have w: "write_compact_size 300 = [0xFD, 0x2C, 0x01]" by code_simp
  show ?thesis
    unfolding compact_size_exact [OF ok] w by (simp add: advance_def cursor_new_def rest_def)
qed

text \<open>The plain reader and the canonical one agree on everything the canonical one accepts, and the
  canonical one refuses exactly the encodings with a longer prefix than the value needs.\<close>

lemma canonical_is_minimal:
  "compact_size_canonical c = Some (v, c') \<longleftrightarrow>
     compact_size c = Some (v, c') \<and> (\<exists>prefix c1. read_u8 c = Some (prefix, c1) \<and> minimal_for prefix v)"
  by (auto simp: compact_size_canonical_eq bind_eq_Some_conv split: if_splits)

end
