(* ===== verification/Address.thy ===== *)
theory Address
  imports Net_Text Crates
begin

section \<open>Address classification (src/address.rs)\<close>

text \<open>
  The network types and transports, the classification of a host string, and the rendering of
  an endpoint. Base32 and SHA3 are the \<open>crates\<close> parameter; IP literals are read by the standard
  library's parser of \<open>Net_Text\<close>.
\<close>

datatype network_type = Ipv4 | Ipv6 | Cjdns | OnionV2 | OnionV3 | I2p | Unknown

datatype transport = TransportIp | TransportTor | TransportI2p

lemma UNIV_transport: "(UNIV :: transport set) = {TransportIp, TransportTor, TransportI2p}"
proof (rule set_eqI)
  fix t :: transport
  show "t \<in> UNIV \<longleftrightarrow> t \<in> {TransportIp, TransportTor, TransportI2p}" by (cases t) simp_all
qed

fun network_as_str :: "network_type \<Rightarrow> string" where
  "network_as_str Ipv4 = ''ipv4''"
| "network_as_str Ipv6 = ''ipv6''"
| "network_as_str Cjdns = ''cjdns''"
| "network_as_str OnionV2 = ''onion_v2''"
| "network_as_str OnionV3 = ''onion_v3''"
| "network_as_str I2p = ''i2p''"
| "network_as_str Unknown = ''unknown''"

fun network_transport :: "network_type \<Rightarrow> transport" where
  "network_transport Ipv4 = TransportIp"
| "network_transport Ipv6 = TransportIp"
| "network_transport Cjdns = TransportIp"
| "network_transport OnionV2 = TransportTor"
| "network_transport OnionV3 = TransportTor"
| "network_transport I2p = TransportI2p"
| "network_transport Unknown = TransportIp"

instantiation network_type :: linorder
begin

fun network_rank :: "network_type \<Rightarrow> nat" where
  "network_rank Ipv4 = 0"
| "network_rank Ipv6 = 1"
| "network_rank Cjdns = 2"
| "network_rank OnionV2 = 3"
| "network_rank OnionV3 = 4"
| "network_rank I2p = 5"
| "network_rank Unknown = 6"

definition less_eq_network_type :: "network_type \<Rightarrow> network_type \<Rightarrow> bool" where
  "less_eq_network_type a b \<longleftrightarrow> network_rank a \<le> network_rank b"

definition less_network_type :: "network_type \<Rightarrow> network_type \<Rightarrow> bool" where
  "less_network_type a b \<longleftrightarrow> network_rank a < network_rank b"

instance
proof
  fix a b :: network_type
  show "a \<le> b \<Longrightarrow> b \<le> a \<Longrightarrow> a = b"
    by (cases a; cases b) (auto simp: less_eq_network_type_def)
qed (auto simp: less_eq_network_type_def less_network_type_def)

end

subsection \<open>Classification\<close>

definition ascii_upper :: "char \<Rightarrow> char" where
  "ascii_upper c =
     (let n = (of_char c :: nat) in if 97 \<le> n \<and> n \<le> 122 then char_of (n - 32) else c)"

definition ascii_lower :: "char \<Rightarrow> char" where
  "ascii_lower c =
     (let n = (of_char c :: nat) in if 65 \<le> n \<and> n \<le> 90 then char_of (n + 32) else c)"

definition b32_lower :: "char \<Rightarrow> bool" where
  "b32_lower c \<longleftrightarrow>
     (let n = (of_char c :: nat) in (97 \<le> n \<and> n \<le> 122) \<or> (50 \<le> n \<and> n \<le> 55))"

definition decode_base32 :: "crates \<Rightarrow> string \<Rightarrow> nat \<Rightarrow> bytes option" where
  "decode_base32 cr label expected_len =
     (if list_ex (\<lambda>b. \<not> b32_lower b) label then None
      else let upper = map ascii_upper label
           in case b32_decode cr upper of
                None \<Rightarrow> None
              | Some bs \<Rightarrow> if length bs = expected_len then Some bs else None)"

definition onion_checksum_input :: "bytes \<Rightarrow> bytes" where
  "onion_checksum_input pubkey = str_bytes ''.onion checksum'' @ pubkey @ [3]"

definition valid_onion_v3 :: "crates \<Rightarrow> string \<Rightarrow> bool" where
  "valid_onion_v3 cr label =
     (case decode_base32 cr label 35 of
        None \<Rightarrow> False
      | Some decoded \<Rightarrow>
          if decoded ! 34 \<noteq> 3 then False
          else take 2 (drop 32 decoded) = take 2 (sha3_256 cr (onion_checksum_input (take 32 decoded))))"

definition is_ipv4_part :: "string \<Rightarrow> bool" where
  "is_ipv4_part p \<longleftrightarrow>
     p \<noteq> [] \<and> list_all is_ascii_digit p \<and>
     (case parse_unsigned 32 p of Some n \<Rightarrow> n < 256 | None \<Rightarrow> False)"

definition is_ipv4_dotted :: "string \<Rightarrow> bool" where
  "is_ipv4_dotted host =
     (let parts = split_on (CHR ''.'') host
      in if length parts \<noteq> 4 then False else list_all is_ipv4_part parts)"

definition classify :: "crates \<Rightarrow> string \<Rightarrow> network_type" where
  "classify cr host =
     (if CHR '':'' \<in> set host then
        (case parse_ipv6 host of
           Some octets \<Rightarrow> if octets ! 0 = 0xfc then Cjdns else Ipv6
         | None \<Rightarrow> Unknown)
      else case strip_suffix ''.onion'' host of
        Some label \<Rightarrow>
          if length label = 16 \<and> decode_base32 cr label 10 \<noteq> None then OnionV2
          else if length label = 56 \<and> valid_onion_v3 cr label then OnionV3
          else Unknown
      | None \<Rightarrow>
          (case strip_suffix ''.b32.i2p'' host of
             Some label \<Rightarrow>
               if length label = 52 \<and> decode_base32 cr label 32 \<noteq> None then I2p else Unknown
           | None \<Rightarrow> if is_ipv4_dotted host then Ipv4 else Unknown))"

definition render_addr :: "string \<Rightarrow> u16 \<Rightarrow> string" where
  "render_addr host port =
     (if CHR '':'' \<in> set host then ''['' @ host @ '']:'' @ show_dec (unat port)
      else host @ '':'' @ show_dec (unat port))"

subsection \<open>Base32 labels\<close>

lemma ascii_upper_lower: "b32_symbol c \<Longrightarrow> ascii_upper (ascii_lower c) = c"
  by (auto simp: b32_symbol_def ascii_upper_def ascii_lower_def Let_def of_char_of)

lemma b32_lower_lower: "b32_symbol c \<Longrightarrow> b32_lower (ascii_lower c)"
  by (auto simp: b32_symbol_def b32_lower_def ascii_lower_def Let_def of_char_of)

definition b32_label :: "crates \<Rightarrow> bytes \<Rightarrow> string" where
  "b32_label cr bs = map ascii_lower (b32_encode cr bs)"

lemma length_b32_label: "crates_ok cr \<Longrightarrow> length (b32_label cr bs) = (8 * length bs + 4) div 5"
  by (simp add: b32_label_def crates_okD)

lemma b32_label_lower: "crates_ok cr \<Longrightarrow> c \<in> set (b32_label cr bs) \<Longrightarrow> b32_lower c"
  using crates_okD(3) [of cr bs] by (auto simp: b32_label_def list_all_iff b32_lower_lower)

lemma decode_base32_label:
  "crates_ok cr \<Longrightarrow> length bs = n \<Longrightarrow> decode_base32 cr (b32_label cr bs) n = Some bs"
proof -
  assume ok: "crates_ok cr" and n: "length bs = n"
  have "map ascii_upper (b32_label cr bs) = b32_encode cr bs"
    using crates_okD(3) [OF ok, of bs]
    by (auto simp: b32_label_def list_all_iff ascii_upper_lower intro!: map_idI)
  moreover have "\<not> list_ex (\<lambda>b. \<not> b32_lower b) (b32_label cr bs)"
    using b32_label_lower [OF ok] by (auto simp: list_ex_iff)
  ultimately show ?thesis using n crates_okD(5) [OF ok]
    by (simp add: decode_base32_def Let_def)
qed

lemma decode_base32_length: "decode_base32 cr l n = Some bs \<Longrightarrow> length bs = n"
  by (auto simp: decode_base32_def Let_def split: option.splits if_splits)

lemma b32_lower_not_colon: "\<not> b32_lower (CHR '':'')"
  by (simp add: b32_lower_def)

subsection \<open>Classification of the hosts the crawler builds\<close>

lemma classify_ipv6:
  assumes "length o16 = 16"
  shows "classify cr (show_ipv6 o16) = (if o16 ! 0 = 0xfc then Cjdns else Ipv6)"
  using assms by (simp add: classify_def show_ipv6_colon parse_show_ipv6)

lemma is_ipv4_part_show: "n < 256 \<Longrightarrow> is_ipv4_part (show_dec n)"
proof -
  assume n: "n < 256"
  have "is_ascii_digit c" if c: "c \<in> set (show_dec n)" for c
    using show_radix_digits [OF _ _ c] digit_of_digit_char [of 10]
    by (auto simp: is_ascii_digit_def)
  with n show ?thesis
    by (simp add: is_ipv4_part_def list_all_iff parse_unsigned_show_dec)
qed

lemma show_dec_chars: "c \<in> set (show_dec n) \<Longrightarrow> digit_of 10 c \<noteq> None"
  using show_radix_digits [of 10 c n] digit_of_digit_char [of 10] by auto

lemma dot_not_in_show_dec: "CHR ''.'' \<notin> set (show_dec n)"
  using show_dec_chars [of "CHR ''.''" n] by (auto simp: digit_of_def)

lemma is_ipv4_dotted_show:
  assumes "a < 256" "b < 256" "c < 256" "d < 256"
  shows "is_ipv4_dotted (show_ipv4 a b c d)"
proof -
  have "split_on (CHR ''.'') (show_ipv4 a b c d) =
      [show_dec a, show_dec b, show_dec c, show_dec d]"
    using dot_not_in_show_dec
    by (simp add: show_ipv4_def split_on_append split_on_no_sep)
  with assms show ?thesis by (simp add: is_ipv4_dotted_def is_ipv4_part_show)
qed

lemma last_show_dec: "digit_of 10 (last (show_ipv4 a b c d)) \<noteq> None"
  using show_dec_chars [of "last (show_dec d)" d] by (simp add: show_ipv4_def)

lemma classify_ipv4:
  assumes "a < 256" "b < 256" "c < 256" "d < 256"
  shows "classify cr (show_ipv4 a b c d) = Ipv4"
proof -
  have "strip_suffix ''.onion'' (show_ipv4 a b c d) = None"
    "strip_suffix ''.b32.i2p'' (show_ipv4 a b c d) = None"
    using last_show_dec [of a b c d] by (auto simp: strip_suffix_None digit_of_def)
  then show ?thesis using assms
    by (simp add: classify_def show_ipv4_no_colon is_ipv4_dotted_show)
qed

subsection \<open>Dotted quads and the parser of IP addresses\<close>

text \<open>The classifier takes octets with leading zeros, the parser of the standard library does not.\<close>

definition leading_zero :: "string \<Rightarrow> bool" where
  "leading_zero p \<longleftrightarrow> length p > 1 \<and> hd p = CHR ''0''"

lemma read_digits_lower: "read_digits 10 acc p = Some n \<Longrightarrow> acc * 10 ^ length p \<le> n"
proof (induction p arbitrary: acc)
  case Nil
  then show ?case by simp
next
  case (Cons c cs)
  then obtain d where d: "digit_of 10 c = Some d" "read_digits 10 (acc * 10 + d) cs = Some n"
    by (auto split: option.splits)
  have "acc * 10 ^ length (c # cs) \<le> (acc * 10 + d) * 10 ^ length cs" by (simp add: algebra_simps)
  also have "\<dots> \<le> n" by (rule Cons.IH [OF d(2)])
  finally show ?case .
qed

lemma digit_zero: "digit_of 10 c = Some 0 \<Longrightarrow> c = CHR ''0''"
proof -
  assume "digit_of 10 c = Some 0"
  then have "of_char c = (48 :: nat)" by (auto simp: digit_of_def Let_def split: if_splits)
  then have "of_char c = (of_char (CHR ''0'') :: nat)" by simp
  then show ?thesis by (simp only: of_char_eq_iff)
qed

lemma ipv4_part_value:
  assumes "is_ipv4_part p"
  obtains n where "read_digits 10 0 p = Some n" "n < 256" "p \<noteq> []" "\<forall>c \<in> set p. digit_of 10 c \<noteq> None"
    "\<not> leading_zero p \<Longrightarrow> length p \<le> 3"
proof -
  have d: "\<forall>c \<in> set p. digit_of 10 c \<noteq> None" and ne: "p \<noteq> []"
    using assms by (auto simp: is_ipv4_part_def list_all_iff is_ascii_digit_def)
  obtain c cs where p: "p = c # cs" using ne by (cases p) auto
  have "c \<noteq> CHR ''+''" using d p by (auto simp: digit_of_def)
  then obtain n where n: "read_digits 10 0 p = Some n" "n < 256"
    using assms p by (auto simp: is_ipv4_part_def parse_unsigned_def Let_def split: option.splits if_splits)
  have "length p \<le> 3" if "\<not> leading_zero p"
  proof (cases "cs = []")
    case True
    then show ?thesis by (simp add: p)
  next
    case False
    with that have "c \<noteq> CHR ''0''" by (auto simp: leading_zero_def p)
    moreover obtain v where "digit_of 10 c = Some v" using d p by auto
    ultimately have v: "digit_of 10 c = Some v" "0 < v" using digit_zero by (auto intro: Suc_leI gr0I)
    then have "read_digits 10 v cs = Some n" using n(1) p by simp
    from read_digits_lower [OF this] v(2) have "10 ^ length cs \<le> n" by (cases v) auto
    with n(2) have "(10 :: nat) ^ length cs < 10 ^ 3" by simp
    then have "length cs < 3" by (rule power_less_imp_less_exp [rotated]) simp
    then show ?thesis by (simp add: p)
  qed
  with n d ne that show ?thesis by blast
qed

lemma read_octet_part:
  assumes "is_ipv4_part p" "stops 10 t"
  shows "leading_zero p \<Longrightarrow> read_octet (p @ t) = None"
    and "\<not> leading_zero p \<Longrightarrow> \<exists>n. read_octet (p @ t) = Some (n, t)"
proof -
  obtain n where n: "read_digits 10 0 p = Some n" "n < 256" "p \<noteq> []" "\<forall>c \<in> set p. digit_of 10 c \<noteq> None"
    "\<not> leading_zero p \<Longrightarrow> length p \<le> 3"
    using ipv4_part_value [OF assms(1)] by blast
  have "takeWhile (\<lambda>c. digit_of 10 c \<noteq> None) t = []"
    using assms(2) by (cases t) (auto simp: stops_def)
  then have "takeWhile (\<lambda>c. digit_of 10 c \<noteq> None) (p @ t) = p" using n(4) by (simp add: takeWhile_append2)
  then show "leading_zero p \<Longrightarrow> read_octet (p @ t) = None"
    "\<not> leading_zero p \<Longrightarrow> \<exists>n. read_octet (p @ t) = Some (n, t)"
    using n unfolding read_octet_def read_number_def Let_def leading_zero_def by auto
qed

lemma split_on_parts: "split_on sep s = p # ps \<Longrightarrow> ps \<noteq> [] \<Longrightarrow> \<exists>r. s = p @ sep # r \<and> split_on sep r = ps"
proof (induction s arbitrary: p ps)
  case Nil
  then show ?case by simp
next
  case (Cons c s)
  show ?case
  proof (cases "c = sep")
    case True
    with Cons.prems show ?thesis by auto
  next
    case False
    then obtain q where q: "p = c # q" "split_on sep s = q # ps"
      using Cons.prems by (auto split: list.splits)
    from Cons.IH [OF q(2) Cons.prems(2)] q(1) show ?thesis by auto
  qed
qed

lemma split_on_last: "split_on sep s = [p] \<Longrightarrow> s = p"
proof (induction s arbitrary: p)
  case (Cons c s)
  then show ?case by (auto split: if_splits list.splits)
qed simp

lemma dotted_parts:
  assumes "is_ipv4_dotted host"
  obtains a b c d where "split_on (CHR ''.'') host = [a, b, c, d]"
    "host = a @ CHR ''.'' # b @ CHR ''.'' # c @ CHR ''.'' # d"
    "is_ipv4_part a" "is_ipv4_part b" "is_ipv4_part c" "is_ipv4_part d"
proof -
  have l: "length (split_on (CHR ''.'') host) = 4" and ok: "list_all is_ipv4_part (split_on (CHR ''.'') host)"
    using assms by (simp_all add: is_ipv4_dotted_def Let_def split: if_splits)
  then obtain a b c d where s: "split_on (CHR ''.'') host = [a, b, c, d]"
    by (auto simp: length_Suc_conv numeral_eq_Suc)
  from split_on_parts [OF s] obtain r where r: "host = a @ CHR ''.'' # r" "split_on (CHR ''.'') r = [b, c, d]" by auto
  from split_on_parts [OF r(2)] obtain r' where r': "r = b @ CHR ''.'' # r'" "split_on (CHR ''.'') r' = [c, d]" by auto
  from split_on_parts [OF r'(2)] obtain r'' where r'': "r' = c @ CHR ''.'' # r''" "split_on (CHR ''.'') r'' = [d]" by auto
  from split_on_last [OF r''(2)] r r' r'' s ok that show ?thesis by simp
qed

lemma ipv4_part_chars: "is_ipv4_part p \<Longrightarrow> c \<in> set p \<Longrightarrow> digit_of 10 c \<noteq> None"
  by (auto simp: is_ipv4_part_def list_all_iff is_ascii_digit_def)

lemma dotted_no_colon: "is_ipv4_dotted host \<Longrightarrow> CHR '':'' \<notin> set host"
  by (erule dotted_parts) (auto dest: ipv4_part_chars [where c = "CHR '':''"] simp: digit_of_def)

lemma classify_dotted:
  assumes "is_ipv4_dotted host"
  shows "classify cr host = Ipv4"
proof -
  obtain a b c d where h: "host = a @ CHR ''.'' # b @ CHR ''.'' # c @ CHR ''.'' # d" "is_ipv4_part d"
    using dotted_parts [OF assms] by metis
  then have "d \<noteq> []" by (simp add: is_ipv4_part_def)
  with h have "digit_of 10 (last host) \<noteq> None" using ipv4_part_chars [of d "last d"] by simp
  then have "strip_suffix ''.onion'' host = None" "strip_suffix ''.b32.i2p'' host = None"
    by (auto simp: strip_suffix_None digit_of_def)
  then show ?thesis using assms dotted_no_colon [OF assms] by (simp add: classify_def)
qed

lemma parse_ip_dotted:
  assumes "is_ipv4_dotted host"
  shows "parse_ip host = None \<longleftrightarrow> list_ex leading_zero (split_on (CHR ''.'') host)"
proof -
  obtain a b c d where s: "split_on (CHR ''.'') host = [a, b, c, d]"
    and h: "host = a @ CHR ''.'' # b @ CHR ''.'' # c @ CHR ''.'' # d"
    and p: "is_ipv4_part a" "is_ipv4_part b" "is_ipv4_part c" "is_ipv4_part d"
    by (rule dotted_parts [OF assms])
  have v6: "parse_ipv6 host = None"
    using parse_ipv6_text(1) [of host] dotted_no_colon [OF assms] by (cases "parse_ipv6 host") (auto simp: count_list_0_iff)
  have d: "read_octet d = None" if "leading_zero d"
    using read_octet_part(1) [OF p(4) stops_Nil that] by simp
  have d': "\<exists>n. read_octet d = Some (n, [])" if "\<not> leading_zero d"
    using read_octet_part(2) [OF p(4) stops_Nil that] by simp
  have st: "stops 10 (CHR ''.'' # t)" for t by simp
  note o = read_octet_part [OF p(1) st, of "b @ CHR ''.'' # c @ CHR ''.'' # d"]
    read_octet_part [OF p(2) st, of "c @ CHR ''.'' # d"] read_octet_part [OF p(3) st, of d]
  have "read_ipv4 host = None" if "list_ex leading_zero [a, b, c, d]"
    using that o d d' unfolding h read_ipv4_def read_separator_def read_given_char_def
    by (cases "leading_zero a"; cases "leading_zero b"; cases "leading_zero c"; cases "leading_zero d") auto
  moreover have "\<exists>x. read_ipv4 host = Some (x, [])" if "\<not> list_ex leading_zero [a, b, c, d]"
    using that o d' unfolding h read_ipv4_def read_separator_def read_given_char_def by auto
  ultimately show ?thesis
    using v6 unfolding s by (cases "list_ex leading_zero [a, b, c, d]") (auto simp: parse_ip_def)
qed

lemma label_suffix_no_colon:
  "crates_ok cr \<Longrightarrow> CHR '':'' \<notin> set sfx \<Longrightarrow> CHR '':'' \<notin> set (b32_label cr bs @ sfx)"
  using b32_label_lower [of cr "CHR '':''" bs] b32_lower_not_colon by auto

lemma classify_onion_v2:
  assumes "crates_ok cr" "length bs = 10"
  shows "classify cr (b32_label cr bs @ ''.onion'') = OnionV2"
  using assms label_suffix_no_colon [of cr "''.onion''" bs] length_b32_label [of cr bs]
  by (simp add: classify_def decode_base32_label del: set_append)

lemma classify_i2p:
  assumes "crates_ok cr" "length bs = 32"
  shows "classify cr (b32_label cr bs @ ''.b32.i2p'') = I2p"
proof -
  have "strip_suffix ''.onion'' (b32_label cr bs @ ''.b32.i2p'') = None"
  proof -
    have "last (b32_label cr bs @ ''.b32.i2p'') \<noteq> last (t @ ''.onion'')" for t by simp
    then show ?thesis unfolding strip_suffix_None by metis
  qed
  moreover have "strip_suffix ''.b32.i2p'' (b32_label cr bs @ ''.b32.i2p'') = Some (b32_label cr bs)"
    by (rule strip_suffix_append)
  ultimately show ?thesis
    using assms label_suffix_no_colon [of cr "''.b32.i2p''" bs] length_b32_label [of cr bs]
    by (simp add: classify_def decode_base32_label del: set_append)
qed

lemma classify_onion_v3:
  assumes ok: "crates_ok cr" and len: "length pk = 32"
    and data: "data = pk @ take 2 (sha3_256 cr (onion_checksum_input pk)) @ [3]"
  shows "classify cr (b32_label cr data @ ''.onion'') = OnionV3"
proof -
  have l: "length data = 35" using crates_okD(2) [OF ok] len data by simp
  have "data ! 34 = 3" "take 32 data = pk"
    "take 2 (drop 32 data) = take 2 (sha3_256 cr (onion_checksum_input pk))"
    using crates_okD(2) [OF ok] len data by (simp_all add: nth_append)
  then have "valid_onion_v3 cr (b32_label cr data)"
    using decode_base32_label [OF ok l] by (simp add: valid_onion_v3_def)
  moreover have "length (b32_label cr data) = 56" using length_b32_label [OF ok, of data] l by simp
  ultimately show ?thesis
    using label_suffix_no_colon [OF ok, of "''.onion''" data]
    by (simp add: classify_def del: set_append)
qed

text \<open>Rendering is injective on hosts without brackets: distinct endpoints have distinct texts.\<close>

lemma append_sep_inj:
  assumes "c \<notin> set d1" "c \<notin> set d2" "xs @ c # d1 = ys @ c # d2"
  shows "xs = ys \<and> d1 = d2"
  using assms
proof (induction d1 arbitrary: d2 rule: rev_induct)
  case Nil
  then show ?case by (cases d2 rule: rev_cases) auto
next
  case (snoc a d1)
  then show ?case by (cases d2 rule: rev_cases) auto
qed

lemma colon_not_in_show_dec: "CHR '':'' \<notin> set (show_dec n)"
  using show_dec_chars [of "CHR '':''" n] by (auto simp: digit_of_def)

lemma render_addr_inj:
  assumes "CHR ''['' \<notin> set h1" "CHR ''['' \<notin> set h2" "render_addr h1 p1 = render_addr h2 p2"
  shows "h1 = h2 \<and> p1 = p2"
proof -
  let ?body = "\<lambda>h. if CHR '':'' \<in> set h then ''['' @ h @ '']'' else h"
  have "render_addr h p = ?body h @ CHR '':'' # show_dec (unat p)" for h p
    by (simp add: render_addr_def)
  with assms(3) have "?body h1 @ CHR '':'' # show_dec (unat p1) =
      ?body h2 @ CHR '':'' # show_dec (unat p2)" by simp
  then have "?body h1 = ?body h2 \<and> show_dec (unat p1) = show_dec (unat p2)"
    by (rule append_sep_inj [OF colon_not_in_show_dec colon_not_in_show_dec])
  moreover have "unat p1 = unat p2" if "show_dec (unat p1) = show_dec (unat p2)"
    using show_radix_inj [OF _ _ that] by simp
  ultimately show ?thesis using assms(1,2) by (auto split: if_splits intro: unsigned_word_eqI)
qed

end
