(* ===== verification/Protocol.thy ===== *)
theory Protocol
  imports Wire Address Text
begin

section \<open>Bitcoin messages (src/protocol.rs)\<close>

text \<open>
  Message framing, the \<open>version\<close> payload, and the \<open>addr\<close> and \<open>addrv2\<close> payloads. Two kinds of
  results: \<open>parse_version\<close> returns an option, the address parsers an error of
  \<open>addr_parse_error\<close>. The double SHA-256, base32 and SHA3 are the \<open>crates\<close> parameter.
\<close>

definition MAGIC :: bytes where
  "MAGIC = [0xF9, 0xBE, 0xB4, 0xD9]"

definition MAX_PROTOCOL_MESSAGE_LENGTH :: nat where
  "MAX_PROTOCOL_MESSAGE_LENGTH = 4000000"

definition MAX_ADDR_TO_SEND :: nat where
  "MAX_ADDR_TO_SEND = 1000"

definition PROTOCOL_VERSION :: int where
  "PROTOCOL_VERSION = 70016"

definition USER_AGENT :: string where
  "USER_AGENT = ''/new-p2p-crawler:0.1.0/''"

definition MAX_SUBVERSION_LENGTH :: nat where
  "MAX_SUBVERSION_LENGTH = 256"

subsection \<open>Framing\<close>

definition checksum :: "crates \<Rightarrow> bytes \<Rightarrow> bytes" where
  "checksum cr payload =
     (let first = sha256 cr payload; second = sha256 cr first
      in [second ! 0, second ! 1, second ! 2, second ! 3])"

definition printable :: "u8 \<Rightarrow> bool" where
  "printable b \<longleftrightarrow> 0x20 \<le> b \<and> b \<le> 0x7e"

definition validate_command :: "string \<Rightarrow> io_error + unit" where
  "validate_command command =
     (let bs = str_bytes command
      in if bs = [] \<or> length bs > 12 \<or> list_ex (\<lambda>b. \<not> printable b) bs
         then Inl (io_err InvalidInput ''command must be 1..=12 printable ASCII bytes'')
         else Inr ())"

definition frame :: "crates \<Rightarrow> string \<Rightarrow> bytes \<Rightarrow> io_error + bytes" where
  "frame cr command payload =
     and_then (validate_command command) (\<lambda>_.
     if length payload \<ge> 2 ^ 32 then Inl (io_err InvalidInput ''payload too large'')
     else if length payload > MAX_PROTOCOL_MESSAGE_LENGTH
     then Inl (io_err InvalidInput ''payload exceeds protocol limit'')
     else
       let bs = str_bytes command;
           cmd = bs @ replicate (12 - length bs) 0
       in Inr (MAGIC @ cmd @ to_le_bytes (word_of_nat (length payload) :: u32) @
               checksum cr payload @ payload))"

subsection \<open>The version message\<close>

record version_net_addr =
  vna_services :: u64
  vna_host :: string
  vna_port :: u16

record version_data =
  vd_version :: int
  vd_services :: u64
  vd_timestamp :: int
  vd_user_agent :: string
  vd_latest_block :: int
  vd_relay :: bool
  vd_addr_recv :: version_net_addr
  vd_addr_from :: "version_net_addr option"
  vd_nonce :: "u64 option"

definition zero_netaddr :: bytes where
  "zero_netaddr =
     to_le_bytes (0 :: u64) @
     [0, 0, 0, 0, 0, 0, 0, 0, 0, 0, 0xFF, 0xFF, 0, 0, 0, 0] @
     to_be_bytes (0 :: u16)"

definition build_version :: "int \<Rightarrow> u64 \<Rightarrow> bytes" where
  "build_version timestamp nonce =
     i32_bytes PROTOCOL_VERSION @ to_le_bytes (0 :: u64) @ i64_bytes timestamp @
     zero_netaddr @ zero_netaddr @ to_le_bytes nonce @
     write_compact_size (word_of_nat (length USER_AGENT)) @ str_bytes USER_AGENT @
     i32_bytes 0 @ [0x00]"

text \<open>IPv4-mapped addresses collapse to dotted quads.\<close>

definition ipv4_mapped :: "bytes \<Rightarrow> (u8 \<times> u8 \<times> u8 \<times> u8) option" where
  "ipv4_mapped o16 =
     (if list_all (\<lambda>b. b = 0) (take 10 o16) \<and> o16 ! 10 = 0xff \<and> o16 ! 11 = 0xff
      then Some (o16 ! 12, o16 ! 13, o16 ! 14, o16 ! 15) else None)"

definition show_v4 :: "u8 \<times> u8 \<times> u8 \<times> u8 \<Rightarrow> string" where
  "show_v4 = (\<lambda>(a, b, c, d). show_ipv4 (unat a) (unat b) (unat c) (unat d))"

definition compact_ipv6 :: "bytes \<Rightarrow> string" where
  "compact_ipv6 o16 = show_ipv6 o16"

definition decode_legacy_ip :: "bytes \<Rightarrow> string \<times> network_type" where
  "decode_legacy_ip arr =
     (case ipv4_mapped arr of
        Some v4 \<Rightarrow> (show_v4 v4, Ipv4)
      | None \<Rightarrow> (compact_ipv6 arr, Ipv6))"

definition parse_version_netaddr :: "version_net_addr wire" where
  "parse_version_netaddr c = do {
     (services, c) \<leftarrow> read_u64_le c;
     (ip, c) \<leftarrow> cursor_take 16 c;
     (port, c) \<leftarrow> read_u16_be c;
     let host = fst (decode_legacy_ip ip);
     Some (\<lparr>vna_services = services, vna_host = host, vna_port = port\<rparr>, c) }"

definition decode_user_agent :: "bytes \<Rightarrow> string" where
  "decode_user_agent bs = (if utf8_valid bs then bytes_str bs else hex_of bs)"

definition parse_version :: "bytes \<Rightarrow> version_data option" where
  "parse_version payload = do {
     let c = cursor_new payload;
     (version, c) \<leftarrow> read_i32_le c;
     (services, c) \<leftarrow> read_u64_le c;
     (timestamp, c) \<leftarrow> read_i64_le c;
     (addr_recv, c) \<leftarrow> parse_version_netaddr c;
     (user_agent, latest_block, relay, addr_from, nonce) \<leftarrow>
       (if version \<ge> 106 then do {
          (from, c) \<leftarrow> parse_version_netaddr c;
          (nonce, c) \<leftarrow> read_u64_le c;
          (ua_len, c) \<leftarrow> compact_size_canonical c;
          if unat ua_len > MAX_SUBVERSION_LENGTH then None
          else do {
            (ua_bytes, c) \<leftarrow> cursor_take (unat ua_len) c;
            (latest_block, c) \<leftarrow> read_i32_le c;
            let relay = (if version \<ge> 70001
                         then (case read_u8 c of Some (byte, _) \<Rightarrow> byte \<noteq> 0 | None \<Rightarrow> True)
                         else True);
            Some (decode_user_agent ua_bytes, latest_block, relay, Some from, Some nonce) } }
        else Some ([], 0, True, None, None));
     Some \<lparr>vd_version = version, vd_services = services, vd_timestamp = timestamp,
           vd_user_agent = user_agent, vd_latest_block = latest_block, vd_relay = relay,
           vd_addr_recv = addr_recv, vd_addr_from = addr_from, vd_nonce = nonce\<rparr> }"

subsection \<open>addr and addrv2\<close>

record advertised_addr =
  ad_host :: string
  ad_port :: u16
  ad_network :: network_type
  ad_timestamp :: int
  ad_services :: u64
  ad_wire_network_id :: u8

record parsed_addr_message =
  declared_count :: u64
  pm_addrs :: "advertised_addr list"
  unknown_entries :: u64

datatype addr_parse_error =
  NonCanonicalOrTruncated
| TooMany u64
| WrongLength u8 nat
| InvalidNetworkEncoding u8
| TrailingBytes nat

definition check_addr_count :: "u64 \<Rightarrow> addr_parse_error + unit" where
  "check_addr_count count =
     (if unat count > MAX_ADDR_TO_SEND then Inl (TooMany count) else Inr ())"

definition finish_addr_parse ::
  "cursor \<Rightarrow> u64 \<Rightarrow> advertised_addr list \<Rightarrow> u64 \<Rightarrow> addr_parse_error + parsed_addr_message" where
  "finish_addr_parse c count addrs unknown =
     (if remaining c \<noteq> 0 then Inl (TrailingBytes (remaining c))
      else Inr \<lparr>declared_count = count, pm_addrs = addrs, unknown_entries = unknown\<rparr>)"

definition parse_addr_entry :: "cursor \<Rightarrow> addr_parse_error + (advertised_addr \<times> cursor)" where
  "parse_addr_entry c =
     and_then (ok_or NonCanonicalOrTruncated (read_u32_le c)) (\<lambda>(ts, c).
     and_then (ok_or NonCanonicalOrTruncated (read_u64_le c)) (\<lambda>(services, c).
     and_then (ok_or NonCanonicalOrTruncated (cursor_take 16 c)) (\<lambda>(ip, c).
     and_then (ok_or NonCanonicalOrTruncated (read_u16_be c)) (\<lambda>(port, c).
       let (host, network) = decode_legacy_ip ip
       in Inr (\<lparr>ad_host = host, ad_port = port, ad_network = network,
                ad_timestamp = uint ts, ad_services = services,
                ad_wire_network_id = 2\<rparr>, c)))))"

fun parse_addr_loop ::
  "nat \<Rightarrow> cursor \<Rightarrow> advertised_addr list \<Rightarrow> addr_parse_error + (advertised_addr list \<times> cursor)" where
  "parse_addr_loop 0 c out = Inr (out, c)"
| "parse_addr_loop (Suc n) c out =
     and_then (parse_addr_entry c) (\<lambda>(a, c). parse_addr_loop n c (out @ [a]))"

definition parse_addr :: "bytes \<Rightarrow> addr_parse_error + parsed_addr_message" where
  "parse_addr payload =
     and_then (ok_or NonCanonicalOrTruncated (compact_size_canonical (cursor_new payload)))
       (\<lambda>(count, c).
     and_then (check_addr_count count) (\<lambda>_.
     and_then (parse_addr_loop (unat count) c []) (\<lambda>(out, c).
       finish_addr_parse c count out 0)))"

definition encode_onion_v3 :: "crates \<Rightarrow> bytes \<Rightarrow> string option" where
  "encode_onion_v3 cr pubkey =
     (if length pubkey \<noteq> 32 then None
      else let digest = sha3_256 cr (str_bytes ''.onion checksum'' @ pubkey @ [0x03]);
               data = pubkey @ take 2 digest @ [0x03];
               label = map ascii_lower (b32_encode cr data)
           in Some (label @ ''.onion''))"

definition decode_addrv2 ::
  "crates \<Rightarrow> u8 \<Rightarrow> bytes \<Rightarrow> addr_parse_error + (string \<times> network_type) option" where
  "decode_addrv2 cr net_id bs =
     (if net_id = 1 then Inr (Some (show_v4 (bs ! 0, bs ! 1, bs ! 2, bs ! 3), Ipv4))
      else if net_id = 2 then
        (if ipv4_mapped bs \<noteq> None \<or> bs ! 0 = 0xfc then Inl (InvalidNetworkEncoding net_id)
         else Inr (Some (compact_ipv6 bs, Ipv6)))
      else if net_id = 3 then
        Inr (Some (map ascii_lower (b32_encode cr bs) @ ''.onion'', OnionV2))
      else if net_id = 4 then
        and_then (ok_or (InvalidNetworkEncoding net_id) (encode_onion_v3 cr bs)) (\<lambda>host.
          Inr (Some (host, OnionV3)))
      else if net_id = 5 then
        Inr (Some (map ascii_lower (b32_encode cr bs) @ ''.b32.i2p'', I2p))
      else if net_id = 6 then
        (if bs ! 0 \<noteq> 0xfc then Inl (InvalidNetworkEncoding net_id)
         else Inr (Some (compact_ipv6 bs, Cjdns)))
      else Inr None)"

definition expected_addr_len :: "u8 \<Rightarrow> nat \<Rightarrow> nat" where
  "expected_addr_len net_id addr_len =
     (if net_id = 1 then 4 else if net_id = 2 then 16 else if net_id = 3 then 10
      else if net_id = 4 then 32 else if net_id = 5 then 32 else if net_id = 6 then 16
      else addr_len)"

definition parse_addrv2_entry ::
  "crates \<Rightarrow> cursor \<Rightarrow> addr_parse_error + (advertised_addr option \<times> cursor)" where
  "parse_addrv2_entry cr c =
     and_then (ok_or NonCanonicalOrTruncated (read_u32_le c)) (\<lambda>(ts, c).
     and_then (ok_or NonCanonicalOrTruncated (compact_size_canonical c)) (\<lambda>(services, c).
     and_then (ok_or NonCanonicalOrTruncated (read_u8 c)) (\<lambda>(net_id, c).
     and_then (ok_or NonCanonicalOrTruncated (compact_size_canonical c)) (\<lambda>(len64, c).
       let addr_len = unat len64
       in if addr_len > 512 then Inl (WrongLength net_id addr_len)
          else if addr_len \<noteq> expected_addr_len net_id addr_len
          then Inl (WrongLength net_id addr_len)
          else
            and_then (ok_or NonCanonicalOrTruncated (cursor_take addr_len c)) (\<lambda>(addr_bytes, c).
            and_then (ok_or NonCanonicalOrTruncated (read_u16_be c)) (\<lambda>(port, c).
            and_then (decode_addrv2 cr net_id addr_bytes) (\<lambda>decoded.
              case decoded of
                None \<Rightarrow> Inr (None, c)
              | Some (host, network) \<Rightarrow>
                  Inr (Some \<lparr>ad_host = host, ad_port = port, ad_network = network,
                             ad_timestamp = uint ts, ad_services = services,
                             ad_wire_network_id = net_id\<rparr>, c))))))))"

fun parse_addrv2_loop ::
  "crates \<Rightarrow> nat \<Rightarrow> cursor \<Rightarrow> advertised_addr list \<Rightarrow> u64 \<Rightarrow>
   addr_parse_error + (advertised_addr list \<times> u64 \<times> cursor)" where
  "parse_addrv2_loop cr 0 c out unknown = Inr (out, unknown, c)"
| "parse_addrv2_loop cr (Suc n) c out unknown =
     and_then (parse_addrv2_entry cr c) (\<lambda>(a, c).
       case a of
         None \<Rightarrow> parse_addrv2_loop cr n c out (unknown + 1)
       | Some a \<Rightarrow> parse_addrv2_loop cr n c (out @ [a]) unknown)"

definition parse_addrv2 :: "crates \<Rightarrow> bytes \<Rightarrow> addr_parse_error + parsed_addr_message" where
  "parse_addrv2 cr payload =
     and_then (ok_or NonCanonicalOrTruncated (compact_size_canonical (cursor_new payload)))
       (\<lambda>(count, c).
     and_then (check_addr_count count) (\<lambda>_.
     and_then (parse_addrv2_loop cr (unat count) c [] 0) (\<lambda>(out, unknown, c).
       finish_addr_parse c count out unknown)))"

text \<open>\<open>Display\<close> of a parse error, as the observation log records it.\<close>

fun addr_parse_error_text :: "addr_parse_error \<Rightarrow> string" where
  "addr_parse_error_text NonCanonicalOrTruncated = ''non-canonical or truncated address message''"
| "addr_parse_error_text (TooMany n) =
     ''declared address count '' @ show_dec (unat n) @ '' exceeds '' @ show_dec MAX_ADDR_TO_SEND"
| "addr_parse_error_text (WrongLength network_id len) =
     ''wrong length '' @ show_dec len @ '' for BIP155 network '' @ show_dec (unat network_id)"
| "addr_parse_error_text (InvalidNetworkEncoding network_id) =
     ''invalid encoding for BIP155 network '' @ show_dec (unat network_id)"
| "addr_parse_error_text (TrailingBytes n) =
     show_dec n @ '' trailing bytes after address vector''"

subsection \<open>Hosts agree with their classification\<close>

lemma ipv4_mapped_iff: "length o16 = 16 \<Longrightarrow> ipv4_mapped o16 \<noteq> None \<longleftrightarrow> is_ipv4_mapped o16"
proof -
  assume len: "length o16 = 16"
  have t12: "take 12 o16 = take 10 o16 @ [o16 ! 10, o16 ! 11]"
    using len take_Suc_conv_app_nth [of 10 o16] take_Suc_conv_app_nth [of 11 o16] by simp
  have "list_all (\<lambda>b. b = 0) (take 10 o16) \<longleftrightarrow> take 10 o16 = replicate 10 0"
    using len by (auto simp: list_all_iff intro: replicate_eqI)
  moreover have "replicate 10 (0 :: u8) = [0, 0, 0, 0, 0, 0, 0, 0, 0, 0]" by code_simp
  ultimately show ?thesis using len
    by (auto simp: ipv4_mapped_def is_ipv4_mapped_def t12)
qed

lemma classify_show_v4: "classify cr (show_v4 v4) = Ipv4"
  by (cases v4) (simp add: show_v4_def classify_ipv4)

lemma decode_legacy_ip_classify:
  assumes "length arr = 16" "decode_legacy_ip arr = (host, net)"
  shows "classify cr host = (if net = Ipv6 \<and> arr ! 0 = 0xfc then Cjdns else net)"
  using assms
  by (auto simp: decode_legacy_ip_def compact_ipv6_def classify_show_v4 classify_ipv6
      split: option.splits)

lemma decode_addrv2_classify:
  assumes ok: "crates_ok cr" and len: "length bs = expected_addr_len net_id (length bs)"
    and dec: "decode_addrv2 cr net_id bs = Inr (Some (host, net))"
  shows "classify cr host = net"
proof -
  consider "net_id = 1" | "net_id = 2" | "net_id = 3" | "net_id = 4" | "net_id = 5" | "net_id = 6"
    using dec by (auto simp: decode_addrv2_def split: if_splits)
  then show ?thesis
  proof cases
    case 1
    with dec show ?thesis by (auto simp: decode_addrv2_def classify_show_v4)
  next
    case 2
    with dec len show ?thesis
      by (auto simp: decode_addrv2_def expected_addr_len_def compact_ipv6_def classify_ipv6
          split: if_splits)
  next
    case 3
    with dec len show ?thesis
      using classify_onion_v2 [OF ok, of bs]
      by (auto simp: decode_addrv2_def expected_addr_len_def b32_label_def)
  next
    case 4
    then have "length bs = 32" using len by (simp add: expected_addr_len_def)
    with 4 dec show ?thesis
      using classify_onion_v3 [OF ok, of bs]
      by (auto simp: decode_addrv2_def encode_onion_v3_def b32_label_def Let_def
          onion_checksum_input_def)
  next
    case 5
    with dec len show ?thesis
      using classify_i2p [OF ok, of bs]
      by (auto simp: decode_addrv2_def expected_addr_len_def b32_label_def)
  next
    case 6
    with dec len show ?thesis
      by (auto simp: decode_addrv2_def expected_addr_len_def compact_ipv6_def classify_ipv6
          split: if_splits)
  qed
qed

subsection \<open>Framing\<close>

lemma length_MAGIC [simp]: "length MAGIC = 4"
  by (simp add: MAGIC_def)

lemma length_checksum [simp]: "length (checksum cr p) = 4"
  by (simp add: checksum_def Let_def)

definition command_ok :: "string \<Rightarrow> bool" where
  "command_ok command \<longleftrightarrow>
     command \<noteq> [] \<and> length command \<le> 12 \<and> list_all printable (str_bytes command)"

lemma validate_command_iff: "validate_command command = Inr () \<longleftrightarrow> command_ok command"
  by (auto simp: validate_command_def command_ok_def Let_def list_ex_iff list_all_iff
      str_bytes_def)

definition frame_header :: "crates \<Rightarrow> string \<Rightarrow> bytes \<Rightarrow> bytes" where
  "frame_header cr command payload =
     MAGIC @ (str_bytes command @ replicate (12 - length command) 0) @
     to_le_bytes (word_of_nat (length payload) :: u32) @ checksum cr payload"

lemma frame_Inr_iff:
  "frame cr command payload = Inr bs \<longleftrightarrow>
     command_ok command \<and> length payload \<le> MAX_PROTOCOL_MESSAGE_LENGTH \<and>
     bs = frame_header cr command payload @ payload"
  using validate_command_iff [of command]
  by (auto simp: frame_def frame_header_def res_simps Let_def MAX_PROTOCOL_MESSAGE_LENGTH_def
      split: if_splits)

lemma length_frame_header:
  "length command \<le> 12 \<Longrightarrow> length (frame_header cr command payload) = 24"
  by (simp add: frame_header_def)

subsection \<open>The version message\<close>

definition netaddr_bytes :: "u64 \<Rightarrow> bytes \<Rightarrow> u16 \<Rightarrow> bytes" where
  "netaddr_bytes services ip port = to_le_bytes services @ ip @ to_be_bytes port"

lemma parse_version_netaddr_step:
  assumes "cursor_ok c" "length ip = 16" "rest c = netaddr_bytes services ip port @ r"
  obtains c' where
    "parse_version_netaddr c =
       Some (\<lparr>vna_services = services, vna_host = fst (decode_legacy_ip ip), vna_port = port\<rparr>, c')"
    "rest c' = r" "cursor_ok c'"
proof -
  obtain c1 where 1: "read_u64_le c = Some (services, c1)" "rest c1 = ip @ to_be_bytes port @ r"
    "cursor_ok c1"
    using w_u64_le.rd_step [OF assms(1) TrueI, of services] assms(3)
    by (metis append_assoc netaddr_bytes_def)
  obtain c2 where 2: "cursor_take 16 c1 = Some (ip, c2)" "rest c2 = to_be_bytes port @ r"
    "cursor_ok c2"
    using w_bytes.rd_step [OF 1(3) assms(2)] 1(2) by (metis id_apply)
  obtain c3 where 3: "read_u16_be c2 = Some (port, c3)" "rest c3 = r" "cursor_ok c3"
    using w_u16_be.rd_step [OF 2(3) TrueI 2(2)] by blast
  from that [of c3] 1 2 3 show ?thesis by (simp add: parse_version_netaddr_def Let_def)
qed

text \<open>The layout of a \<open>version\<close> payload of a peer at protocol version 106 or later.\<close>

definition version_bytes ::
  "int \<Rightarrow> u64 \<Rightarrow> int \<Rightarrow> bytes \<Rightarrow> bytes \<Rightarrow> u64 \<Rightarrow> bytes \<Rightarrow> int \<Rightarrow> bytes \<Rightarrow> bytes" where
  "version_bytes version services timestamp recv from nonce ua latest tail =
     i32_bytes version @ to_le_bytes services @ i64_bytes timestamp @ recv @ from @
     to_le_bytes nonce @ write_compact_size (word_of_nat (length ua)) @ ua @
     i32_bytes latest @ tail"

lemma parse_version_bytes:
  assumes "is_i32 version" "106 \<le> version" "is_i64 timestamp" "is_i32 latest"
    and "length ua \<le> MAX_SUBVERSION_LENGTH"
    and "length ip1 = 16" "length ip2 = 16"
    and len: "length (version_bytes version services timestamp (netaddr_bytes s1 ip1 p1)
               (netaddr_bytes s2 ip2 p2) nonce ua latest tail) < usize_bound"
  shows "parse_version (version_bytes version services timestamp (netaddr_bytes s1 ip1 p1)
           (netaddr_bytes s2 ip2 p2) nonce ua latest tail) =
         Some \<lparr>vd_version = version, vd_services = services, vd_timestamp = timestamp,
           vd_user_agent = decode_user_agent ua, vd_latest_block = latest,
           vd_relay = (70001 \<le> version \<and> tail \<noteq> [] \<longrightarrow> hd tail \<noteq> 0),
           vd_addr_recv = \<lparr>vna_services = s1, vna_host = fst (decode_legacy_ip ip1), vna_port = p1\<rparr>,
           vd_addr_from = Some \<lparr>vna_services = s2, vna_host = fst (decode_legacy_ip ip2), vna_port = p2\<rparr>,
           vd_nonce = Some nonce\<rparr>"
    (is "parse_version ?bs = _")
proof -
  let ?r9 = "i32_bytes latest @ tail"
  let ?r8 = "ua @ ?r9"
  let ?r7 = "write_compact_size (word_of_nat (length ua)) @ ?r8"
  let ?r6 = "to_le_bytes nonce @ ?r7"
  let ?r5 = "netaddr_bytes s2 ip2 p2 @ ?r6"
  let ?r4 = "netaddr_bytes s1 ip1 p1 @ ?r5"
  have ok0: "cursor_ok (cursor_new ?bs)" using len by simp
  obtain c1 where 1: "read_i32_le (cursor_new ?bs) = Some (version, c1)"
    "rest c1 = to_le_bytes services @ i64_bytes timestamp @ ?r4" "cursor_ok c1"
    using w_i32_le.rd_step [OF ok0 assms(1)] by (metis rest_new version_bytes_def)
  obtain c2 where 2: "read_u64_le c1 = Some (services, c2)"
    "rest c2 = i64_bytes timestamp @ ?r4" "cursor_ok c2"
    using w_u64_le.rd_step [OF 1(3) TrueI 1(2)] by blast
  obtain c3 where 3: "read_i64_le c2 = Some (timestamp, c3)" "rest c3 = ?r4" "cursor_ok c3"
    using w_i64_le.rd_step [OF 2(3) assms(3) 2(2)] by blast
  obtain c4 where 4: "parse_version_netaddr c3 = Some (\<lparr>vna_services = s1,
      vna_host = fst (decode_legacy_ip ip1), vna_port = p1\<rparr>, c4)" "rest c4 = ?r5" "cursor_ok c4"
    using parse_version_netaddr_step [OF 3(3) assms(6) 3(2)] by blast
  obtain c5 where 5: "parse_version_netaddr c4 = Some (\<lparr>vna_services = s2,
      vna_host = fst (decode_legacy_ip ip2), vna_port = p2\<rparr>, c5)" "rest c5 = ?r6" "cursor_ok c5"
    using parse_version_netaddr_step [OF 4(3) assms(7) 4(2)] by blast
  obtain c6 where 6: "read_u64_le c5 = Some (nonce, c6)" "rest c6 = ?r7" "cursor_ok c6"
    using w_u64_le.rd_step [OF 5(3) TrueI 5(2)] by blast
  obtain c7 where 7: "compact_size_canonical c6 = Some (word_of_nat (length ua), c7)"
    "rest c7 = ?r8" "cursor_ok c7"
    using w_canonical.rd_step [OF 6(3) TrueI 6(2)] by blast
  have ua: "unat (word_of_nat (length ua) :: u64) = length ua"
    using assms(5) by (simp add: MAX_SUBVERSION_LENGTH_def unat_of_nat)
  obtain c8 where 8: "cursor_take (length ua) c7 = Some (ua, c8)" "rest c8 = ?r9" "cursor_ok c8"
    using w_bytes.rd_step [OF 7(3) refl] 7(2) by (metis id_apply)
  obtain c9 where 9: "read_i32_le c8 = Some (latest, c9)" "rest c9 = tail" "cursor_ok c9"
    using w_i32_le.rd_step [OF 8(3) assms(4) 8(2)] by blast
  have 10: "(case read_u8 c9 of Some (byte, _) \<Rightarrow> byte \<noteq> 0 | None \<Rightarrow> True) \<longleftrightarrow>
      (tail \<noteq> [] \<longrightarrow> hd tail \<noteq> 0)"
  proof (cases tail)
    case Nil
    have "read_u8 c9 = None"
    proof (cases "read_u8 c9")
      case (Some p)
      then obtain b c' where "read_u8 c9 = Some (b, c')" by (cases p) auto
      with w_u8.rest_rd [OF 9(3) this] 9(2) Nil show ?thesis by simp
    qed
    with Nil show ?thesis by simp
  next
    case (Cons b bs)
    with read_u8_Cons [OF 9(3)] 9(2) show ?thesis by simp
  qed
  show ?thesis
    using assms(2,5)
    by (simp add: parse_version_def Let_def 1 2 3 4 5 6 7 8 9 10 ua)
qed

lemma zero_netaddr_eq:
  "zero_netaddr = netaddr_bytes 0 [0, 0, 0, 0, 0, 0, 0, 0, 0, 0, 0xFF, 0xFF, 0, 0, 0, 0] 0"
  by (simp add: zero_netaddr_def netaddr_bytes_def)

lemma build_version_eq:
  "build_version ts nonce =
     version_bytes PROTOCOL_VERSION 0 ts zero_netaddr zero_netaddr nonce (str_bytes USER_AGENT) 0 [0]"
  by (simp add: build_version_def version_bytes_def)

subsection \<open>addr: exactly the well-formed payloads\<close>

text \<open>
  A record of \<open>addr\<close> on the wire is a timestamp, services, 16 address bytes and a port; the
  reader of a record is the composition of the cursor's readers, so it inherits their law.
\<close>

type_synonym legacy_record = "(u32 \<times> u64) \<times> (bytes \<times> u16)"

definition legacy_bytes :: "legacy_record \<Rightarrow> bytes" where
  "legacy_bytes = enc_pair (enc_pair to_le_bytes to_le_bytes) (enc_pair id to_be_bytes)"

definition legacy_ok :: "legacy_record \<Rightarrow> bool" where
  "legacy_ok = valid_pair (valid_pair (\<lambda>_. True) (\<lambda>_. True)) (valid_pair (\<lambda>b. length b = 16) (\<lambda>_. True))"

definition read_legacy :: "legacy_record wire" where
  "read_legacy = rd_pair (rd_pair read_u32_le read_u64_le) (rd_pair (cursor_take 16) read_u16_be)"

interpretation lg_stamp: wire_pair "to_le_bytes :: u32 \<Rightarrow> bytes" "\<lambda>_. True" read_u32_le
    "to_le_bytes :: u64 \<Rightarrow> bytes" "\<lambda>_. True" read_u64_le
  by unfold_locales

interpretation lg_addr: wire_pair id "\<lambda>b. length b = 16" "cursor_take 16"
    "to_be_bytes :: u16 \<Rightarrow> bytes" "\<lambda>_. True" read_u16_be
  by unfold_locales

interpretation lg_pair: wire_pair "enc_pair to_le_bytes to_le_bytes" "valid_pair (\<lambda>_. True) (\<lambda>_. True)"
    "rd_pair read_u32_le read_u64_le"
    "enc_pair id to_be_bytes" "valid_pair (\<lambda>b. length b = 16) (\<lambda>_. True)"
    "rd_pair (cursor_take 16) read_u16_be"
  by unfold_locales

interpretation lg: wire_reader legacy_bytes legacy_ok read_legacy
  unfolding legacy_bytes_def legacy_ok_def read_legacy_def by (rule lg_pair.P.wire_reader_axioms)

definition legacy_addr :: "legacy_record \<Rightarrow> advertised_addr" where
  "legacy_addr = (\<lambda>((ts, services), (ip, port)).
     \<lparr>ad_host = fst (decode_legacy_ip ip), ad_port = port, ad_network = snd (decode_legacy_ip ip),
      ad_timestamp = uint ts, ad_services = services, ad_wire_network_id = 2\<rparr>)"

lemma parse_addr_entry_eq:
  "parse_addr_entry c =
     and_then (ok_or NonCanonicalOrTruncated (read_legacy c)) (\<lambda>(r, c). Inr (legacy_addr r, c))"
proof (cases "read_u32_le c")
  case None
  then show ?thesis by (simp add: parse_addr_entry_def read_legacy_def rd_pair_def)
next
  case (Some p)
  then obtain ts c1 where 1: "read_u32_le c = Some (ts, c1)" by (cases p) auto
  show ?thesis
  proof (cases "read_u64_le c1")
    case None
    with 1 show ?thesis by (simp add: parse_addr_entry_def read_legacy_def rd_pair_def)
  next
    case (Some p)
    then obtain sv c2 where 2: "read_u64_le c1 = Some (sv, c2)" by (cases p) auto
    show ?thesis
    proof (cases "cursor_take 16 c2")
      case None
      with 1 2 show ?thesis by (simp add: parse_addr_entry_def read_legacy_def rd_pair_def)
    next
      case (Some p)
      then obtain ip c3 where 3: "cursor_take 16 c2 = Some (ip, c3)" by (cases p) auto
      with 1 2 show ?thesis
        by (cases "read_u16_be c3")
          (auto simp: parse_addr_entry_def read_legacy_def rd_pair_def legacy_addr_def split_def Let_def)
    qed
  qed
qed

text \<open>A vector of encoded values and the loop that reads it.\<close>

definition vec_bytes :: "('a \<Rightarrow> bytes) \<Rightarrow> 'a list \<Rightarrow> bytes" where
  "vec_bytes enc rs = concat (map enc rs)"

lemma vec_bytes_Cons [simp]: "vec_bytes enc (r # rs) = enc r @ vec_bytes enc rs"
  by (simp add: vec_bytes_def)

lemma vec_bytes_Nil [simp]: "vec_bytes enc [] = []"
  by (simp add: vec_bytes_def)

lemma parse_addr_loop_iff:
  assumes "cursor_ok c"
  shows "parse_addr_loop n c out = Inr (out', c') \<longleftrightarrow>
    (\<exists>rs. length rs = n \<and> list_all legacy_ok rs \<and> (\<exists>t. rest c = vec_bytes legacy_bytes rs @ t) \<and>
       c' = advance c (length (vec_bytes legacy_bytes rs)) \<and> out' = out @ map legacy_addr rs)"
  using assms
proof (induction n arbitrary: c out)
  case 0
  then show ?case by auto
next
  case (Suc n)
  show ?case (is "?L \<longleftrightarrow> ?R")
  proof
    assume ?L
    then obtain r c1 where r: "read_legacy c = Some (r, c1)"
      and l: "parse_addr_loop n c1 (out @ [legacy_addr r]) = Inr (out', c')"
      by (auto simp: parse_addr_entry_eq res_simps)
    note ok1 = lg.cursor_ok_rd [OF Suc.prems r]
    from l [unfolded Suc.IH [OF ok1]] obtain rs where rs: "length rs = n" "list_all legacy_ok rs"
      "\<exists>t. rest c1 = vec_bytes legacy_bytes rs @ t"
      "c' = advance c1 (length (vec_bytes legacy_bytes rs))"
      "out' = (out @ [legacy_addr r]) @ map legacy_addr rs" by blast
    have r': "legacy_ok r" "c1 = advance c (length (legacy_bytes r))"
      "rest c = legacy_bytes r @ rest c1"
      using lg.rd_inv [OF Suc.prems r] lg.rest_rd [OF Suc.prems r] by blast+
    from rs(3) obtain t where "rest c1 = vec_bytes legacy_bytes rs @ t" by blast
    with r'(3) have "rest c = vec_bytes legacy_bytes (r # rs) @ t" by simp
    moreover from rs(4) have "c' = advance c (length (vec_bytes legacy_bytes (r # rs)))"
      unfolding r'(2) by (simp add: advance_advance)
    moreover from rs(5) have "out' = out @ map legacy_addr (r # rs)" by simp
    moreover from rs(1,2) r'(1) have "length (r # rs) = Suc n" "list_all legacy_ok (r # rs)"
      by simp_all
    ultimately show ?R by blast
  next
    assume ?R
    then obtain r rs t where rs: "length rs = n" "legacy_ok r" "list_all legacy_ok rs"
      "rest c = legacy_bytes r @ vec_bytes legacy_bytes rs @ t"
      "c' = advance c (length (legacy_bytes r @ vec_bytes legacy_bytes rs))"
      "out' = out @ legacy_addr r # map legacy_addr rs"
      by (auto simp: length_Suc_conv)
    note r = lg.rd_enc [OF Suc.prems rs(2,4)]
    note ok1 = lg.cursor_ok_rd [OF Suc.prems r]
    have "parse_addr_loop n (advance c (length (legacy_bytes r))) (out @ [legacy_addr r]) =
        Inr (out', c')"
      unfolding Suc.IH [OF ok1] using rs
      by (intro exI [of _ rs]) (auto simp: advance_advance)
    with r show ?L by (simp add: parse_addr_entry_eq)
  qed
qed

lemma parse_addr_iff_records:
  assumes "length payload < usize_bound"
  shows "parse_addr payload = Inr m \<longleftrightarrow>
    (\<exists>rs. length rs \<le> MAX_ADDR_TO_SEND \<and> list_all legacy_ok rs \<and>
       payload = write_compact_size (word_of_nat (length rs)) @ vec_bytes legacy_bytes rs \<and>
       m = \<lparr>declared_count = word_of_nat (length rs), pm_addrs = map legacy_addr rs,
            unknown_entries = 0\<rparr>)"
  (is "?L \<longleftrightarrow> ?R")
proof
  have ok: "cursor_ok (cursor_new payload)" using assms by simp
  assume ?L
  then obtain count c out c' where
    1: "compact_size_canonical (cursor_new payload) = Some (count, c)"
    and 2: "unat count \<le> MAX_ADDR_TO_SEND"
    and 3: "parse_addr_loop (unat count) c [] = Inr (out, c')"
    and 4: "rest c' = []" "m = \<lparr>declared_count = count, pm_addrs = out, unknown_entries = 0\<rparr>"
    by (auto simp: parse_addr_def res_simps check_addr_count_def finish_addr_parse_def
        remaining_rest split: if_splits)
  note okc = w_canonical.cursor_ok_rd [OF ok 1]
  have pay: "payload = write_compact_size count @ rest c" using w_canonical.rest_rd [OF ok 1] by simp
  from 3 [unfolded parse_addr_loop_iff [OF okc]] obtain rs t where
    rs: "length rs = unat count" "list_all legacy_ok rs" "rest c = vec_bytes legacy_bytes rs @ t"
    "c' = advance c (length (vec_bytes legacy_bytes rs))" "out = map legacy_addr rs" by auto
  with 4 have "t = []" by simp
  moreover from rs(1) have "count = word_of_nat (length rs)" by simp
  ultimately show ?R using pay rs 2 4 by (intro exI [of _ rs]) auto
next
  have ok: "cursor_ok (cursor_new payload)" using assms by simp
  assume ?R
  then obtain rs where n: "length rs \<le> MAX_ADDR_TO_SEND" and rs: "list_all legacy_ok rs"
    and pay: "payload = write_compact_size (word_of_nat (length rs)) @ vec_bytes legacy_bytes rs"
    and m: "m = \<lparr>declared_count = word_of_nat (length rs), pm_addrs = map legacy_addr rs,
            unknown_entries = 0\<rparr>" by blast
  have cnt: "unat (word_of_nat (length rs) :: u64) = length rs"
    using n by (simp add: MAX_ADDR_TO_SEND_def unat_of_nat)
  obtain c where 1: "compact_size_canonical (cursor_new payload) = Some (word_of_nat (length rs), c)"
    "rest c = vec_bytes legacy_bytes rs" "cursor_ok c"
    using w_canonical.rd_step [OF ok TrueI] pay by (metis rest_new)
  have "parse_addr_loop (length rs) c [] =
      Inr (map legacy_addr rs, advance c (length (vec_bytes legacy_bytes rs)))"
    unfolding parse_addr_loop_iff [OF 1(3)] using rs 1(2) by auto
  with 1 n m cnt show ?L
    by (simp add: parse_addr_def check_addr_count_def finish_addr_parse_def remaining_rest)
qed

subsection \<open>addrv2: exactly the well-formed payloads\<close>

text \<open>
  A record of \<open>addrv2\<close>: timestamp, services, network id, address bytes with their length, port.
  It is well formed when the length is at most 512 and the one of its network, and the address
  is one its network can hold.
\<close>

record v2_record =
  r2_ts :: u32
  r2_services :: u64
  r2_net :: u8
  r2_addr :: bytes
  r2_port :: u16

definition v2_bytes :: "v2_record \<Rightarrow> bytes" where
  "v2_bytes r =
     to_le_bytes (r2_ts r) @ write_compact_size (r2_services r) @ [r2_net r] @
     write_compact_size (word_of_nat (length (r2_addr r))) @ r2_addr r @ to_be_bytes (r2_port r)"

definition v2_ok :: "crates \<Rightarrow> v2_record \<Rightarrow> bool" where
  "v2_ok cr r \<longleftrightarrow>
     length (r2_addr r) \<le> 512 \<and>
     length (r2_addr r) = expected_addr_len (r2_net r) (length (r2_addr r)) \<and>
     (\<exists>d. decode_addrv2 cr (r2_net r) (r2_addr r) = Inr d)"

definition v2_addr :: "crates \<Rightarrow> v2_record \<Rightarrow> advertised_addr option" where
  "v2_addr cr r =
     (case decode_addrv2 cr (r2_net r) (r2_addr r) of
        Inr (Some (host, network)) \<Rightarrow>
          Some \<lparr>ad_host = host, ad_port = r2_port r, ad_network = network,
                ad_timestamp = uint (r2_ts r), ad_services = r2_services r,
                ad_wire_network_id = r2_net r\<rparr>
      | _ \<Rightarrow> None)"

lemma parse_addrv2_entry_iff:
  assumes ok: "cursor_ok c"
  shows "parse_addrv2_entry cr c = Inr (a, c') \<longleftrightarrow>
    (\<exists>r. v2_ok cr r \<and> (\<exists>t. rest c = v2_bytes r @ t) \<and> c' = advance c (length (v2_bytes r)) \<and>
       a = v2_addr cr r)" (is "?L \<longleftrightarrow> ?R")
proof
  assume ?L
  then obtain ts c1 sv c2 nid c3 len c4 ab c5 port d where
    1: "read_u32_le c = Some (ts, c1)" and 2: "compact_size_canonical c1 = Some (sv, c2)" and
    3: "read_u8 c2 = Some (nid, c3)" and 4: "compact_size_canonical c3 = Some (len, c4)" and
    l: "unat len \<le> 512" "unat len = expected_addr_len nid (unat len)" and
    5: "cursor_take (unat len) c4 = Some (ab, c5)" and 6: "read_u16_be c5 = Some (port, c')" and
    d: "decode_addrv2 cr nid ab = Inr d" and
    a: "a = (case d of None \<Rightarrow> None | Some (host, network) \<Rightarrow>
          Some \<lparr>ad_host = host, ad_port = port, ad_network = network, ad_timestamp = uint ts,
                ad_services = sv, ad_wire_network_id = nid\<rparr>)"
    by (auto simp: parse_addrv2_entry_def res_simps Let_def split: if_splits option.splits)
  note o1 = w_u32_le.cursor_ok_rd [OF ok 1]
  note o2 = w_canonical.cursor_ok_rd [OF o1 2]
  note o3 = w_u8.cursor_ok_rd [OF o2 3]
  note o4 = w_canonical.cursor_ok_rd [OF o3 4]
  note o5 = w_bytes.cursor_ok_rd [OF o4 5]
  have ab: "length ab = unat len" using w_bytes.rd_inv [OF o4 5] by simp
  then have len: "word_of_nat (length ab) = len" by simp
  let ?r = "\<lparr>r2_ts = ts, r2_services = sv, r2_net = nid, r2_addr = ab, r2_port = port\<rparr>"
  have "rest c = v2_bytes ?r @ rest c'"
    using w_u32_le.rest_rd [OF ok 1] w_canonical.rest_rd [OF o1 2] w_u8.rest_rd [OF o2 3]
      w_canonical.rest_rd [OF o3 4] w_bytes.rest_rd [OF o4 5] w_u16_be.rest_rd [OF o5 6]
    by (simp add: v2_bytes_def len)
  moreover have "c' = advance c (length (v2_bytes ?r))"
    using w_u32_le.rd_inv [OF ok 1] w_canonical.rd_inv [OF o1 2] w_u8.rd_inv [OF o2 3]
      w_canonical.rd_inv [OF o3 4] w_bytes.rd_inv [OF o4 5] w_u16_be.rd_inv [OF o5 6] ab
    by (simp add: v2_bytes_def len advance_def)
  moreover have "v2_ok cr ?r" using l ab d by (simp add: v2_ok_def)
  moreover have "a = v2_addr cr ?r" using a d by (auto simp: v2_addr_def split: option.splits)
  ultimately show ?R by blast
next
  assume ?R
  then obtain r t where r: "v2_ok cr r" "rest c = v2_bytes r @ t"
    "c' = advance c (length (v2_bytes r))" "a = v2_addr cr r" by blast
  let ?len = "word_of_nat (length (r2_addr r)) :: u64"
  have len: "unat ?len = length (r2_addr r)" using r(1) by (simp add: v2_ok_def unat_of_nat)
  obtain d where d: "decode_addrv2 cr (r2_net r) (r2_addr r) = Inr d" using r(1) by (auto simp: v2_ok_def)
  have r0: "rest c = to_le_bytes (r2_ts r) @ write_compact_size (r2_services r) @ [r2_net r] @
      write_compact_size ?len @ r2_addr r @ to_be_bytes (r2_port r) @ t"
    using r(2) by (simp add: v2_bytes_def)
  note 1 = w_u32_le.rd_enc [OF ok TrueI r0]
  note o1 = w_u32_le.cursor_ok_rd [OF ok 1]
  have 2: "compact_size_canonical (advance c 4) = Some (r2_services r,
      advance (advance c 4) (length (write_compact_size (r2_services r))))"
    using o1 r0 by (intro w_canonical.rd_enc) auto
  let ?c2 = "advance (advance c 4) (length (write_compact_size (r2_services r)))"
  have o2: "cursor_ok ?c2" using w_canonical.cursor_ok_rd [OF _ 2] o1 by simp
  have 3: "read_u8 ?c2 = Some (r2_net r, advance ?c2 1)" "cursor_ok (advance ?c2 1)"
    using read_u8_Cons [OF o2, of "r2_net r"] r0 by simp_all
  let ?c4 = "advance (advance ?c2 1) (length (write_compact_size ?len))"
  have 4: "compact_size_canonical (advance ?c2 1) = Some (?len, ?c4)"
    using 3(2) r0 by (intro w_canonical.rd_enc) auto
  have o4: "cursor_ok ?c4" using w_canonical.cursor_ok_rd [OF 3(2) 4] .
  have 5: "cursor_take (length (r2_addr r)) ?c4 = Some (r2_addr r, advance ?c4 (length (r2_addr r)))"
    using cursor_take_iff [OF o4] r0 by simp
  have o5: "cursor_ok (advance ?c4 (length (r2_addr r)))" using w_bytes.cursor_ok_rd [OF o4 5] .
  have 6: "read_u16_be (advance ?c4 (length (r2_addr r))) =
      Some (r2_port r, advance (advance ?c4 (length (r2_addr r))) 2)"
    using w_u16_be.rd_enc [OF o5 TrueI, of "r2_port r" t] r0 by simp
  have c': "c' = advance (advance ?c4 (length (r2_addr r))) 2"
    using r(3) by (simp add: v2_bytes_def advance_def)
  from 1 2 3 4 5 6 len d r(1) show ?L
    by (auto simp: parse_addrv2_entry_def Let_def v2_ok_def r(4) v2_addr_def c' split: option.splits)
qed

definition v2_known :: "crates \<Rightarrow> v2_record list \<Rightarrow> advertised_addr list" where
  "v2_known cr rs = List.map_filter (v2_addr cr) rs"

definition v2_unknown :: "crates \<Rightarrow> v2_record list \<Rightarrow> nat" where
  "v2_unknown cr rs = length (filter (\<lambda>r. v2_addr cr r = None) rs)"

lemma parse_addrv2_loop_iff:
  assumes "cursor_ok c"
  shows "parse_addrv2_loop cr n c out unknown = Inr (out', unknown', c') \<longleftrightarrow>
    (\<exists>rs. length rs = n \<and> list_all (v2_ok cr) rs \<and> (\<exists>t. rest c = vec_bytes v2_bytes rs @ t) \<and>
       c' = advance c (length (vec_bytes v2_bytes rs)) \<and> out' = out @ v2_known cr rs \<and>
       unknown' = unknown + word_of_nat (v2_unknown cr rs))"
  using assms
proof (induction n arbitrary: c out unknown)
  case 0
  then show ?case by (auto simp: v2_known_def v2_unknown_def map_filter_simps)
next
  case (Suc n)
  show ?case (is "?L \<longleftrightarrow> ?R")
  proof
    assume ?L
    then obtain a c1 where e: "parse_addrv2_entry cr c = Inr (a, c1)"
      and l: "parse_addrv2_loop cr n c1 (case a of None \<Rightarrow> out | Some a \<Rightarrow> out @ [a])
          (case a of None \<Rightarrow> unknown + 1 | Some a \<Rightarrow> unknown) = Inr (out', unknown', c')"
      by (auto simp: res_simps split: option.splits)
    from e [unfolded parse_addrv2_entry_iff [OF Suc.prems]] obtain r t where
      r: "v2_ok cr r" "rest c = v2_bytes r @ t" "c1 = advance c (length (v2_bytes r))" "a = v2_addr cr r"
      by blast
    have ok1: "cursor_ok c1" using cursor_ok_advance [OF Suc.prems r(2)] r(3) by simp
    from l [unfolded Suc.IH [OF ok1]] obtain rs where rs: "length rs = n" "list_all (v2_ok cr) rs"
      "\<exists>t. rest c1 = vec_bytes v2_bytes rs @ t" "c' = advance c1 (length (vec_bytes v2_bytes rs))"
      "out' = (case a of None \<Rightarrow> out | Some a \<Rightarrow> out @ [a]) @ v2_known cr rs"
      "unknown' = (case a of None \<Rightarrow> unknown + 1 | Some a \<Rightarrow> unknown) + word_of_nat (v2_unknown cr rs)"
      by blast
    from r rs show ?R
      by (intro exI [of _ "r # rs"])
        (auto simp: advance_advance v2_known_def v2_unknown_def map_filter_simps split: option.splits)
  next
    assume ?R
    then obtain r rs t where rs: "length rs = n" "v2_ok cr r" "list_all (v2_ok cr) rs"
      "rest c = v2_bytes r @ vec_bytes v2_bytes rs @ t"
      "c' = advance c (length (v2_bytes r @ vec_bytes v2_bytes rs))"
      "out' = out @ v2_known cr (r # rs)"
      "unknown' = unknown + word_of_nat (v2_unknown cr (r # rs))"
      by (auto simp: length_Suc_conv)
    let ?c1 = "advance c (length (v2_bytes r))"
    have e: "parse_addrv2_entry cr c = Inr (v2_addr cr r, ?c1)"
      unfolding parse_addrv2_entry_iff [OF Suc.prems] using rs by blast
    have ok1: "cursor_ok ?c1" using cursor_ok_advance [OF Suc.prems rs(4)] .
    let ?out = "case v2_addr cr r of None \<Rightarrow> out | Some a \<Rightarrow> out @ [a]"
    let ?unk = "case v2_addr cr r of None \<Rightarrow> unknown + 1 | Some a \<Rightarrow> unknown"
    have "parse_addrv2_loop cr n ?c1 ?out ?unk = Inr (out', unknown', c')"
      unfolding Suc.IH [OF ok1] using rs
      by (intro exI [of _ rs])
        (auto simp: advance_advance v2_known_def v2_unknown_def map_filter_simps split: option.splits)
    with e show ?L by (auto split: option.splits)
  qed
qed

lemma v2_known_unknown: "length (v2_known cr rs) + v2_unknown cr rs = length rs"
  by (induction rs) (auto simp: v2_known_def v2_unknown_def map_filter_simps split: option.splits)

lemma parse_addrv2_iff_records:
  assumes "length payload < usize_bound"
  shows "parse_addrv2 cr payload = Inr m \<longleftrightarrow>
    (\<exists>rs. length rs \<le> MAX_ADDR_TO_SEND \<and> list_all (v2_ok cr) rs \<and>
       payload = write_compact_size (word_of_nat (length rs)) @ vec_bytes v2_bytes rs \<and>
       m = \<lparr>declared_count = word_of_nat (length rs), pm_addrs = v2_known cr rs,
            unknown_entries = word_of_nat (v2_unknown cr rs)\<rparr>)"
  (is "?L \<longleftrightarrow> ?R")
proof
  have ok: "cursor_ok (cursor_new payload)" using assms by simp
  assume ?L
  then obtain count c out unk c' where
    1: "compact_size_canonical (cursor_new payload) = Some (count, c)"
    and 2: "unat count \<le> MAX_ADDR_TO_SEND"
    and 3: "parse_addrv2_loop cr (unat count) c [] 0 = Inr (out, unk, c')"
    and 4: "rest c' = []" "m = \<lparr>declared_count = count, pm_addrs = out, unknown_entries = unk\<rparr>"
    by (auto simp: parse_addrv2_def res_simps check_addr_count_def finish_addr_parse_def
        remaining_rest split: if_splits)
  note okc = w_canonical.cursor_ok_rd [OF ok 1]
  have pay: "payload = write_compact_size count @ rest c" using w_canonical.rest_rd [OF ok 1] by simp
  from 3 [unfolded parse_addrv2_loop_iff [OF okc]] obtain rs t where
    rs: "length rs = unat count" "list_all (v2_ok cr) rs" "rest c = vec_bytes v2_bytes rs @ t"
    "c' = advance c (length (vec_bytes v2_bytes rs))" "out = v2_known cr rs"
    "unk = word_of_nat (v2_unknown cr rs)" by auto
  with 4 have "t = []" by simp
  moreover from rs(1) have "count = word_of_nat (length rs)" by simp
  ultimately show ?R using pay rs 2 4 by (intro exI [of _ rs]) auto
next
  have ok: "cursor_ok (cursor_new payload)" using assms by simp
  assume ?R
  then obtain rs where n: "length rs \<le> MAX_ADDR_TO_SEND" and rs: "list_all (v2_ok cr) rs"
    and pay: "payload = write_compact_size (word_of_nat (length rs)) @ vec_bytes v2_bytes rs"
    and m: "m = \<lparr>declared_count = word_of_nat (length rs), pm_addrs = v2_known cr rs,
            unknown_entries = word_of_nat (v2_unknown cr rs)\<rparr>" by blast
  have cnt: "unat (word_of_nat (length rs) :: u64) = length rs"
    using n by (simp add: MAX_ADDR_TO_SEND_def unat_of_nat)
  obtain c where 1: "compact_size_canonical (cursor_new payload) = Some (word_of_nat (length rs), c)"
    "rest c = vec_bytes v2_bytes rs" "cursor_ok c"
    using w_canonical.rd_step [OF ok TrueI] pay by (metis rest_new)
  have "parse_addrv2_loop cr (length rs) c [] 0 =
      Inr (v2_known cr rs, word_of_nat (v2_unknown cr rs), advance c (length (vec_bytes v2_bytes rs)))"
    unfolding parse_addrv2_loop_iff [OF 1(3)] using rs 1(2) by auto
  with 1 n m cnt show ?L
    by (simp add: parse_addrv2_def check_addr_count_def finish_addr_parse_def remaining_rest)
qed

subsection \<open>Properties\<close>

lemma user_agent_length: "length (decode_user_agent bs) \<le> 2 * length bs"
  by (simp add: decode_user_agent_def)

lemma zero_netaddr_host:
  "fst (decode_legacy_ip [0, 0, 0, 0, 0, 0, 0, 0, 0, 0, 0xFF, 0xFF, 0, 0, 0, 0]) = ''0.0.0.0''"
  by code_simp

lemma user_agent_valid: "decode_user_agent (str_bytes USER_AGENT) = USER_AGENT"
  by code_simp

lemma length_USER_AGENT [simp]: "length USER_AGENT = 23"
  by (simp add: USER_AGENT_def)

lemma parse_own_version:
  assumes "is_i64 timestamp"
  shows "parse_version (build_version timestamp nonce) =
    Some \<lparr>vd_version = 70016, vd_services = 0, vd_timestamp = timestamp,
          vd_user_agent = USER_AGENT, vd_latest_block = 0, vd_relay = False,
          vd_addr_recv = \<lparr>vna_services = 0, vna_host = ''0.0.0.0'', vna_port = 0\<rparr>,
          vd_addr_from = Some \<lparr>vna_services = 0, vna_host = ''0.0.0.0'', vna_port = 0\<rparr>,
          vd_nonce = Some nonce\<rparr>"
proof -
  have v: "is_i32 70016" "is_i32 0" by (simp_all add: is_i32_def)
  have len: "length (version_bytes 70016 0 timestamp zero_netaddr zero_netaddr nonce
      (str_bytes USER_AGENT) 0 [0]) < usize_bound"
    by (simp add: version_bytes_def zero_netaddr_def i32_bytes_def i64_bytes_def
        write_compact_size_def)
  show ?thesis
    unfolding build_version_eq PROTOCOL_VERSION_def
    using parse_version_bytes [OF v(1) _ assms v(2), of "str_bytes USER_AGENT" _ _ 0 0 0 0 0 nonce "[0]",
        OF _ _ _ _ len [unfolded zero_netaddr_eq]]
    by (simp add: zero_netaddr_eq zero_netaddr_host user_agent_valid MAX_SUBVERSION_LENGTH_def)
qed

text \<open>A message with one IPv4 record, for the instances below.\<close>

definition sample_record :: v2_record where
  "sample_record = \<lparr>r2_ts = 7, r2_services = 9, r2_net = 1, r2_addr = [1, 2, 3, 4], r2_port = 8333\<rparr>"

lemma sample_known: "v2_known cr [sample_record] =
    [\<lparr>ad_host = ''1.2.3.4'', ad_port = 8333, ad_network = Ipv4, ad_timestamp = 7, ad_services = 9,
      ad_wire_network_id = 1\<rparr>]"
proof -
  have "show_v4 (1, 2, 3, 4) = ''1.2.3.4''" by code_simp
  then show ?thesis
    by (simp add: sample_record_def v2_known_def v2_addr_def decode_addrv2_def map_filter_simps)
qed

lemma sample_length: "length (1 # v2_bytes sample_record) < usize_bound"
  by (simp add: sample_record_def v2_bytes_def write_compact_size_def)

lemma sample_payload:
  "1 # v2_bytes sample_record =
     write_compact_size (word_of_nat (length [sample_record])) @ vec_bytes v2_bytes [sample_record]"
  by (simp add: write_compact_size_def)

lemma sample_ok: "v2_ok cr sample_record"
  by (simp add: sample_record_def v2_ok_def expected_addr_len_def decode_addrv2_def)

lemma sample_parse:
  "parse_addrv2 cr (1 # v2_bytes sample_record) =
     Inr \<lparr>declared_count = 1, pm_addrs = v2_known cr [sample_record], unknown_entries = 0\<rparr>"
proof -
  have "v2_unknown cr [sample_record] = 0"
    using v2_known_unknown [of cr "[sample_record]"] by (simp add: sample_known)
  then show ?thesis
    unfolding parse_addrv2_iff_records [OF sample_length] using sample_payload sample_ok
    by (intro exI [of _ "[sample_record]"]) (simp add: MAX_ADDR_TO_SEND_def)
qed

text \<open>C24: A legacy \<open>addr\<close> payload is parsed into a message exactly when it is the canonical count of
  at most 1000 records followed by precisely those 30-byte records; the result lists them in order,
  with no unknown entry. Any truncation, non-minimal count, surplus record or trailing byte is an
  error and yields no prefix. (The repository's SPECIFICATION_v2.md says otherwise in 4.3 and 6.3: that a truncated
  message returns what was decoded so far, and a truncated count an empty result, without raising.)\<close>

theorem parse_addr_exact:
  assumes "length payload < usize_bound"
  shows "parse_addr payload = Inr m \<longleftrightarrow>
    (\<exists>rs. length rs \<le> 1000 \<and> list_all legacy_ok rs \<and>
       payload = write_compact_size (word_of_nat (length rs)) @ vec_bytes legacy_bytes rs \<and>
       m = \<lparr>declared_count = word_of_nat (length rs), pm_addrs = map legacy_addr rs,
            unknown_entries = 0\<rparr>)"
  using parse_addr_iff_records [OF assms, of m] by (simp add: MAX_ADDR_TO_SEND_def)

lemma parse_addr_exact_witness:
  "parse_addr (1 # legacy_bytes ((7, 9), (replicate 16 0, 8333))) =
     Inr \<lparr>declared_count = 1, pm_addrs = [legacy_addr ((7, 9), (replicate 16 0, 8333))],
          unknown_entries = 0\<rparr>"
proof -
  let ?r = "((7, 9), (replicate 16 0, 8333)) :: legacy_record"
  let ?m = "\<lparr>declared_count = 1, pm_addrs = [legacy_addr ?r], unknown_entries = 0\<rparr>"
  have len: "length (1 # legacy_bytes ?r) < usize_bound"
    by (simp add: legacy_bytes_def enc_pair_def)
  have "1 # legacy_bytes ?r = write_compact_size (word_of_nat (length [?r])) @ vec_bytes legacy_bytes [?r]"
    by (simp add: write_compact_size_def)
  moreover have "list_all legacy_ok [?r]" by (simp add: legacy_ok_def valid_pair_def)
  ultimately show ?thesis
    unfolding parse_addr_exact [OF len, of ?m] by (intro exI [of _ "[?r]"]) simp
qed

text \<open>C13: A BIP155 \<open>addrv2\<close> payload is parsed into a message exactly when it is the canonical count
  of at most 1000 well-formed records and nothing else; the result lists the records of known
  networks in order and counts the others, and known and unknown records add up to the count.
  So a truncated message or a wrong length for a known network is refused as a whole, and a record of an unknown
  network is counted and passed over. (SPECIFICATION_v2.md says otherwise in 4.3 and 6.3: that truncation, an
  unknown id or a wrong length stops and returns what was decoded so far, without raising.)\<close>

theorem parse_addrv2_exact:
  assumes "length payload < usize_bound"
  shows "parse_addrv2 cr payload = Inr m \<longleftrightarrow>
    (\<exists>rs. length rs \<le> 1000 \<and> list_all (v2_ok cr) rs \<and>
       payload = write_compact_size (word_of_nat (length rs)) @ vec_bytes v2_bytes rs \<and>
       pm_addrs m = v2_known cr rs \<and>
       declared_count m = word_of_nat (length rs) \<and>
       unat (unknown_entries m) + length (pm_addrs m) = unat (declared_count m))"
    (is "?L \<longleftrightarrow> ?R")
proof -
  have cnt: "unat (word_of_nat n :: u64) = n" if "n \<le> 1000" for n
    using that by (simp add: unat_of_nat)
  have small: "v2_unknown cr rs \<le> length rs" for rs using v2_known_unknown [of cr rs] by linarith
  show ?thesis
  proof
    assume ?L
    then show ?R
      unfolding parse_addrv2_iff_records [OF assms] MAX_ADDR_TO_SEND_def
    proof (elim exE conjE)
      fix rs
      assume rs: "length rs \<le> 1000" "list_all (v2_ok cr) rs"
        "payload = write_compact_size (word_of_nat (length rs)) @ vec_bytes v2_bytes rs"
        "m = \<lparr>declared_count = word_of_nat (length rs), pm_addrs = v2_known cr rs,
          unknown_entries = word_of_nat (v2_unknown cr rs)\<rparr>"
      have "v2_unknown cr rs \<le> 1000" using rs(1) small [of rs] by linarith
      then have "unat (unknown_entries m) + length (pm_addrs m) = unat (declared_count m)"
        using rs(1,4) cnt v2_known_unknown [of cr rs] by simp
      with rs show ?R by (intro exI [of _ rs] conjI) simp_all
    qed
  next
    assume ?R
    then obtain rs where rs: "length rs \<le> 1000" "list_all (v2_ok cr) rs"
      "payload = write_compact_size (word_of_nat (length rs)) @ vec_bytes v2_bytes rs"
      "pm_addrs m = v2_known cr rs" "declared_count m = word_of_nat (length rs)"
      "unat (unknown_entries m) + length (pm_addrs m) = unat (declared_count m)" by blast
    have "unat (unknown_entries m) = v2_unknown cr rs"
      using rs(4-6) cnt [OF rs(1)] v2_known_unknown [of cr rs] by simp
    then have "word_of_nat (unat (unknown_entries m)) = (word_of_nat (v2_unknown cr rs) :: u64)" by simp
    then have "unknown_entries m = word_of_nat (v2_unknown cr rs)" by simp
    with rs show ?L unfolding parse_addrv2_iff_records [OF assms] MAX_ADDR_TO_SEND_def
      by (intro exI [of _ rs]) auto
  qed
qed

lemma parse_addrv2_exact_witness:
  "\<exists>m. parse_addrv2 rfc4648_crates (1 # v2_bytes sample_record) = Inr m \<and> length (pm_addrs m) = 1"
proof -
  let ?m = "\<lparr>declared_count = 1, pm_addrs = v2_known rfc4648_crates [sample_record], unknown_entries = 0\<rparr>"
  have "parse_addrv2 rfc4648_crates (1 # v2_bytes sample_record) = Inr ?m"
    unfolding parse_addrv2_exact [OF sample_length] using sample_payload sample_ok
    by (intro exI [of _ "[sample_record]"]) (simp add: sample_known)
  then show ?thesis by (auto simp: sample_known)
qed

text \<open>C22: Every host that an \<open>addrv2\<close> message yields, whatever the network, is one that the crawler's
  own classifier puts in that network: IP texts, base32 onion and i2p labels and their checksums
  are built so that the crawler can connect to what it learns.\<close>

theorem addrv2_hosts_classified:
  assumes "crates_ok cr" "length payload < usize_bound" "parse_addrv2 cr payload = Inr m"
    and "a \<in> set (pm_addrs m)"
  shows "classify cr (ad_host a) = ad_network a \<and> ad_network a \<noteq> Unknown"
proof -
  obtain rs where rs: "list_all (v2_ok cr) rs" "pm_addrs m = v2_known cr rs"
    using assms(3) unfolding parse_addrv2_iff_records [OF assms(2)] by auto
  with assms(4) obtain r where "r \<in> set rs" and a: "v2_addr cr r = Some a"
    by (auto simp: v2_known_def List.map_filter_def)
  with rs have ok: "v2_ok cr r" by (simp add: list_all_iff)
  from a obtain host net where
    d: "decode_addrv2 cr (r2_net r) (r2_addr r) = Inr (Some (host, net))"
    and h: "ad_host a = host" "ad_network a = net"
    by (auto simp: v2_addr_def split: sum.splits option.splits)
  have "net \<noteq> Unknown"
    using d by (auto simp: decode_addrv2_def and_then_Inr_iff split: if_splits)
  moreover have "classify cr host = net"
    using ok by (intro decode_addrv2_classify [OF assms(1) _ d]) (simp add: v2_ok_def)
  ultimately show ?thesis by (simp add: h)
qed

lemma addrv2_hosts_classified_witness:
  "\<exists>m a. parse_addrv2 rfc4648_crates (1 # v2_bytes sample_record) = Inr m \<and> a \<in> set (pm_addrs m) \<and>
     classify rfc4648_crates (ad_host a) = ad_network a"
proof -
  have "hd (v2_known rfc4648_crates [sample_record]) \<in> set (v2_known rfc4648_crates [sample_record])"
    by (simp add: sample_known)
  with addrv2_hosts_classified [OF rfc4648_crates_ok sample_length sample_parse] sample_parse
  show ?thesis by fastforce
qed

text \<open>C25: The \<open>version\<close> payload the crawler builds is parsed back, field by field, to what it was
  built from, with zero services, the unspecified address and no relay.\<close>

theorem parse_build_version:
  assumes "is_i64 timestamp"
  shows "parse_version (build_version timestamp nonce) =
    Some \<lparr>vd_version = 70016, vd_services = 0, vd_timestamp = timestamp,
          vd_user_agent = USER_AGENT, vd_latest_block = 0, vd_relay = False,
          vd_addr_recv = \<lparr>vna_services = 0, vna_host = ''0.0.0.0'', vna_port = 0\<rparr>,
          vd_addr_from = Some \<lparr>vna_services = 0, vna_host = ''0.0.0.0'', vna_port = 0\<rparr>,
          vd_nonce = Some nonce\<rparr>"
  by (rule parse_own_version [OF assms])

lemma parse_build_version_witness:
  "\<exists>v. parse_version (build_version 1700000000 42) = Some v \<and> vd_nonce v = Some 42"
  using parse_build_version [of 1700000000 42] by (simp add: is_i64_def)

text \<open>C33: Whatever the peer sends, a parsed \<open>version\<close> holds a user agent of at most 512 characters (the
  hex text of 256 bytes that are not UTF-8), and below protocol version 106 none at all.\<close>

theorem parse_version_user_agent_bound:
  assumes "parse_version payload = Some v"
  shows "length (vd_user_agent v) \<le> 512 \<and> (vd_version v < 106 \<longrightarrow> vd_user_agent v = [] \<and> vd_nonce v = None)"
proof -
  have *: "length ua \<le> 256" if "cursor_take n c = Some (ua, c')" "n \<le> MAX_SUBVERSION_LENGTH" for n c ua c'
    using that by (auto simp: cursor_take_def Let_def MAX_SUBVERSION_LENGTH_def split: if_splits)
  have "length (decode_user_agent ua) \<le> 512"
    if "cursor_take n c = Some (ua, c')" "\<not> n > MAX_SUBVERSION_LENGTH" for n c ua c'
    using * [OF that(1)] that(2) user_agent_length [of ua] by linarith
  with assms show ?thesis
    by (auto simp: parse_version_def Let_def bind_eq_Some_conv split: if_splits)
qed

lemma parse_version_user_agent_bound_witness:
  "\<exists>v. parse_version (build_version 0 0) = Some v \<and> length (vd_user_agent v) \<le> 512"
proof -
  have "\<exists>v. parse_version (build_version 0 0) = Some v"
    using parse_own_version [of 0 0] by (simp add: is_i64_def)
  with parse_version_user_agent_bound show ?thesis by blast
qed

lemma decode_addrv2_ip:
  assumes len: "length bs = expected_addr_len net_id (length bs)"
    and dec: "decode_addrv2 cr net_id bs = Inr (Some (host, net))"
    and net: "network_transport net = TransportIp"
  shows "parse_ip host = Some bs"
proof -
  consider "net_id = 1" | "net_id = 2" | "net_id = 6"
    using dec net by (auto simp: decode_addrv2_def and_then_Inr_iff split: if_splits)
  then show ?thesis
  proof cases
    case 1
    then have "length bs = Suc (Suc (Suc (Suc 0)))" using len by (simp add: expected_addr_len_def)
    then obtain a b c d where "bs = [a, b, c, d]" by (auto simp: length_Suc_conv)
    with dec 1 show ?thesis by (auto simp: decode_addrv2_def show_v4_def parse_ip_show_ipv4)
  qed (use dec len in \<open>auto simp: decode_addrv2_def expected_addr_len_def compact_ipv6_def
      parse_ip_show_ipv6 split: if_splits\<close>)
qed

text \<open>C23: Every host that an \<open>addrv2\<close> message yields for a plain TCP network is a text that the crawler's TCP
  transport reads back as exactly the address bytes of the message: no such node is lost to the
  formatting of its address, whatever zeros it has.\<close>

theorem addrv2_ip_hosts_dialable:
  assumes "length payload < usize_bound" "parse_addrv2 cr payload = Inr m"
    and "a \<in> set (pm_addrs m)" "network_transport (ad_network a) = TransportIp"
  shows "\<exists>ip. parse_ip (ad_host a) = Some ip \<and>
    (\<exists>pre post. payload = pre @ ip @ to_be_bytes (ad_port a) @ post)"
proof -
  obtain rs where rs: "list_all (v2_ok cr) rs" "pm_addrs m = v2_known cr rs"
    and pay: "payload = write_compact_size (word_of_nat (length rs)) @ vec_bytes v2_bytes rs"
    using assms(2) unfolding parse_addrv2_iff_records [OF assms(1)] by auto
  with assms(3) obtain r where r: "r \<in> set rs" and a: "v2_addr cr r = Some a"
    by (auto simp: v2_known_def List.map_filter_def)
  with rs have ok: "v2_ok cr r" by (simp add: list_all_iff)
  from a have d: "decode_addrv2 cr (r2_net r) (r2_addr r) = Inr (Some (ad_host a, ad_network a))"
    and port: "ad_port a = r2_port r"
    by (auto simp: v2_addr_def split: sum.splits option.splits)
  have "parse_ip (ad_host a) = Some (r2_addr r)"
    using ok assms(4) by (intro decode_addrv2_ip [OF _ d]) (simp_all add: v2_ok_def)
  moreover from r obtain xs ys where "rs = xs @ r # ys" by (meson split_list)
  then have "\<exists>pre post. payload = pre @ r2_addr r @ to_be_bytes (ad_port a) @ post"
    unfolding pay port
    by (intro exI [of _ "write_compact_size (word_of_nat (length rs)) @ vec_bytes v2_bytes xs @
          to_le_bytes (r2_ts r) @ write_compact_size (r2_services r) @ [r2_net r] @
          write_compact_size (word_of_nat (length (r2_addr r)))"] exI [of _ "vec_bytes v2_bytes ys"])
      (simp add: vec_bytes_def v2_bytes_def)
  ultimately show ?thesis by blast
qed

lemma addrv2_ip_hosts_dialable_witness:
  "\<exists>m. parse_addrv2 rfc4648_crates (1 # v2_bytes sample_record) = Inr m \<and> pm_addrs m \<noteq> [] \<and>
     (\<exists>ip. parse_ip (ad_host (hd (pm_addrs m))) = Some ip)"
proof -
  define m where "m = \<lparr>declared_count = 1, pm_addrs = v2_known rfc4648_crates [sample_record],
    unknown_entries = 0\<rparr>"
  have p: "parse_addrv2 rfc4648_crates (1 # v2_bytes sample_record) = Inr m"
    unfolding m_def by (rule sample_parse)
  have a: "hd (pm_addrs m) \<in> set (pm_addrs m)" "network_transport (ad_network (hd (pm_addrs m))) = TransportIp"
    "pm_addrs m \<noteq> []"
    by (simp_all add: m_def sample_known)
  from addrv2_ip_hosts_dialable [OF sample_length p a(1,2)] obtain ip where
    "parse_ip (ad_host (hd (pm_addrs m))) = Some ip" by blast
  with p a(3) show ?thesis by blast
qed

text \<open>C35: Every host that a legacy \<open>addr\<close> message yields is classified as the network it is recorded with,
  with one exception: an address of \<open>fc00::/8\<close> is recorded, counted and enabled as IPv6, while the
  classifier, which names the responder's network in the log, calls the same host CJDNS.\<close>

theorem legacy_hosts_classified:
  assumes "length payload < usize_bound" "parse_addr payload = Inr m" "a \<in> set (pm_addrs m)"
  shows "(ad_network a = Ipv4 \<or> ad_network a = Ipv6) \<and>
    (\<exists>ip. length ip = 16 \<and> ad_host a = fst (decode_legacy_ip ip) \<and>
       classify cr (ad_host a) = (if ad_network a = Ipv6 \<and> ip ! 0 = 0xfc then Cjdns else ad_network a))"
proof -
  obtain rs where rs: "list_all legacy_ok rs" "pm_addrs m = map legacy_addr rs"
    using assms(2) unfolding parse_addr_iff_records [OF assms(1)] by auto
  with assms(3) obtain ts services ip port where r: "((ts, services), (ip, port)) \<in> set rs"
    and a: "a = legacy_addr ((ts, services), (ip, port))"
    by auto
  have len: "length ip = 16" using rs(1) r by (auto simp: list_all_iff legacy_ok_def valid_pair_def)
  obtain host net where d: "decode_legacy_ip ip = (host, net)" by fastforce
  have "net = Ipv4 \<or> net = Ipv6" using d by (auto simp: decode_legacy_ip_def split: option.splits)
  with decode_legacy_ip_classify [OF len d, of cr] d len show ?thesis
    by (auto simp: a legacy_addr_def intro!: exI [of _ ip])
qed

lemma legacy_hosts_classified_witness:
  "\<exists>m a. parse_addr (1 # legacy_bytes ((7, 9), (0xfc # replicate 15 0, 8333))) = Inr m \<and>
     pm_addrs m = [a] \<and> ad_network a = Ipv6 \<and> classify rfc4648_crates (ad_host a) = Cjdns"
proof -
  let ?ip = "0xfc # replicate 15 0 :: bytes"
  let ?r = "((7, 9), (?ip, 8333)) :: legacy_record"
  let ?m = "\<lparr>declared_count = 1, pm_addrs = [legacy_addr ?r], unknown_entries = 0\<rparr>"
  have len: "length (1 # legacy_bytes ?r) < usize_bound"
    by (simp add: legacy_bytes_def enc_pair_def)
  have "1 # legacy_bytes ?r = write_compact_size (word_of_nat (length [?r])) @ vec_bytes legacy_bytes [?r]"
    by (simp add: write_compact_size_def)
  moreover have "list_all legacy_ok [?r]" by (simp add: legacy_ok_def valid_pair_def)
  ultimately have p: "parse_addr (1 # legacy_bytes ?r) = Inr ?m"
    unfolding parse_addr_iff_records [OF len, of ?m] by (intro exI [of _ "[?r]"]) (simp add: MAX_ADDR_TO_SEND_def)
  have n: "decode_legacy_ip ?ip = (compact_ipv6 ?ip, Ipv6)"
    by (simp add: decode_legacy_ip_def ipv4_mapped_def)
  have "classify rfc4648_crates (compact_ipv6 ?ip) = Cjdns"
    using decode_legacy_ip_classify [OF _ n, of rfc4648_crates] by simp
  with legacy_hosts_classified [OF len p, of "legacy_addr ?r" rfc4648_crates] p n show ?thesis
    by (auto simp: legacy_addr_def)
qed

text \<open>C36: The classifier takes every dotted quad for IPv4, leading zeros or not, but the TCP transport's address
  parser refuses exactly those with a leading zero in some octet: such a host is queued as an IPv4 node and can
  never be dialed, whereas every other dotted quad can.\<close>

theorem leading_zero_host_undialable:
  assumes "is_ipv4_dotted host"
  shows "classify cr host = Ipv4 \<and>
    (parse_ip host = None \<longleftrightarrow>
       (\<exists>part. part \<in> set (split_on (CHR ''.'') host) \<and> length part > 1 \<and> hd part = CHR ''0''))"
  using classify_dotted [OF assms] parse_ip_dotted [OF assms]
  by (auto simp: list_ex_iff leading_zero_def)

lemma leading_zero_host_undialable_witness:
  "classify rfc4648_crates ''10.0.200.007'' = Ipv4 \<and> parse_ip ''10.0.200.007'' = None"
proof -
  have "is_ipv4_dotted ''10.0.200.007''"
    by (simp add: is_ipv4_dotted_def is_ipv4_part_def is_ascii_digit_def digit_of_def parse_unsigned_def)
  from leading_zero_host_undialable [OF this] show ?thesis by auto
qed

end
