(* ===== verification/Stream_IO.thy ===== *)
theory Stream_IO
  imports Prelude
begin

section \<open>Byte streams with a scripted peer\<close>

text \<open>
  What \<open>tokio\<close> gives the program: a TCP stream that is read in chunks, written with
  \<open>write_all\<close>, and a \<open>timeout\<close> around a computation. The peer and the network are an explicit
  script. A read takes the next entry of the script, which says after how many milliseconds it
  completes and with what; no entry left means that the peer stays silent for ever. A write
  completes, fails, or never completes, as the script of writes says (an empty script: every
  write completes). \<open>Data []\<close> is the end of the stream, which \<open>read\<close> reports as zero bytes.

  An operation maps a stream to a result and the stream after it; the result \<open>None\<close> means that the
  operation never completes. Time passes only while an operation waits.
\<close>

datatype read_result = Data bytes | ReadErr io_error

datatype write_result = WriteOk nat | WriteErr io_error | WriteBlocked

record tcp_stream =
  ts_reads :: "(nat \<times> read_result) list"
  ts_writes :: "write_result list"
  ts_sent :: bytes
  ts_clock :: nat
  ts_local :: string
  ts_peer :: string

type_synonym 'a stream_op = "tcp_stream \<Rightarrow> (io_error + 'a) option \<times> tcp_stream"

definition stream_return :: "'a \<Rightarrow> 'a stream_op" where
  "stream_return a s = (Some (Inr a), s)"

definition stream_fail :: "io_error \<Rightarrow> 'a stream_op" where
  "stream_fail e s = (Some (Inl e), s)"

definition stream_then :: "'a stream_op \<Rightarrow> ('a \<Rightarrow> 'b stream_op) \<Rightarrow> 'b stream_op" where
  "stream_then m f s =
     (case m s of
        (Some (Inr a), s') \<Rightarrow> f a s'
      | (Some (Inl e), s') \<Rightarrow> (Some (Inl e), s')
      | (None, s') \<Rightarrow> (None, s'))"

definition write_all :: "bytes \<Rightarrow> unit stream_op" where
  "write_all bs s =
     (case ts_writes s of
        [] \<Rightarrow> (Some (Inr ()), s\<lparr>ts_sent := ts_sent s @ bs\<rparr>)
      | WriteOk d # ws \<Rightarrow>
          (Some (Inr ()), s\<lparr>ts_writes := ws, ts_sent := ts_sent s @ bs, ts_clock := ts_clock s + d\<rparr>)
      | WriteErr e # ws \<Rightarrow> (Some (Inl e), s\<lparr>ts_writes := ws\<rparr>)
      | WriteBlocked # ws \<Rightarrow> (None, s))"

text \<open>\<open>read\<close> into a buffer of \<open>n\<close> bytes: what does not fit stays available.\<close>

definition stream_read :: "nat \<Rightarrow> bytes stream_op" where
  "stream_read n s =
     (case ts_reads s of
        [] \<Rightarrow> (None, s)
      | (d, ReadErr e) # r \<Rightarrow> (Some (Inl e), s\<lparr>ts_reads := r, ts_clock := ts_clock s + d\<rparr>)
      | (d, Data bs) # r \<Rightarrow>
          (Some (Inr (take n bs)),
           s\<lparr>ts_reads := (if length bs \<le> n then r else (0, Data (drop n bs)) # r),
             ts_clock := ts_clock s + d\<rparr>))"

lemma stream_read_nonempty:
  "stream_read n s = (Some (Inr bs), s') \<Longrightarrow> length bs \<le> n"
  by (auto simp: stream_read_def split: list.splits prod.splits read_result.splits)

text \<open>\<open>read_exact\<close>: reads until the buffer is full; the end of the stream before that is an error.\<close>

function read_exact :: "nat \<Rightarrow> bytes stream_op" where
  "read_exact n s =
     (if n = 0 then (Some (Inr []), s)
      else case stream_read n s of
        (None, s') \<Rightarrow> (None, s')
      | (Some (Inl e), s') \<Rightarrow> (Some (Inl e), s')
      | (Some (Inr bs), s') \<Rightarrow>
          if bs = [] then (Some (Inl (io_err UnexpectedEof ''early eof'')), s')
          else (case read_exact (n - length bs) s' of
                  (Some (Inr r), s'') \<Rightarrow> (Some (Inr (bs @ r)), s'')
                | (r, s'') \<Rightarrow> (r, s'')))"
  by pat_completeness auto
termination by (relation "measure fst") auto

declare read_exact.simps [simp del]

subsection \<open>Timeouts and dialing\<close>

text \<open>
  \<open>timeout(t, ...)\<close> around a computation that starts at \<open>now\<close> and ends, with the clock reading
  given, or never: its own result when it is in time, otherwise the error.
\<close>

definition under_deadline ::
  "nat \<Rightarrow> string \<Rightarrow> nat \<Rightarrow> (io_error + 'a) option \<times> nat \<Rightarrow> (io_error + 'a) \<times> nat" where
  "under_deadline t msg now r =
     (case r of
        (Some v, fin) \<Rightarrow> if fin \<le> now + t then (v, fin) else (Inl (io_err TimedOut msg), now + t)
      | (None, _) \<Rightarrow> (Inl (io_err TimedOut msg), now + t))"

lemma under_deadline_time: "snd r \<ge> now \<Longrightarrow> snd (under_deadline t msg now r) \<le> now + t"
  by (cases r) (auto simp: under_deadline_def split: option.splits)

lemma under_deadline_Inr:
  "under_deadline t msg now r = (Inr v, fin) \<longleftrightarrow> r = (Some (Inr v), fin) \<and> fin \<le> now + t"
  by (cases r) (auto simp: under_deadline_def split: option.splits if_splits)

text \<open>
  Opening a TCP connection: either to a socket address or to a \<open>host:port\<close> text that is resolved.
  The network is a function of the target and the time that says how long it takes and with what
  result, or that the attempt never ends.
\<close>

datatype dial_target = SockAddr bytes u16 | HostPort string

type_synonym dialer = "dial_target \<Rightarrow> nat \<Rightarrow> (nat \<times> (io_error + tcp_stream)) option"

definition dial :: "dialer \<Rightarrow> dial_target \<Rightarrow> nat \<Rightarrow> (io_error + tcp_stream) option \<times> nat" where
  "dial net target now =
     (case net target now of
        None \<Rightarrow> (None, now)
      | Some (d, Inl e) \<Rightarrow> (Some (Inl e), now + d)
      | Some (d, Inr s) \<Rightarrow> (Some (Inr (s\<lparr>ts_clock := now + d\<rparr>)), now + d))"

definition dial_then ::
  "dialer \<Rightarrow> dial_target \<Rightarrow> nat \<Rightarrow> 'a stream_op \<Rightarrow> (io_error + tcp_stream) option \<times> nat" where
  "dial_then net target now m =
     (case dial net target now of
        (Some (Inr s), _) \<Rightarrow>
          (case m s of
             (Some (Inr _), s') \<Rightarrow> (Some (Inr s'), ts_clock s')
           | (Some (Inl e), s') \<Rightarrow> (Some (Inl e), ts_clock s')
           | (None, s') \<Rightarrow> (None, ts_clock s'))
      | (r, fin) \<Rightarrow> (r, fin))"

subsection \<open>Bytes that are still to come\<close>

text \<open>
  The bytes a reader will get before the end of the stream or an error, however they are cut into
  chunks, and the time until the last of them is there.
\<close>

fun pending_bytes :: "(nat \<times> read_result) list \<Rightarrow> bytes" where
  "pending_bytes [] = []"
| "pending_bytes ((d, ReadErr e) # r) = []"
| "pending_bytes ((d, Data bs) # r) = (if bs = [] then [] else bs @ pending_bytes r)"

abbreviation incoming :: "tcp_stream \<Rightarrow> bytes" where
  "incoming s \<equiv> pending_bytes (ts_reads s)"

lemma stream_read_data:
  assumes "incoming s \<noteq> []" "n > 0"
  obtains bs s' where "stream_read n s = (Some (Inr bs), s')" "bs \<noteq> []" "length bs \<le> n"
    "incoming s = bs @ incoming s'"
    "ts_sent s' = ts_sent s" "ts_writes s' = ts_writes s" "ts_clock s \<le> ts_clock s'"
proof -
  obtain d b r where 1: "ts_reads s = (d, Data b) # r" and b: "b \<noteq> []"
    using assms(1) by (cases "ts_reads s" rule: pending_bytes.cases) (auto split: if_splits)
  let ?s' = "s\<lparr>ts_reads := (if length b \<le> n then r else (0, Data (drop n b)) # r),
             ts_clock := ts_clock s + d\<rparr>"
  have "stream_read n s = (Some (Inr (take n b)), ?s')" using 1 by (simp add: stream_read_def)
  moreover have "take n b \<noteq> []" using b assms(2) by simp
  moreover have "incoming s = take n b @ incoming ?s'" using 1 b by auto
  ultimately show ?thesis using that [of "take n b" ?s'] by simp
qed

lemma read_exact_data:
  assumes "n \<le> length (incoming s)"
  obtains s' where "read_exact n s = (Some (Inr (take n (incoming s))), s')"
    "incoming s' = drop n (incoming s)"
    "ts_sent s' = ts_sent s" "ts_writes s' = ts_writes s" "ts_clock s \<le> ts_clock s'"
  using assms
proof (induction n arbitrary: s thesis rule: less_induct)
  case (less n)
  show ?case
  proof (cases "n = 0")
    case True
    then show ?thesis using less.prems(1) [of s] by (simp add: read_exact.simps)
  next
    case False
    then have "incoming s \<noteq> []" "n > 0" using less.prems(2) by auto
    then obtain bs s1 where r: "stream_read n s = (Some (Inr bs), s1)" "bs \<noteq> []" "length bs \<le> n"
      and inc: "incoming s = bs @ incoming s1"
      and same: "ts_sent s1 = ts_sent s" "ts_writes s1 = ts_writes s" "ts_clock s \<le> ts_clock s1"
      by (rule stream_read_data)
    have lt: "n - length bs < n" using r(2) False by (cases bs) auto
    have le: "n - length bs \<le> length (incoming s1)" using less.prems(2) inc by simp
    obtain s2 where 2: "read_exact (n - length bs) s1 =
        (Some (Inr (take (n - length bs) (incoming s1))), s2)"
      "incoming s2 = drop (n - length bs) (incoming s1)"
      "ts_sent s2 = ts_sent s1" "ts_writes s2 = ts_writes s1" "ts_clock s1 \<le> ts_clock s2"
      using less.IH [OF lt _ le] by blast
    have "read_exact n s = (Some (Inr (take n (incoming s))), s2)"
      using False r inc 2(1) by (subst read_exact.simps) simp
    moreover have "incoming s2 = drop n (incoming s)" using 2(2) r(3) inc by simp
    ultimately show ?thesis using less.prems(1) [of s2] 2(3-5) same by simp
  qed
qed

text \<open>Time never runs backwards.\<close>

lemma write_all_clock: "ts_clock s \<le> ts_clock (snd (write_all bs s))"
  by (auto simp: write_all_def split: list.splits write_result.splits)

lemma stream_read_clock: "ts_clock s \<le> ts_clock (snd (stream_read n s))"
  by (auto simp: stream_read_def split: list.splits prod.splits read_result.splits)

lemma read_exact_clock: "ts_clock s \<le> ts_clock (snd (read_exact n s))"
proof (induction n s rule: read_exact.induct)
  case (1 n s)
  obtain r s1 where r: "stream_read n s = (r, s1)" by fastforce
  then have le: "ts_clock s \<le> ts_clock s1" using stream_read_clock [of s n] by simp
  show ?case
  proof (cases "n = 0 \<or> r = None \<or> (\<exists>e. r = Some (Inl e)) \<or> r = Some (Inr [])")
    case True
    with r le show ?thesis by (subst read_exact.simps) auto
  next
    case False
    then obtain bs where bs: "r = Some (Inr bs)" "bs \<noteq> []" "n \<noteq> 0"
      by (metis not_None_eq sum.exhaust)
    then have "ts_clock s1 \<le> ts_clock (snd (read_exact (n - length bs) s1))"
      using 1 [OF _ r [symmetric, unfolded bs(1)]] by simp
    with le r bs show ?thesis
      by (subst read_exact.simps) (auto split: prod.splits option.splits sum.splits)
  qed
qed

lemma stream_then_clock:
  assumes "\<And>s. ts_clock s \<le> ts_clock (snd (m s))" "\<And>a s. ts_clock s \<le> ts_clock (snd (f a s))"
  shows "ts_clock s \<le> ts_clock (snd (stream_then m f s))"
proof -
  obtain r s1 where r: "m s = (r, s1)" by fastforce
  then have le: "ts_clock s \<le> ts_clock s1" using assms(1) [of s] by simp
  show ?thesis
  proof (cases "\<exists>a. r = Some (Inr a)")
    case True
    then obtain a where "r = Some (Inr a)" by blast
    with r have "stream_then m f s = f a s1" by (simp add: stream_then_def)
    with le assms(2) [of s1 a] show ?thesis by simp
  next
    case False
    with r have "snd (stream_then m f s) = s1"
      by (auto simp: stream_then_def split: option.splits sum.splits)
    with le show ?thesis by simp
  qed
qed

lemma dial_time: "snd (dial net target now) \<ge> now"
  by (auto simp: dial_def split: option.splits prod.splits sum.splits)

end
