(* ===== verification/Transport.thy ===== *)
theory Transport
  imports Protocol Stream_IO
begin

section \<open>Transports and the framed connection (src/transport.rs)\<close>

text \<open>
  The envelope parser over a receive buffer, the connection with its receive loop, and the three
  ways to open a stream: plain TCP, SOCKS5 and the SAM bridge. Peers and the network are the
  scripts of \<open>Stream_IO\<close>.
\<close>

record envelope =
  env_command :: string
  env_payload :: bytes

subsection \<open>Envelopes\<close>

definition parse_command :: "bytes \<Rightarrow> io_error + string" where
  "parse_command bs =
     (if length bs \<noteq> 12 then Inl (io_err InvalidData ''command field is not 12 bytes'')
      else
        let fin = length (takeWhile (\<lambda>b. b \<noteq> 0) bs)
        in if fin = 0 \<or> list_ex (\<lambda>b. \<not> printable b) (take fin bs) \<or>
              list_ex (\<lambda>b. b \<noteq> 0) (drop fin bs)
           then Inl (io_err InvalidData ''invalid command field'')
           else if utf8_valid (take fin bs) then Inr (bytes_str (take fin bs))
           else Inl (io_err InvalidData ''non-ASCII command''))"

definition try_parse_envelope :: "crates \<Rightarrow> bytes \<Rightarrow> io_error + (envelope option \<times> bytes)" where
  "try_parse_envelope cr buf =
     (if length buf < 24 then Inr (None, buf)
      else
        let header = take 24 buf
        in if take 4 header \<noteq> MAGIC
           then Inl (io_err InvalidData ''network magic mismatch (stream desynchronized)'')
           else and_then (parse_command (take 12 (drop 4 header))) (\<lambda>command.
             let len = from_le_bytes (take 4 (drop 16 header)) :: u32;
                 expected_checksum = take 4 (drop 20 header)
             in if unat len > MAX_PROTOCOL_MESSAGE_LENGTH
                then Inl (io_err InvalidData
                  (''payload length '' @ show_dec (unat len) @ '' exceeds 4,000,000 bytes''))
                else
                  let frame_len = 24 + unat len
                  in if length buf < frame_len then Inr (None, buf)
                     else
                       let payload = take (frame_len - 24) (drop 24 buf)
                       in if checksum cr payload \<noteq> expected_checksum
                          then Inl (io_err InvalidData ''payload checksum mismatch'')
                          else Inr (Some \<lparr>env_command = command, env_payload = payload\<rparr>,
                                    drop frame_len buf)))"

subsection \<open>The connection\<close>

record connection =
  conn_stream :: tcp_stream
  recv_buf :: bytes
  frame_started :: "nat option"

definition connection_new :: "tcp_stream \<Rightarrow> connection" where
  "connection_new s = \<lparr>conn_stream = s, recv_buf = [], frame_started = None\<rparr>"

definition socket_local :: "connection \<Rightarrow> string" where
  "socket_local c = ts_local (conn_stream c)"

definition socket_peer :: "connection \<Rightarrow> string" where
  "socket_peer c = ts_peer (conn_stream c)"

abbreviation conn_now :: "connection \<Rightarrow> nat" where
  "conn_now c \<equiv> ts_clock (conn_stream c)"

definition has_partial_envelope :: "connection \<Rightarrow> bool" where
  "has_partial_envelope c \<longleftrightarrow> recv_buf c \<noteq> []"

type_synonym 'a conn_op = "connection \<Rightarrow> (io_error + 'a) option \<times> connection"

definition conn_send :: "crates \<Rightarrow> string \<Rightarrow> bytes \<Rightarrow> unit conn_op" where
  "conn_send cr command payload c =
     (case frame cr command payload of
        Inl e \<Rightarrow> (Some (Inl e), c)
      | Inr bs \<Rightarrow>
          (case write_all bs (conn_stream c) of (r, s) \<Rightarrow> (r, c\<lparr>conn_stream := s\<rparr>)))"

definition ENVELOPE_HARD_TIMEOUT :: nat where
  "ENVELOPE_HARD_TIMEOUT = 120 * 1000"

text \<open>\<open>timeout(w, stream.read(..))\<close>: \<open>None\<close> when nothing arrives within \<open>w\<close>.\<close>

definition timed_read :: "nat \<Rightarrow> nat \<Rightarrow> bytes stream_op" where
  "timed_read w n s =
     (case ts_reads s of
        [] \<Rightarrow> (None, s\<lparr>ts_clock := ts_clock s + w\<rparr>)
      | (d, r) # rs \<Rightarrow>
          if d \<le> w then stream_read n s
          else (None, s\<lparr>ts_reads := (d - w, r) # rs, ts_clock := ts_clock s + w\<rparr>))"

definition recv_push :: "bytes \<Rightarrow> tcp_stream \<Rightarrow> connection \<Rightarrow> connection" where
  "recv_push chunk s c =
     c\<lparr>conn_stream := s,
       frame_started := (if recv_buf c = [] then Some (ts_clock s) else frame_started c),
       recv_buf := recv_buf c @ chunk\<rparr>"

definition hard_remaining :: "connection \<Rightarrow> nat" where
  "hard_remaining c =
     (case frame_started c of
        Some start \<Rightarrow> ENVELOPE_HARD_TIMEOUT - (conn_now c - start)
      | None \<Rightarrow> ENVELOPE_HARD_TIMEOUT)"

fun read_weight :: "nat \<times> read_result \<Rightarrow> nat" where
  "read_weight (d, Data bs) = Suc (length bs)"
| "read_weight (d, ReadErr e) = 1"

lemma stream_read_weight:
  assumes "stream_read n s = (Some (Inr bs), s')" "bs \<noteq> []"
  shows "sum_list (map read_weight (ts_reads s')) < sum_list (map read_weight (ts_reads s))"
  using assms by (auto simp: stream_read_def split: list.splits prod.splits read_result.splits if_splits)

lemma timed_read_Some:
  "timed_read w n s = (Some r, s') \<Longrightarrow>
     stream_read n s = (Some r, s') \<and> (\<exists>d x rs. ts_reads s = (d, x) # rs \<and> d \<le> w)"
  by (auto simp: timed_read_def split: list.splits prod.splits if_splits)

function recv_loop :: "crates \<Rightarrow> nat \<Rightarrow> connection \<Rightarrow> (io_error + envelope option) \<times> connection" where
  "recv_loop cr call_deadline c =
     (case try_parse_envelope cr (recv_buf c) of
        Inl e \<Rightarrow> (Inl e, c)
      | Inr (Some env, buf) \<Rightarrow>
          (Inr (Some env),
           c\<lparr>recv_buf := buf, frame_started := (if buf = [] then None else Some (conn_now c))\<rparr>)
      | Inr (None, _) \<Rightarrow>
          if hard_remaining c = 0
          then (Inl (io_err TimedOut ''incomplete envelope exceeded hard deadline''), c)
          else
            let call_remaining = call_deadline - conn_now c
            in if call_remaining = 0 then (Inr None, c)
               else case timed_read (min call_remaining (hard_remaining c)) 8192 (conn_stream c) of
                 (None, s) \<Rightarrow> (Inr None, c\<lparr>conn_stream := s\<rparr>)
               | (Some (Inl e), s) \<Rightarrow> (Inl e, c\<lparr>conn_stream := s\<rparr>)
               | (Some (Inr chunk), s) \<Rightarrow>
                   if chunk = []
                   then (Inl (io_err UnexpectedEof ''peer closed connection''), c\<lparr>conn_stream := s\<rparr>)
                   else if length (recv_buf c) + length chunk > 24 + MAX_PROTOCOL_MESSAGE_LENGTH
                   then (Inl (io_err InvalidData ''receive buffer limit exceeded''), recv_push chunk s c)
                   else recv_loop cr call_deadline (recv_push chunk s c))"
  by pat_completeness auto
termination
  by (relation "measure (\<lambda>(cr, d, c). sum_list (map read_weight (ts_reads (conn_stream c))))")
    (auto simp: recv_push_def dest!: timed_read_Some sym [of "(Some (Inr _), _)"] stream_read_weight)

declare recv_loop.simps [simp del]

definition recv_one :: "crates \<Rightarrow> nat \<Rightarrow> connection \<Rightarrow> (io_error + envelope option) \<times> connection" where
  "recv_one cr per_timeout c = recv_loop cr (conn_now c + per_timeout) c"

subsection \<open>Pings\<close>

definition validate_ping_payload :: "bytes \<Rightarrow> bool \<Rightarrow> io_error + unit" where
  "validate_ping_payload payload expects_nonce =
     (if (expects_nonce \<and> length payload = 8) \<or> (\<not> expects_nonce \<and> payload = []) then Inr ()
      else Inl (io_err InvalidData ''ping nonce must be exactly 8 bytes''))"

definition answer_ping :: "crates \<Rightarrow> bytes \<Rightarrow> int \<Rightarrow> unit conn_op" where
  "answer_ping cr ping_payload protocol_version c =
     (let expects_nonce = protocol_version > 60000
      in case validate_ping_payload ping_payload expects_nonce of
           Inl e \<Rightarrow> (Some (Inl e), c)
         | Inr _ \<Rightarrow>
             if expects_nonce then conn_send cr ''pong'' ping_payload c
             else (Some (Inr ()), c))"

subsection \<open>Opening a stream: TCP and SOCKS5\<close>

definition connect_tcp ::
  "dialer \<Rightarrow> string \<Rightarrow> u16 \<Rightarrow> nat \<Rightarrow> nat \<Rightarrow> (io_error + tcp_stream) \<times> nat" where
  "connect_tcp net host port connect_timeout now =
     (case parse_ip host of
        None \<Rightarrow> (Inl (io_err Other (''not a numeric IP address: '' @ host)), now)
      | Some ip \<Rightarrow>
          under_deadline connect_timeout ''tcp connect timed out'' now
            (dial net (SockAddr ip port) now))"

definition hex_byte :: "u8 \<Rightarrow> string" where
  "hex_byte b = hex_of [b]"

definition socks5_greeting :: "unit stream_op" where
  "socks5_greeting =
     stream_then (write_all [0x05, 0x01, 0x00]) (\<lambda>_.
     stream_then (read_exact 2) (\<lambda>reply.
       if reply \<noteq> [0x05, 0x00]
       then stream_fail (io_err Other (''socks5 method selection failed: ['' @ hex_byte (reply ! 0) @
              '', '' @ hex_byte (reply ! 1) @ '']''))
       else stream_return ()))"

definition socks5_request :: "string \<Rightarrow> u16 \<Rightarrow> bytes" where
  "socks5_request host port =
     [0x05, 0x01, 0x00, 0x03] @ [word_of_nat (length host)] @ str_bytes host @ to_be_bytes port"

definition socks5_connect :: "string \<Rightarrow> u16 \<Rightarrow> unit stream_op" where
  "socks5_connect host port =
     (if length host > 255 then stream_fail (io_err Other ''socks5 host too long'')
      else
        stream_then (write_all (socks5_request host port)) (\<lambda>_.
        stream_then (read_exact 4) (\<lambda>head.
          if head ! 1 \<noteq> 0x00
          then stream_fail (io_err Other (''socks5 connect failed: REP=0x'' @ hex_byte (head ! 1)))
          else
            stream_then
              (if head ! 3 = 0x01 then stream_return 4
               else if head ! 3 = 0x04 then stream_return 16
               else if head ! 3 = 0x03
               then stream_then (read_exact 1) (\<lambda>l. stream_return (unat (l ! 0)))
               else stream_fail (io_err Other
                 (''socks5 reply unknown ATYP '' @ show_dec (unat (head ! 3))))) (\<lambda>addr_len.
            stream_then (read_exact (addr_len + 2)) (\<lambda>_. stream_return ())))))"

definition connect_socks5 ::
  "dialer \<Rightarrow> string \<Rightarrow> u16 \<Rightarrow> string \<Rightarrow> u16 \<Rightarrow> nat \<Rightarrow> nat \<Rightarrow> (io_error + tcp_stream) \<times> nat" where
  "connect_socks5 net proxy_host proxy_port host port connect_timeout now =
     under_deadline connect_timeout ''socks5 connect timed out'' now
       (dial_then net (HostPort (proxy_host @ '':'' @ show_dec (unat proxy_port))) now
         (stream_then socks5_greeting (\<lambda>_. socks5_connect host port)))"

definition socks5_probe :: "dialer \<Rightarrow> string \<Rightarrow> u16 \<Rightarrow> nat \<Rightarrow> nat \<Rightarrow> (io_error + tcp_stream) \<times> nat" where
  "socks5_probe net proxy_host proxy_port connect_timeout now =
     under_deadline connect_timeout ''socks5 probe timed out'' now
       (dial_then net (HostPort (proxy_host @ '':'' @ show_dec (unat proxy_port))) now
         socks5_greeting)"

subsection \<open>Opening a stream: the SAM bridge\<close>

text \<open>\<open>sam_read_line\<close> reads byte by byte up to the newline, at most 4096 bytes before it.\<close>

function sam_line_loop :: "bytes \<Rightarrow> string stream_op" where
  "sam_line_loop line s =
     (case stream_read 1 s of
        (None, s') \<Rightarrow> (None, s')
      | (Some (Inl e), s') \<Rightarrow> (Some (Inl e), s')
      | (Some (Inr bs), s') \<Rightarrow>
          if bs = []
          then (Some (Inl (io_err UnexpectedEof ''SAM connection closed before newline'')), s')
          else if bs ! 0 = 10 then (Some (Inr (bytes_str (utf8_lossy line))), s')
          else if length (line @ [bs ! 0]) > 4096
          then (Some (Inl (io_err Other ''SAM line too long'')), s')
          else sam_line_loop (line @ [bs ! 0]) s')"
  by pat_completeness auto
termination
  by (relation "measure (\<lambda>(line, s). sum_list (map read_weight (ts_reads s)))")
    (auto dest!: sym [of "(Some (Inr _), _)"] stream_read_weight)

declare sam_line_loop.simps [simp del]

definition sam_read_line :: "string stream_op" where
  "sam_read_line = sam_line_loop []"

definition sam_reply_ok :: "string \<Rightarrow> string \<Rightarrow> bool" where
  "sam_reply_ok kind reply \<longleftrightarrow> contains reply kind \<and> contains reply ''RESULT=OK''"

definition sam_exchange :: "string \<Rightarrow> string \<Rightarrow> string \<Rightarrow> unit stream_op" where
  "sam_exchange cmd kind failed =
     stream_then (write_all (str_bytes (cmd @ [CHR 0x0A]))) (\<lambda>_.
     stream_then sam_read_line (\<lambda>reply.
       if \<not> sam_reply_ok kind reply then stream_fail (io_err Other (failed @ trim reply))
       else stream_return ()))"

definition sam_hello :: "unit stream_op" where
  "sam_hello = sam_exchange ''HELLO VERSION MIN=3.0 MAX=3.1'' ''HELLO REPLY'' ''SAM HELLO failed: ''"

record sam_session =
  session_id :: string
  sam_control :: tcp_stream
  router_host :: string
  router_port :: u16

definition sam_create ::
  "dialer \<Rightarrow> string \<Rightarrow> u16 \<Rightarrow> u32 \<Rightarrow> nat \<Rightarrow> nat \<Rightarrow> (io_error + sam_session) \<times> nat" where
  "sam_create net host port random connect_timeout now =
     (let sid = ''crawler'' @ show_dec (unat random);
          cmd = ''SESSION CREATE STYLE=STREAM ID='' @ sid @
                '' DESTINATION=TRANSIENT SIGNATURE_TYPE=7''
      in case under_deadline connect_timeout ''SAM session create timed out'' now
           (dial_then net (HostPort (host @ '':'' @ show_dec (unat port))) now
             (stream_then sam_hello (\<lambda>_.
                sam_exchange cmd ''SESSION STATUS'' ''SAM session create failed: ''))) of
           (Inl e, fin) \<Rightarrow> (Inl e, fin)
         | (Inr control, fin) \<Rightarrow>
             (Inr \<lparr>session_id = sid, sam_control = control, router_host = host,
                   router_port = port\<rparr>, fin))"

definition sam_connect ::
  "dialer \<Rightarrow> sam_session \<Rightarrow> string \<Rightarrow> nat \<Rightarrow> nat \<Rightarrow> (io_error + tcp_stream) \<times> nat" where
  "sam_connect net session host connect_timeout now =
     under_deadline connect_timeout ''SAM stream connect timed out'' now
       (dial_then net
          (HostPort (router_host session @ '':'' @ show_dec (unat (router_port session)))) now
          (stream_then sam_hello (\<lambda>_.
             sam_exchange (''STREAM CONNECT ID='' @ session_id session @ '' DESTINATION='' @ host @
                '' SILENT=false'') ''STREAM STATUS'' ''SAM stream connect failed: '')))"

definition sam_probe :: "dialer \<Rightarrow> string \<Rightarrow> u16 \<Rightarrow> nat \<Rightarrow> nat \<Rightarrow> (io_error + tcp_stream) \<times> nat" where
  "sam_probe net host port connect_timeout now =
     under_deadline connect_timeout ''SAM probe timed out'' now
       (dial_then net (HostPort (host @ '':'' @ show_dec (unat port))) now sam_hello)"

section \<open>Framing as an interface\<close>

text \<open>
  \<open>message_stream\<close> is what the receive loop relies on: the parser takes exactly one encoded
  message off the front of the buffer, waits without consuming anything while the message is
  incomplete, and accepts nothing else.
\<close>

locale message_stream =
  fixes enc :: "'m \<Rightarrow> bytes"
    and valid :: "'m \<Rightarrow> bool"
    and parse :: "bytes \<Rightarrow> 'e + ('m option \<times> bytes)"
  assumes parse_enc: "valid m \<Longrightarrow> parse (enc m @ r) = Inr (Some m, r)"
    and parse_partial: "valid m \<Longrightarrow> strict_prefix b (enc m) \<Longrightarrow> parse b = Inr (None, b)"
    and parse_inv: "parse b = Inr (Some m, r) \<Longrightarrow> valid m \<and> b = enc m @ r"
    and parse_None: "parse b = Inr (None, r) \<Longrightarrow> r = b"
begin

lemma enc_prefix_free:
  assumes "valid m" "valid n" "enc m @ r = enc n @ s"
  shows "m = n \<and> r = s"
proof -
  have "Inr (Some m, r) = (Inr (Some n, s) :: 'e + ('m option \<times> bytes))"
    using parse_enc [OF assms(1), of r] parse_enc [OF assms(2), of s] assms(3) by metis
  then show ?thesis by simp
qed

lemma parse_append: "parse b = Inr (Some m, r) \<Longrightarrow> parse (b @ s) = Inr (Some m, r @ s)"
  using parse_inv [of b m r] parse_enc [of m "r @ s"] by auto

text \<open>A stream of messages determines the messages.\<close>

lemma stream_unique:
  assumes "list_all valid ms" "list_all valid ns" "length ms = length ns"
    and "concat (map enc ms) @ r = concat (map enc ns) @ s"
  shows "ms = ns \<and> r = s"
  using assms(3,1,2,4)
proof (induction ms ns rule: list_induct2)
  case Nil
  then show ?case by simp
next
  case (Cons m ms n ns)
  then have "m = n \<and> concat (map enc ms) @ r = concat (map enc ns) @ s"
    by (intro enc_prefix_free) simp_all
  with Cons show ?case by simp
qed

text \<open>A buffer that starts a message is completed by exactly the missing bytes.\<close>

lemma parse_prefix_cases:
  assumes "valid m" "b @ t = enc m @ r"
  shows "parse b = Inr (None, b) \<and> strict_prefix b (enc m) \<or>
         (\<exists>r'. parse b = Inr (Some m, r') \<and> r' @ t = r)"
proof (cases "length b < length (enc m)")
  case True
  with assms(2) have "prefix b (enc m)"
    by (metis less_imp_le_nat prefix_def prefix_length_prefix)
  with True have "strict_prefix b (enc m)" by (auto simp: strict_prefix_def)
  with parse_partial [OF assms(1)] show ?thesis by blast
next
  case False
  with assms(2) have "prefix (enc m) b"
    by (metis not_less prefix_def prefix_length_prefix)
  then obtain r' where "b = enc m @ r'" by (rule prefixE)
  moreover from this have "r' @ t = r" using assms(2) by simp
  ultimately obtain r' where "b = enc m @ r'" "r' @ t = r" by blast
  with parse_enc [OF assms(1)] show ?thesis by blast
qed

end

subsection \<open>The envelope parser is one\<close>

definition env_ok :: "envelope \<Rightarrow> bool" where
  "env_ok env \<longleftrightarrow>
     command_ok (env_command env) \<and> length (env_payload env) \<le> MAX_PROTOCOL_MESSAGE_LENGTH"

definition env_bytes :: "crates \<Rightarrow> envelope \<Rightarrow> bytes" where
  "env_bytes cr env = frame_header cr (env_command env) (env_payload env) @ env_payload env"

lemma frame_env:
  "frame cr (env_command env) (env_payload env) = Inr bs \<longleftrightarrow> env_ok env \<and> bs = env_bytes cr env"
  by (auto simp: frame_Inr_iff env_ok_def env_bytes_def)

lemma printable_utf8: "list_all printable bs \<Longrightarrow> utf8_valid bs"
proof (induction bs)
  case (Cons b bs)
  then have "unat b < 128" by (simp add: printable_def word_le_nat_alt)
  moreover have "utf8_valid bs" using Cons by simp
  ultimately show ?case by (simp add: Let_def)
qed simp

lemma printable_nonzero: "printable b \<Longrightarrow> b \<noteq> 0"
  by (auto simp: printable_def)

lemma parse_command_field:
  assumes "command_ok command"
  shows "parse_command (str_bytes command @ replicate (12 - length command) 0) = Inr command"
proof -
  let ?z = "replicate (12 - length command) (0 :: u8)"
  have p: "list_all printable (str_bytes command)" "command \<noteq> []" "length command \<le> 12"
    using assms by (simp_all add: command_ok_def)
  have "takeWhile (\<lambda>b. b \<noteq> 0) (str_bytes command @ ?z) = str_bytes command @ takeWhile (\<lambda>b. b \<noteq> 0) ?z"
    using p(1) printable_nonzero by (intro takeWhile_append2) (auto simp: list_all_iff)
  moreover have "takeWhile (\<lambda>b. b \<noteq> 0) ?z = []" by (cases "12 - length command") simp_all
  ultimately have t: "takeWhile (\<lambda>b. b \<noteq> 0) (str_bytes command @ ?z) = str_bytes command" by simp
  have "\<not> list_ex (\<lambda>b. \<not> printable b) (str_bytes command)" "\<not> list_ex (\<lambda>b. b \<noteq> 0) ?z"
    using p(1) by (auto simp: list_all_iff list_ex_iff)
  with p printable_utf8 [OF p(1)] show ?thesis
    by (simp add: parse_command_def t Let_def)
qed

lemma parse_command_inv:
  assumes "parse_command bs = Inr command"
  shows "command_ok command \<and> bs = str_bytes command @ replicate (12 - length command) 0"
proof -
  define t where "t = takeWhile (\<lambda>b. b \<noteq> 0) bs"
  define fin where "fin = length t"
  have take: "take fin bs = t" unfolding fin_def t_def by (rule takeWhile_eq_take [symmetric])
  have facts: "length bs = 12" "fin \<noteq> 0" "list_all printable t"
    "list_all (\<lambda>b. b = 0) (drop fin bs)" "command = bytes_str t"
    using assms unfolding parse_command_def t_def [symmetric] fin_def [symmetric] Let_def take
    by (auto simp: list_all_iff list_ex_iff split: if_splits)
  have len: "length t \<le> 12" using length_takeWhile_le [of "\<lambda>b. b \<noteq> 0" bs] facts(1) by (simp add: t_def)
  have "drop fin bs = replicate (12 - fin) 0"
    using facts(1,4) by (intro replicate_eqI) (auto simp: list_all_iff)
  then have "bs = t @ replicate (12 - length t) 0"
    using append_take_drop_id [of fin bs] take by (simp add: fin_def)
  moreover have "command_ok command"
    using facts len by (cases t) (simp_all add: command_ok_def fin_def, simp add: bytes_str_def)
  ultimately show ?thesis using facts(5) by simp
qed

lemma header_slices:
  assumes "command_ok (env_command env)"
  shows "take 4 (take 24 (env_bytes cr env @ r)) = MAGIC"
    "take 12 (drop 4 (take 24 (env_bytes cr env @ r))) =
       str_bytes (env_command env) @ replicate (12 - length (env_command env)) 0"
    "take 4 (drop 16 (take 24 (env_bytes cr env @ r))) =
       to_le_bytes (word_of_nat (length (env_payload env)) :: u32)"
    "take 4 (drop 20 (take 24 (env_bytes cr env @ r))) = checksum cr (env_payload env)"
    "drop 24 (env_bytes cr env @ r) = env_payload env @ r"
  using assms by (simp_all add: env_bytes_def frame_header_def command_ok_def)

lemma length_env_bytes:
  "command_ok (env_command env) \<Longrightarrow>
     length (env_bytes cr env) = 24 + length (env_payload env)"
  by (simp add: env_bytes_def length_frame_header command_ok_def)

lemma payload_len:
  "length p \<le> MAX_PROTOCOL_MESSAGE_LENGTH \<Longrightarrow> unat (word_of_nat (length p) :: u32) = length p"
  by (simp add: MAX_PROTOCOL_MESSAGE_LENGTH_def unat_of_nat)

lemma try_parse_slices:
  assumes "take 4 (take 24 buf) = MAGIC" "parse_command (take 12 (drop 4 (take 24 buf))) = Inr command"
    and "unat (from_le_bytes (take 4 (drop 16 (take 24 buf))) :: u32) = n"
    and "n \<le> MAX_PROTOCOL_MESSAGE_LENGTH" "24 \<le> length buf"
  shows "try_parse_envelope cr buf =
    (if length buf < 24 + n then Inr (None, buf)
     else if checksum cr (take n (drop 24 buf)) \<noteq> take 4 (drop 20 (take 24 buf))
     then Inl (io_err InvalidData ''payload checksum mismatch'')
     else Inr (Some \<lparr>env_command = command, env_payload = take n (drop 24 buf)\<rparr>, drop (24 + n) buf))"
  using assms(4,5)
  by (simp only: try_parse_envelope_def Let_def assms(1-3) and_then.simps if_False not_less
      diff_add_inverse simp_thms not_le [symmetric])

lemma try_parse_env_bytes:
  assumes "env_ok env"
  shows "try_parse_envelope cr (env_bytes cr env @ r) = Inr (Some env, r)"
proof -
  have c: "command_ok (env_command env)"
    and p: "length (env_payload env) \<le> MAX_PROTOCOL_MESSAGE_LENGTH"
    using assms by (simp_all add: env_ok_def)
  define buf where "buf = env_bytes cr env @ r"
  note h = header_slices [OF c, of cr r, folded buf_def]
  have len: "length buf = 24 + length (env_payload env) + length r"
    by (simp add: buf_def length_env_bytes [OF c])
  have env: "\<lparr>env_command = env_command env, env_payload = env_payload env\<rparr> = env" by simp
  have "try_parse_envelope cr buf =
      Inr (Some \<lparr>env_command = env_command env, env_payload = env_payload env\<rparr>, r)"
    using len h(5) drop_drop [of "length (env_payload env)" 24 buf]
    by (subst try_parse_slices [OF h(1) _ _ p])
      (simp_all add: h(2-5) parse_command_field [OF c] codec_simps payload_len [OF p] add.commute)
  then show ?thesis unfolding env by (simp add: buf_def)
qed

lemma split_header:
  assumes "length h = 24"
  shows "take 4 h @ take 12 (drop 4 h) @ take 4 (drop 16 h) @ take 4 (drop 20 h) = h"
proof -
  have "take 4 (drop 20 h) = drop 20 h" using assms by simp
  moreover have "take 4 (drop 16 h) @ drop 20 h = drop 16 h"
    using append_take_drop_id [of 4 "drop 16 h"] by simp
  moreover have "take 12 (drop 4 h) @ drop 16 h = drop 4 h"
    using append_take_drop_id [of 12 "drop 4 h"] by simp
  ultimately show ?thesis by (metis append_take_drop_id)
qed

lemma try_parse_Some_inv:
  assumes "try_parse_envelope cr buf = Inr (Some env, r)"
  shows "env_ok env \<and> buf = env_bytes cr env @ r"
proof -
  let ?h = "take 24 buf"
  let ?len = "from_le_bytes (take 4 (drop 16 ?h)) :: u32"
  obtain command where
    1: "24 \<le> length buf" "take 4 ?h = MAGIC" "parse_command (take 12 (drop 4 ?h)) = Inr command"
    "unat ?len \<le> MAX_PROTOCOL_MESSAGE_LENGTH" "24 + unat ?len \<le> length buf"
    and ck: "checksum cr (take (unat ?len) (drop 24 buf)) = take 4 (drop 20 ?h)"
    and env: "env = \<lparr>env_command = command, env_payload = take (unat ?len) (drop 24 buf)\<rparr>"
    and r: "r = drop (24 + unat ?len) buf"
    using assms unfolding try_parse_envelope_def Let_def
    by (auto simp: and_then_Inr_iff not_le simp del: take_take split: if_splits)
  let ?p = "take (unat ?len) (drop 24 buf)"
  have plen: "length ?p = unat ?len" using 1(5) by simp
  then have lenb: "to_le_bytes (word_of_nat (length ?p) :: u32) = take 4 (drop 16 ?h)"
    using 1(1) by (simp add: codec_simps)
  note cmd = parse_command_inv [OF 1(3)]
  have "length ?h = 24" using 1(1) by simp
  note hs = split_header [OF this]
  have "buf = (take 4 ?h @ take 12 (drop 4 ?h) @ take 4 (drop 16 ?h) @ take 4 (drop 20 ?h)) @ drop 24 buf"
    by (simp only: hs append_take_drop_id)
  also have "\<dots> = frame_header cr command ?p @ ?p @ drop (unat ?len) (drop 24 buf)"
    by (simp only: frame_header_def 1(2) cmd [THEN conjunct2] lenb ck append_assoc append_take_drop_id)
  finally have "buf = frame_header cr command ?p @ ?p @ r" using r by (simp add: add.commute)
  moreover have "env_ok env" using cmd 1(4) plen by (simp add: env env_ok_def)
  ultimately show ?thesis by (simp add: env env_bytes_def)
qed

lemma try_parse_None_inv: "try_parse_envelope cr buf = Inr (None, r) \<Longrightarrow> r = buf"
  unfolding try_parse_envelope_def Let_def by (auto simp: and_then_Inr_iff split: if_splits)

lemma try_parse_partial:
  assumes env: "env_ok env" and pre: "strict_prefix b (env_bytes cr env)"
  shows "try_parse_envelope cr b = Inr (None, b)"
proof (cases "length b < 24")
  case True
  then show ?thesis by (simp add: try_parse_envelope_def)
next
  case False
  have c: "command_ok (env_command env)"
    and p: "length (env_payload env) \<le> MAX_PROTOCOL_MESSAGE_LENGTH"
    using env by (simp_all add: env_ok_def)
  obtain u where u: "env_bytes cr env = b @ u" "u \<noteq> []"
    using pre by (auto simp: strict_prefix_def prefix_def)
  have "take 24 b = take 24 (env_bytes cr env @ [])" using u False by simp
  note h = header_slices(1-4) [OF c, of cr "[]", folded this]
  have "length b < 24 + length (env_payload env)"
    using length_env_bytes [OF c, of cr] u by (cases u) simp_all
  then show ?thesis using False
    by (subst try_parse_slices [OF h(1) _ _ p])
      (simp_all add: h(2-4) parse_command_field [OF c] codec_simps payload_len [OF p])
qed

interpretation envelopes: message_stream "env_bytes cr" env_ok "try_parse_envelope cr" for cr
  using try_parse_env_bytes try_parse_partial try_parse_Some_inv try_parse_None_inv
  by unfold_locales blast+

subsection \<open>The receive loop\<close>

text \<open>
  \<open>flow c\<close> is what the connection has read and not delivered, followed by what its peer will still
  send. One turn of the loop is one of four cases.
\<close>

definition flow :: "connection \<Rightarrow> bytes" where
  "flow c = recv_buf c @ incoming (conn_stream c)"

abbreviation conn_weight :: "connection \<Rightarrow> nat" where
  "conn_weight c \<equiv> sum_list (map read_weight (ts_reads (conn_stream c)))"

lemma recv_loop_cases:
  assumes "recv_loop cr d c = (r, c')"
  obtains
    (message) env buf where "try_parse_envelope cr (recv_buf c) = Inr (Some env, buf)"
      "r = Inr (Some env)"
      "c' = c\<lparr>recv_buf := buf, frame_started := (if buf = [] then None else Some (conn_now c))\<rparr>"
  | (quiet) w s where "try_parse_envelope cr (recv_buf c) = Inr (None, recv_buf c)" "r = Inr None"
      "timed_read w 8192 (conn_stream c) = (None, s)" "w \<le> d - conn_now c"
      "c' = c\<lparr>conn_stream := s\<rparr>" "w > 0"
  | (expired) "try_parse_envelope cr (recv_buf c) = Inr (None, recv_buf c)" "r = Inr None" "c' = c"
      "d \<le> conn_now c"
  | (failed) e where "r = Inl e" "d \<ge> conn_now c \<Longrightarrow> conn_now c' \<le> d" "conn_now c \<le> conn_now c'"
      "(recv_buf c' = recv_buf c \<and> frame_started c' = frame_started c \<and>
          (c' = c \<or> incoming (conn_stream c) = [])) \<or>
       (\<exists>chunk w s. timed_read w 8192 (conn_stream c) = (Some (Inr chunk), s) \<and> chunk \<noteq> [] \<and>
          c' = recv_push chunk s c \<and> 24 + MAX_PROTOCOL_MESSAGE_LENGTH < length (recv_buf c') \<and>
          e = io_err InvalidData ''receive buffer limit exceeded'')"
  | (more) chunk w s where "try_parse_envelope cr (recv_buf c) = Inr (None, recv_buf c)"
      "timed_read w 8192 (conn_stream c) = (Some (Inr chunk), s)" "chunk \<noteq> []" "w \<le> d - conn_now c"
      "w > 0"
      "length (recv_buf c) + length chunk \<le> 24 + MAX_PROTOCOL_MESSAGE_LENGTH"
      "recv_loop cr d (recv_push chunk s c) = (r, c')"
      "conn_weight (recv_push chunk s c) < conn_weight c"
proof (cases "try_parse_envelope cr (recv_buf c)")
  case (Inl e)
  with assms have "r = Inl e" "c' = c" by (simp_all add: recv_loop.simps)
  then show ?thesis using failed by simp
next
  case (Inr p)
  obtain m buf where p: "p = (m, buf)" by (cases p)
  show ?thesis
  proof (cases m)
    case (Some env)
    with assms Inr p show ?thesis using message by (simp add: recv_loop.simps)
  next
    case None
    with Inr p have parse: "try_parse_envelope cr (recv_buf c) = Inr (None, recv_buf c)"
      using try_parse_None_inv by fastforce
    define w where "w = min (d - conn_now c) (hard_remaining c)"
    show ?thesis
    proof (cases "hard_remaining c = 0 \<or> d - conn_now c = 0")
      case True
      with assms parse show ?thesis using failed expired
        by (auto simp: recv_loop.simps Let_def split: if_splits)
    next
      case False
      then have w: "w > 0" "w \<le> d - conn_now c" by (simp_all add: w_def)
      obtain x s where rd: "timed_read w 8192 (conn_stream c) = (x, s)" by fastforce
      have step: "recv_loop cr d c = (case (x, s) of
            (None, s) \<Rightarrow> (Inr None, c\<lparr>conn_stream := s\<rparr>)
          | (Some (Inl e), s) \<Rightarrow> (Inl e, c\<lparr>conn_stream := s\<rparr>)
          | (Some (Inr chunk), s) \<Rightarrow>
              if chunk = []
              then (Inl (io_err UnexpectedEof ''peer closed connection''), c\<lparr>conn_stream := s\<rparr>)
              else if length (recv_buf c) + length chunk > 24 + MAX_PROTOCOL_MESSAGE_LENGTH
              then (Inl (io_err InvalidData ''receive buffer limit exceeded''), recv_push chunk s c)
              else recv_loop cr d (recv_push chunk s c))"
        using parse False rd by (simp add: recv_loop.simps [of cr d c] Let_def w_def)
      show ?thesis
      proof (cases x)
        case None
        with step assms rd w parse show ?thesis using quiet by simp
      next
        case (Some y)
        note sr = timed_read_Some [OF rd [unfolded Some]]
        then obtain dl z rs where z: "ts_reads (conn_stream c) = (dl, z) # rs" "dl \<le> w" by blast
        have "ts_clock s = conn_now c + dl"
          using sr z by (auto simp: stream_read_def split: read_result.splits)
        then have time: "d \<ge> conn_now c \<Longrightarrow> ts_clock s \<le> d" "conn_now c \<le> ts_clock s"
          using z w by simp_all
        show ?thesis
        proof (cases y)
          case (Inl e)
          with sr have "incoming (conn_stream c) = []"
            by (auto simp: stream_read_def split: list.splits prod.splits read_result.splits)
          with Inl step assms Some time show ?thesis using failed by simp
        next
          case (Inr chunk)
          show ?thesis
          proof (cases "chunk = [] \<or> length (recv_buf c) + length chunk > 24 + MAX_PROTOCOL_MESSAGE_LENGTH")
            case True
            show ?thesis
            proof (cases "chunk = []")
              case True
              with sr Inr have "incoming (conn_stream c) = []"
                by (auto simp: stream_read_def split: list.splits prod.splits read_result.splits)
              with True step assms Some Inr time show ?thesis using failed by simp
            next
              case False
              let ?e = "io_err InvalidData ''receive buffer limit exceeded''"
              have long: "24 + MAX_PROTOCOL_MESSAGE_LENGTH < length (recv_buf (recv_push chunk s c))"
                using True False by (simp add: recv_push_def)
              have r: "r = Inl ?e" and c': "c' = recv_push chunk s c"
                using True False step assms Some Inr by simp_all
              have now: "conn_now c' = ts_clock s" by (simp add: c' recv_push_def)
              have rd': "timed_read w 8192 (conn_stream c) = (Some (Inr chunk), s)" using rd Some Inr by simp
              have "\<exists>chunk w s. timed_read w 8192 (conn_stream c) = (Some (Inr chunk), s) \<and> chunk \<noteq> [] \<and>
                  c' = recv_push chunk s c \<and> 24 + MAX_PROTOCOL_MESSAGE_LENGTH < length (recv_buf c') \<and> ?e = ?e"
                by (intro exI [of _ chunk] exI [of _ w] exI [of _ s] conjI rd' False c' refl) (simp only: c' long)
              from failed [OF r _ _ disjI2 [OF this]] time show ?thesis unfolding now by blast
            qed
          next
            case False
            have "conn_weight (recv_push chunk s c) < conn_weight c"
              using stream_read_weight [of 8192 "conn_stream c" chunk s] sr Inr False
              by (simp add: recv_push_def)
            with False step assms Some Inr rd w parse show ?thesis
              using more [of w chunk s] by simp
          qed
        qed
      qed
    qed
  qed
qed

lemma stream_read_incoming:
  assumes "stream_read n s = (Some (Inr chunk), s')" "chunk \<noteq> []"
  shows "incoming s = chunk @ incoming s'"
proof -
  from assms obtain d bs r where 1: "ts_reads s = (d, Data bs) # r" "chunk = take n bs"
    "s' = s\<lparr>ts_reads := (if length bs \<le> n then r else (0, Data (drop n bs)) # r),
           ts_clock := ts_clock s + d\<rparr>"
    by (auto simp: stream_read_def split: list.splits prod.splits read_result.splits)
  with assms(2) show ?thesis by auto
qed

lemma pending_bytes_delay: "pending_bytes ((d, x) # r) = pending_bytes ((e, x) # r)"
  by (cases x) simp_all

lemma timed_read_incoming:
  "timed_read w n s = (None, s') \<Longrightarrow> incoming s' = incoming s \<and> ts_clock s' = ts_clock s + w"
  using pending_bytes_delay
  by (auto simp: timed_read_def stream_read_def split: list.splits prod.splits if_splits read_result.splits)

lemma recv_push_flow:
  assumes "timed_read w 8192 (conn_stream c) = (Some (Inr chunk), s)" "chunk \<noteq> []"
  shows "flow (recv_push chunk s c) = flow c"
  using stream_read_incoming [OF timed_read_Some [OF assms(1), THEN conjunct1] assms(2)]
  by (simp add: flow_def recv_push_def)

lemma recv_push_time:
  assumes "timed_read w 8192 (conn_stream c) = (Some (Inr chunk), s)"
  shows "conn_now c \<le> conn_now (recv_push chunk s c) \<and> conn_now (recv_push chunk s c) \<le> conn_now c + w"
proof -
  from timed_read_Some [OF assms] obtain d x rs where
    "ts_reads (conn_stream c) = (d, x) # rs" "d \<le> w"
    and "stream_read 8192 (conn_stream c) = (Some (Inr chunk), s)" by blast
  then show ?thesis by (auto simp: stream_read_def recv_push_def split: read_result.splits)
qed

text \<open>Nothing is lost and nothing is made up: a delivered message is the next of the flow.\<close>

lemma recv_loop_flow:
  "recv_loop cr d c = (Inr m, c') \<Longrightarrow>
     (case m of Some env \<Rightarrow> env_ok env \<and> flow c = env_bytes cr env @ flow c' | None \<Rightarrow> flow c' = flow c)"
proof (induction c rule: measure_induct_rule [where f = conn_weight])
  case (less c)
  from less.prems show ?case
  proof (cases rule: recv_loop_cases)
    case (message env buf)
    with try_parse_Some_inv [OF message(1)] show ?thesis by (simp add: flow_def)
  next
    case (quiet w s)
    with timed_read_incoming [OF quiet(3)] show ?thesis by (simp add: flow_def)
  next
    case (more chunk w s)
    show ?thesis using less.IH [OF more(8,7)] unfolding recv_push_flow [OF more(2,3)] .
  qed simp_all
qed

lemma recv_loop_time:
  "recv_loop cr d c = (r, c') \<Longrightarrow> conn_now c \<le> d \<Longrightarrow> conn_now c \<le> conn_now c' \<and> conn_now c' \<le> d"
proof (induction c rule: measure_induct_rule [where f = conn_weight])
  case (less c)
  from less.prems(1) show ?case
  proof (cases rule: recv_loop_cases)
    case (quiet w s)
    with timed_read_incoming [OF quiet(3)] less.prems(2) show ?thesis by simp
  next
    case (more chunk w s)
    have "conn_now (recv_push chunk s c) \<le> d"
      using recv_push_time [OF more(2)] more(4) less.prems(2) by linarith
    with less.IH [OF more(8,7)] recv_push_time [OF more(2)] show ?thesis by simp
  qed (use less.prems in simp_all)
qed

text \<open>
  The buffer never holds more than one maximal frame, and a frame has a start time exactly while
  the buffer is not empty.
\<close>

definition conn_ok :: "connection \<Rightarrow> bool" where
  "conn_ok c \<longleftrightarrow>
     (recv_buf c = [] \<longleftrightarrow> frame_started c = None) \<and>
     length (recv_buf c) \<le> 24 + MAX_PROTOCOL_MESSAGE_LENGTH \<and>
     (\<forall>start. frame_started c = Some start \<longrightarrow> start \<le> conn_now c)"

lemma conn_ok_new: "conn_ok (connection_new s)"
  by (simp add: conn_ok_def connection_new_def)

lemma conn_ok_push:
  assumes "conn_ok c" "timed_read w 8192 (conn_stream c) = (Some (Inr chunk), s)" "chunk \<noteq> []"
    "length (recv_buf c) + length chunk \<le> 24 + MAX_PROTOCOL_MESSAGE_LENGTH"
  shows "conn_ok (recv_push chunk s c)"
  using assms(1,3,4) recv_push_time [OF assms(2)]
  by (auto simp: conn_ok_def recv_push_def intro: le_trans)

lemma recv_loop_conn_ok:
  "recv_loop cr d c = (Inr m, c') \<Longrightarrow> conn_ok c \<Longrightarrow> conn_ok c'"
proof (induction c rule: measure_induct_rule [where f = conn_weight])
  case (less c)
  from less.prems(1) show ?case
  proof (cases rule: recv_loop_cases)
    case (message env buf)
    with try_parse_Some_inv [OF message(1)] less.prems(2) show ?thesis
      by (auto simp: conn_ok_def)
  next
    case (quiet w s)
    with timed_read_incoming [OF quiet(3)] less.prems(2) show ?thesis
      by (auto simp: conn_ok_def)
  next
    case (more chunk w s)
    with less.IH [OF more(8,7)] conn_ok_push [OF less.prems(2) more(2,3,6)] show ?thesis by simp
  qed (use less.prems in simp_all)
qed

text \<open>
  What a receive that fails leaves: all the bytes it has read, at most one read more than a frame. Either the
  flow is as before, or the peer has ended it, and all that came is in the buffer.
\<close>

lemma recv_loop_fails:
  "recv_loop cr d c = (Inl e, c') \<Longrightarrow> conn_ok c \<Longrightarrow>
     prefix (recv_buf c) (recv_buf c') \<and> (flow c' = flow c \<or> recv_buf c' = flow c) \<and>
     (if length (recv_buf c') \<le> 24 + MAX_PROTOCOL_MESSAGE_LENGTH then conn_ok c'
      else e = io_err InvalidData ''receive buffer limit exceeded'' \<and>
        length (recv_buf c') \<le> 24 + MAX_PROTOCOL_MESSAGE_LENGTH + 8192)"
proof (induction c rule: measure_induct_rule [where f = conn_weight])
  case (less c)
  from less.prems(1) show ?case
  proof (cases rule: recv_loop_cases)
    case (failed e')
    from failed(4) consider
        (same) "recv_buf c' = recv_buf c" "frame_started c' = frame_started c"
          "c' = c \<or> incoming (conn_stream c) = []"
      | (pushed) chunk w s where "timed_read w 8192 (conn_stream c) = (Some (Inr chunk), s)" "chunk \<noteq> []"
          "c' = recv_push chunk s c" "24 + MAX_PROTOCOL_MESSAGE_LENGTH < length (recv_buf c')"
          "e' = io_err InvalidData ''receive buffer limit exceeded''"
      by blast
    then show ?thesis
    proof cases
      case same
      with failed(3) less.prems(2) have "conn_ok c'" by (auto simp: conn_ok_def)
      with same less.prems(2) show ?thesis by (auto simp: flow_def conn_ok_def)
    next
      case (pushed chunk w s)
      note tr = pushed(1,2) and c' = pushed(3,4) and e' = pushed(5)
      have "length chunk \<le> 8192"
        using stream_read_nonempty timed_read_Some [OF tr(1)] by blast
      then have "length (recv_buf c') \<le> 24 + MAX_PROTOCOL_MESSAGE_LENGTH + 8192"
        using less.prems(2) c'(1) by (simp add: recv_push_def conn_ok_def)
      moreover have "flow c' = flow c" using recv_push_flow [OF tr] c'(1) by simp
      moreover have "prefix (recv_buf c) (recv_buf c')" using c'(1) by (simp add: recv_push_def)
      ultimately show ?thesis using failed(1) e' c'(2) by simp
    qed
  next
    case (more chunk w s)
    have "prefix (recv_buf c) (recv_buf (recv_push chunk s c))" by (simp add: recv_push_def)
    with less.IH [OF more(8,7) conn_ok_push [OF less.prems(2) more(2,3,6)]]
    show ?thesis unfolding recv_push_flow [OF more(2,3)] using prefix_order.trans by blast
  qed simp_all
qed

text \<open>
  Delivery: when the bytes of the next message arrive before the deadlines, it is delivered, however its bytes
  are cut into reads. \<open>arrival n rs\<close> is when the first \<open>n\<close> bytes of a script of reads are there.
\<close>

fun arrival :: "nat \<Rightarrow> (nat \<times> read_result) list \<Rightarrow> nat" where
  "arrival n [] = 0"
| "arrival n ((d, r) # rs) =
     (if n = 0 then 0 else d + (case r of ReadErr e \<Rightarrow> 0 | Data bs \<Rightarrow> arrival (n - length bs) rs))"

lemma arrival_zero [simp]: "arrival 0 rs = 0"
  by (cases rs) auto

text \<open>How many bytes of a frame of \<open>n\<close> bytes are missing, and when the last of them is there.\<close>

abbreviation missing :: "nat \<Rightarrow> connection \<Rightarrow> nat" where
  "missing n c \<equiv> n - length (recv_buf c)"

abbreviation complete_in :: "nat \<Rightarrow> connection \<Rightarrow> nat" where
  "complete_in n c \<equiv> arrival (missing n c) (ts_reads (conn_stream c))"

lemma recv_loop_read:
  assumes parse: "try_parse_envelope cr (recv_buf c) = Inr (None, recv_buf c)"
    and inc: "incoming (conn_stream c) \<noteq> []" and miss: "0 < missing n c"
    and limit: "min (length (flow c)) (n + 8191) \<le> 24 + MAX_PROTOCOL_MESSAGE_LENGTH"
    and ok: "conn_ok c"
    and d: "conn_now c + complete_in n c < d"
    and hard: "complete_in n c < hard_remaining c"
  obtains chunk s where "recv_loop cr d c = recv_loop cr d (recv_push chunk s c)"
    "flow (recv_push chunk s c) = flow c" "conn_ok (recv_push chunk s c)"
    "conn_now (recv_push chunk s c) + complete_in n (recv_push chunk s c) = conn_now c + complete_in n c"
    "complete_in n (recv_push chunk s c) < hard_remaining (recv_push chunk s c)"
    "conn_weight (recv_push chunk s c) < conn_weight c"
proof -
  let ?s = "conn_stream c"
  obtain dl b rs where rd: "ts_reads ?s = (dl, Data b) # rs" and b: "b \<noteq> []"
    using inc by (cases "ts_reads ?s" rule: pending_bytes.cases) (auto split: if_splits)
  define w where "w = min (d - conn_now c) (hard_remaining c)"
  define s where "s = ?s\<lparr>ts_reads := (if length b \<le> 8192 then rs else (0, Data (drop 8192 b)) # rs),
             ts_clock := ts_clock ?s + dl\<rparr>"
  let ?chunk = "take 8192 b"
  let ?c' = "recv_push ?chunk s c"
  have arr: "complete_in n c = dl + complete_in n ?c'"
  proof (cases "length b \<le> 8192")
    case True
    then show ?thesis using miss by (simp add: rd s_def recv_push_def)
  next
    case False
    then have "complete_in n ?c' = (if missing n c \<le> 8192 then 0 else arrival (missing n c - length b) rs)"
      by (simp add: s_def recv_push_def)
    with False miss show ?thesis by (simp add: rd)
  qed
  have w: "dl \<le> w" "hard_remaining c \<noteq> 0" "d - conn_now c \<noteq> 0"
    using arr d hard by (simp_all add: w_def)
  have sr: "stream_read 8192 ?s = (Some (Inr ?chunk), s)" by (simp add: stream_read_def rd s_def)
  then have tr: "timed_read w 8192 ?s = (Some (Inr ?chunk), s)" using w(1) by (simp add: timed_read_def rd)
  have chunk: "?chunk \<noteq> []" using b by simp
  note fl = recv_push_flow [OF tr chunk]
  have "length (recv_buf c) + length ?chunk \<le> length (flow c)"
    using stream_read_incoming [OF sr chunk] by (simp add: flow_def)
  moreover have "length (recv_buf c) + length ?chunk \<le> n + 8191" using miss by simp
  ultimately have lim: "length (recv_buf c) + length ?chunk \<le> 24 + MAX_PROTOCOL_MESSAGE_LENGTH"
    using limit by linarith
  have "recv_loop cr d c = recv_loop cr d ?c'"
    using parse w(2,3) chunk lim tr [unfolded w_def]
    by (subst recv_loop.simps) (simp add: Let_def)
  moreover have "conn_now ?c' = conn_now c + dl" by (simp add: recv_push_def s_def)
  moreover have "complete_in n ?c' < hard_remaining ?c'"
  proof (cases "recv_buf c = []")
    case True
    then have "hard_remaining ?c' = ENVELOPE_HARD_TIMEOUT" "hard_remaining c = ENVELOPE_HARD_TIMEOUT"
      using ok by (simp_all add: hard_remaining_def conn_ok_def recv_push_def)
    with hard arr show ?thesis by linarith
  next
    case False
    with ok obtain start where "frame_started c = Some start" "start \<le> conn_now c"
      by (auto simp: conn_ok_def)
    then have "hard_remaining ?c' = hard_remaining c - dl"
      using False by (simp add: hard_remaining_def recv_push_def s_def)
    with hard arr show ?thesis by linarith
  qed
  moreover have "conn_weight ?c' < conn_weight c"
    using stream_read_weight [OF sr chunk] by (simp add: recv_push_def)
  ultimately show ?thesis
    using that [of ?chunk s] fl conn_ok_push [OF ok tr chunk lim] arr by simp
qed

lemma recv_loop_delivers:
  assumes "env_ok env"
    and "flow c = env_bytes cr env @ r"
    and "min (length (flow c)) (length (env_bytes cr env) + 8191) \<le> 24 + MAX_PROTOCOL_MESSAGE_LENGTH"
    and "conn_ok c"
    and "missing (length (env_bytes cr env)) c = 0 \<or>
      conn_now c + complete_in (length (env_bytes cr env)) c < d \<and>
      complete_in (length (env_bytes cr env)) c < hard_remaining c"
  shows "\<exists>c'. recv_loop cr d c = (Inr (Some env), c') \<and> flow c' = r"
  using assms(2-)
proof (induction c rule: measure_induct_rule [where f = conn_weight])
  case (less c)
  let ?n = "length (env_bytes cr env)"
  have "recv_buf c @ incoming (conn_stream c) = env_bytes cr env @ r"
    using less.prems(1) by (simp add: flow_def)
  from envelopes.parse_prefix_cases [OF assms(1) this] show ?case
  proof (elim disjE conjE exE)
    assume parse: "try_parse_envelope cr (recv_buf c) = Inr (None, recv_buf c)"
      and pre: "strict_prefix (recv_buf c) (env_bytes cr env)"
    have inc: "incoming (conn_stream c) \<noteq> []"
      using pre less.prems(1) by (auto simp: flow_def strict_prefix_def prefix_def)
    have miss: "0 < missing ?n c" using prefix_length_less [OF pre] by simp
    then have t: "conn_now c + complete_in ?n c < d" "complete_in ?n c < hard_remaining c"
      using less.prems(4) by simp_all
    from recv_loop_read [OF parse inc miss less.prems(2,3) t] obtain chunk s where
      1: "recv_loop cr d c = recv_loop cr d (recv_push chunk s c)"
      "flow (recv_push chunk s c) = flow c" "conn_ok (recv_push chunk s c)"
      "conn_now (recv_push chunk s c) + complete_in ?n (recv_push chunk s c) = conn_now c + complete_in ?n c"
      "complete_in ?n (recv_push chunk s c) < hard_remaining (recv_push chunk s c)"
      "conn_weight (recv_push chunk s c) < conn_weight c" by blast
    from less.IH [OF 1(6)] 1 less.prems t show ?thesis by simp
  next
    fix r'
    assume "try_parse_envelope cr (recv_buf c) = Inr (Some env, r')"
      and "r' @ incoming (conn_stream c) = r"
    then show ?thesis by (simp add: recv_loop.simps flow_def)
  qed
qed

subsection \<open>SOCKS5 and SAM over a stream in chunks\<close>

lemma stream_then_Inr: "m s = (Some (Inr a), s') \<Longrightarrow> stream_then m f s = f a s'"
  by (simp add: stream_then_def)

lemma write_all_ok:
  assumes "ts_writes s = []"
  shows "write_all bs s = (Some (Inr ()), s\<lparr>ts_sent := ts_sent s @ bs\<rparr>)"
  using assms by (simp add: write_all_def)

lemma read_exact_prefix:
  assumes "incoming s = bs @ r" "length bs = n"
  obtains s' where "read_exact n s = (Some (Inr bs), s')" "incoming s' = r"
    "ts_sent s' = ts_sent s" "ts_writes s' = ts_writes s"
proof -
  have "n \<le> length (incoming s)" using assms by simp
  then show ?thesis using assms by (elim read_exact_data) (simp add: that)
qed

lemma socks5_greeting_ok:
  assumes "ts_writes s = []" "incoming s = [5, 0] @ r"
  obtains s' where "socks5_greeting s = (Some (Inr ()), s')" "incoming s' = r" "ts_writes s' = []"
    "ts_sent s' = ts_sent s @ [5, 1, 0]"
proof -
  let ?s1 = "s\<lparr>ts_sent := ts_sent s @ [5, 1, 0]\<rparr>"
  have w: "write_all [5, 1, 0] s = (Some (Inr ()), ?s1)" using assms(1) by (rule write_all_ok)
  have inc: "incoming ?s1 = [5, 0] @ r" using assms(2) by simp
  have l: "length [5 :: u8, 0] = 2" by simp
  obtain s2 where s2: "read_exact 2 ?s1 = (Some (Inr [5, 0]), s2)" "incoming s2 = r"
    "ts_sent s2 = ts_sent ?s1" "ts_writes s2 = ts_writes ?s1"
    by (rule read_exact_prefix [OF inc l])
  have "socks5_greeting s = (Some (Inr ()), s2)"
    unfolding socks5_greeting_def
      stream_then_Inr [where m = "write_all [5, 1, 0]" and s = s, OF w]
      stream_then_Inr [where m = "read_exact 2" and s = ?s1, OF s2(1)]
    by (simp add: stream_return_def)
  with s2 assms(1) that show ?thesis by simp
qed

text \<open>The replies to CONNECT: an address of one of the three types and a port.\<close>

definition socks5_reply :: "bytes \<Rightarrow> bool" where
  "socks5_reply bs \<longleftrightarrow>
     (\<exists>ver rsv addr port. length port = 2 \<and>
        (bs = [ver, 0, rsv, 1] @ addr @ port \<and> length addr = 4 \<or>
         bs = [ver, 0, rsv, 4] @ addr @ port \<and> length addr = 16 \<or>
         (\<exists>l. bs = [ver, 0, rsv, 3, l] @ addr @ port \<and> length addr = unat l)))"

lemma socks5_connect_ok:
  assumes "length host \<le> 255" "ts_writes s = []" "incoming s = reply @ r" "socks5_reply reply"
  obtains s' where "socks5_connect host port s = (Some (Inr ()), s')" "incoming s' = r"
    "ts_sent s' = ts_sent s @ socks5_request host port"
proof -
  from assms(4) obtain head t where t: "reply = head @ t" "length head = 4" "head ! 1 = 0"
    and alt: "(head ! 3 = 1 \<and> length t = 6) \<or> (head ! 3 = 4 \<and> length t = 18) \<or>
      (head ! 3 = 3 \<and> (\<exists>l t'. t = l # t' \<and> length t' = unat l + 2))"
    unfolding socks5_reply_def
    by (elim exE conjE disjE) (rule that [of "take 4 reply" "drop 4 reply"]; force)+
  let ?s1 = "s\<lparr>ts_sent := ts_sent s @ socks5_request host port\<rparr>"
  have w: "write_all (socks5_request host port) s = (Some (Inr ()), ?s1)"
    using assms(2) by (rule write_all_ok)
  have "incoming ?s1 = head @ t @ r" using assms(3) t(1) by simp
  then obtain s2 where s2: "read_exact 4 ?s1 = (Some (Inr head), s2)" "incoming s2 = t @ r"
    "ts_sent s2 = ts_sent ?s1" "ts_writes s2 = ts_writes ?s1"
    by (rule read_exact_prefix [OF _ t(2)])
  note steps = stream_then_Inr [where m = "write_all (socks5_request host port)" and s = s, OF w]
    stream_then_Inr [where m = "read_exact 4" and s = ?s1, OF s2(1)]
  obtain s3 where s3: "read_exact (length t) s2 = (Some (Inr t), s3)" "incoming s3 = r"
    "ts_sent s3 = ts_sent s2" by (rule read_exact_prefix [OF s2(2) refl])
  have result: "\<exists>s'. socks5_connect host port s = (Some (Inr ()), s') \<and> incoming s' = r \<and>
      ts_sent s' = ts_sent s2"
    using alt
  proof (elim disjE conjE exE)
    assume "head ! 3 = 1" "length t = 6"
    with s3 show ?thesis
      unfolding socks5_connect_def using assms(1) t(3)
      by (simp add: steps, simp add: stream_then_def stream_return_def)
  next
    assume "head ! 3 = 4" "length t = 18"
    with s3 show ?thesis
      unfolding socks5_connect_def using assms(1) t(3)
      by (simp add: steps, simp add: stream_then_def stream_return_def)
  next
    fix l t'
    assume l: "head ! 3 = 3" "t = l # t'" "length t' = unat l + 2"
    have "incoming s2 = [l] @ (t' @ r)" using s2(2) l(2) by simp
    then obtain s4 where s4: "read_exact 1 s2 = (Some (Inr [l]), s4)" "incoming s4 = t' @ r"
      "ts_sent s4 = ts_sent s2" by (rule read_exact_prefix) simp_all
    obtain s5 where s5: "read_exact (unat l + 2) s4 = (Some (Inr t'), s5)" "incoming s5 = r"
      "ts_sent s5 = ts_sent s4" by (rule read_exact_prefix [OF s4(2) l(3)])
    from l s4 s5 show ?thesis
      unfolding socks5_connect_def using assms(1) t(3)
      by (simp add: steps, simp add: stream_then_def stream_return_def)
  qed
  with s2(3) that show ?thesis by auto
qed

lemma stream_read_one:
  assumes "incoming s = b # r"
  obtains s' where "stream_read 1 s = (Some (Inr [b]), s')" "incoming s' = r" "ts_sent s' = ts_sent s"
proof -
  have "incoming s \<noteq> []" using assms by simp
  from this zero_less_one show ?thesis
  proof (rule stream_read_data)
    fix bs s'
    assume "stream_read 1 s = (Some (Inr bs), s')" "bs \<noteq> []" "length bs \<le> 1"
      "incoming s = bs @ incoming s'" "ts_sent s' = ts_sent s"
    with assms show ?thesis using that by (cases bs) auto
  qed
qed

lemma sam_line_loop_data:
  assumes "incoming s = line @ 10 # r" "10 \<notin> set line" "length (acc @ line) \<le> 4096"
  shows "\<exists>s'. sam_line_loop acc s = (Some (Inr (bytes_str (utf8_lossy (acc @ line)))), s') \<and>
    incoming s' = r \<and> ts_sent s' = ts_sent s"
  using assms
proof (induction line arbitrary: acc s)
  case Nil
  then have "incoming s = 10 # r" by simp
  then obtain s1 where "stream_read 1 s = (Some (Inr [10]), s1)" "incoming s1 = r"
    "ts_sent s1 = ts_sent s" by (rule stream_read_one)
  then show ?case by (subst sam_line_loop.simps) simp
next
  case (Cons b line)
  then have inc: "incoming s = b # (line @ 10 # r)" by simp
  obtain s1 where s1: "stream_read 1 s = (Some (Inr [b]), s1)" "incoming s1 = line @ 10 # r"
    "ts_sent s1 = ts_sent s" by (rule stream_read_one [OF inc])
  have "sam_line_loop acc s = sam_line_loop (acc @ [b]) s1"
    using s1(1) Cons.prems by (subst sam_line_loop.simps) simp
  with Cons.IH [OF s1(2), of "acc @ [b]"] Cons.prems s1(3) show ?case by simp
qed

lemma sam_line_loop_long:
  assumes "incoming s = line @ r" "10 \<notin> set line" "length acc \<le> 4096" "length (acc @ line) > 4096"
  shows "fst (sam_line_loop acc s) = Some (Inl (io_err Other ''SAM line too long''))"
  using assms
proof (induction line arbitrary: acc s)
  case Nil
  then show ?case by simp
next
  case (Cons b line)
  then have inc: "incoming s = b # (line @ r)" by simp
  obtain s1 where s1: "stream_read 1 s = (Some (Inr [b]), s1)" "incoming s1 = line @ r"
    by (rule stream_read_one [OF inc])
  show ?case
  proof (cases "length acc = 4096")
    case True
    with s1(1) Cons.prems show ?thesis by (subst sam_line_loop.simps) simp
  next
    case False
    then have "sam_line_loop acc s = sam_line_loop (acc @ [b]) s1"
      using s1(1) Cons.prems by (subst sam_line_loop.simps) simp
    with Cons.IH [OF s1(2), of "acc @ [b]"] Cons.prems False show ?thesis by simp
  qed
qed

section \<open>Properties of the transport\<close>

text \<open>C14: The envelope parser accepts exactly what \<open>frame\<close> produces, and takes exactly that many bytes
  off the buffer: magic, command field, length and checksum are all checked, nothing is skipped.\<close>

theorem try_parse_accepts_exactly_frames:
  "try_parse_envelope cr buf = Inr (Some env, r) \<longleftrightarrow>
     (\<exists>bs. frame cr (env_command env) (env_payload env) = Inr bs \<and> buf = bs @ r)"
  using try_parse_Some_inv [of cr buf env r] try_parse_env_bytes [of env cr r]
  by (auto simp: frame_env)

lemma butlast_strict_prefix: "bs \<noteq> [] \<Longrightarrow> strict_prefix (butlast bs) bs"
  by (cases bs rule: rev_cases) (auto simp: strict_prefix_def)

text \<open>C30: While only a part of a frame is in the buffer, the parser reports no message and no error and
  leaves the part where it is, so that a message may be cut anywhere.\<close>

theorem partial_frame_waits:
  assumes "frame cr command payload = Inr bs" "strict_prefix b bs"
  shows "try_parse_envelope cr b = Inr (None, b)"
  using assms try_parse_partial [of "\<lparr>env_command = command, env_payload = payload\<rparr>" b cr]
    frame_env [of cr "\<lparr>env_command = command, env_payload = payload\<rparr>" bs]
  by simp

lemma partial_frame_waits_witness:
  "\<exists>bs. frame rfc4648_crates ''ping'' [1, 2, 3, 4, 5, 6, 7, 8] = Inr bs \<and>
     try_parse_envelope rfc4648_crates (butlast bs) = Inr (None, butlast bs)"
proof -
  let ?env = "\<lparr>env_command = ''ping'', env_payload = [1, 2, 3, 4, 5, 6, 7, 8]\<rparr>"
  let ?bs = "env_bytes rfc4648_crates ?env"
  have "command_ok ''ping''" by code_simp
  then have "env_ok ?env" by (simp add: env_ok_def MAX_PROTOCOL_MESSAGE_LENGTH_def)
  then have f: "frame rfc4648_crates ''ping'' [1, 2, 3, 4, 5, 6, 7, 8] = Inr ?bs"
    using frame_env [of rfc4648_crates ?env ?bs] by simp
  have "MAGIC \<noteq> []" by (simp add: MAGIC_def)
  then have "?bs \<noteq> []" by (simp add: env_bytes_def frame_header_def)
  then have "strict_prefix (butlast ?bs) ?bs" by (rule butlast_strict_prefix)
  from partial_frame_waits [OF f this] f show ?thesis by blast
qed

text \<open>C18: When the peer's bytes start with a frame and its last byte arrives before the deadline of the call and the
  one of the frame, \<open>recv_one\<close> delivers exactly that message, into however many reads the bytes are cut, and keeps
  the bytes after it. The frame must be at least 8191 bytes shorter than the largest one, or all the peer sends no
  longer than that: otherwise the read that completes the frame may bring so many bytes of the next message that
  the code refuses both.\<close>

theorem recv_one_delivers:
  assumes "frame cr (env_command env) (env_payload env) = Inr bs"
    and "flow c = bs @ r"
    and "min (length (flow c)) (length bs + 8191) \<le> 24 + MAX_PROTOCOL_MESSAGE_LENGTH"
    and "conn_ok c"
    and "missing (length bs) c = 0 \<or>
      complete_in (length bs) c < per_timeout \<and> complete_in (length bs) c < hard_remaining c"
  shows "\<exists>c'. recv_one cr per_timeout c = (Inr (Some env), c') \<and> flow c' = r"
  using recv_loop_delivers [of env c cr r "conn_now c + per_timeout"] assms
  by (auto simp: recv_one_def frame_env)

lemma recv_one_delivers_witness:
  "\<exists>s c'. length (ts_reads s) = 2 \<and>
     recv_one rfc4648_crates 1000 (connection_new s) =
       (Inr (Some \<lparr>env_command = ''verack'', env_payload = []\<rparr>), c') \<and> flow c' = []"
proof -
  let ?env = "\<lparr>env_command = ''verack'', env_payload = []\<rparr>"
  let ?bs = "env_bytes rfc4648_crates ?env"
  let ?s = "\<lparr>ts_reads = [(5, Data (take 10 ?bs)), (7, Data (drop 10 ?bs))], ts_writes = [],
    ts_sent = [], ts_clock = 0, ts_local = [], ts_peer = []\<rparr>"
  have c: "command_ok ''verack''" by code_simp
  then have "env_ok ?env" by (simp add: env_ok_def)
  then have f: "frame rfc4648_crates (env_command ?env) (env_payload ?env) = Inr ?bs"
    by (simp only: frame_env simp_thms)
  have len: "length ?bs = 24" using length_env_bytes [of ?env] c by simp
  have fl: "flow (connection_new ?s) = ?bs @ []"
    using len by (auto simp: flow_def connection_new_def)
  have "length (flow (connection_new ?s)) \<le> 24 + MAX_PROTOCOL_MESSAGE_LENGTH"
    unfolding fl using len by simp
  then have "\<exists>c'. recv_one rfc4648_crates 1000 (connection_new ?s) = (Inr (Some ?env), c') \<and> flow c' = []"
    by (intro recv_one_delivers [OF f fl _ conn_ok_new])
      (simp_all add: connection_new_def hard_remaining_def ENVELOPE_HARD_TIMEOUT_def)
  then show ?thesis by (intro exI [of _ ?s]) simp
qed

text \<open>C19: Whatever the peer does, \<open>recv_one\<close> returns within its timeout; a message it delivers is the next
  one of the byte flow, and when it times out it has lost no byte; in both cases the receive buffer stays
  within one maximal frame. When it fails, the buffer still starts with what it held before, and the
  flow is as it was, or has ended with all of it in the buffer; only the error that reports the full buffer
  leaves more than one maximal frame there, by one read at most.\<close>

theorem recv_one_safe:
  assumes "recv_one cr per_timeout c = (res, c')" "conn_ok c"
  shows "conn_now c' \<le> conn_now c + per_timeout \<and>
    (case res of
       Inl e \<Rightarrow>
         prefix (recv_buf c) (recv_buf c') \<and> (flow c' = flow c \<or> recv_buf c' = flow c) \<and>
         (if length (recv_buf c') \<le> 24 + MAX_PROTOCOL_MESSAGE_LENGTH then conn_ok c'
          else e = io_err InvalidData ''receive buffer limit exceeded'' \<and>
            length (recv_buf c') \<le> 24 + MAX_PROTOCOL_MESSAGE_LENGTH + 8192)
     | Inr None \<Rightarrow> flow c' = flow c \<and> conn_ok c'
     | Inr (Some env) \<Rightarrow>
         (\<exists>bs. frame cr (env_command env) (env_payload env) = Inr bs \<and> flow c = bs @ flow c') \<and>
         length (recv_buf c') \<le> 24 + MAX_PROTOCOL_MESSAGE_LENGTH \<and> conn_ok c')"
proof -
  have l: "recv_loop cr (conn_now c + per_timeout) c = (res, c')" using assms(1) by (simp add: recv_one_def)
  have t: "conn_now c' \<le> conn_now c + per_timeout" using recv_loop_time [OF l] by simp
  show ?thesis
  proof (cases res)
    case (Inl e)
    from recv_loop_fails [OF l [unfolded Inl] assms(2)] t show ?thesis unfolding Inl sum.case by blast
  next
    case (Inr m)
    with l recv_loop_flow [of cr _ c m c'] recv_loop_conn_ok [of cr _ c m c'] assms(2) t show ?thesis
      by (fastforce simp: frame_env conn_ok_def split: option.splits)
  qed
qed

lemma recv_one_safe_witness:
  "\<exists>c'. recv_one rfc4648_crates 20
      (connection_new \<lparr>ts_reads = [], ts_writes = [], ts_sent = [], ts_clock = 3, ts_local = [], ts_peer = []\<rparr>) =
      (Inr None, c') \<and> conn_now c' \<le> 23"
proof -
  let ?c = "connection_new \<lparr>ts_reads = [], ts_writes = [], ts_sent = [], ts_clock = 3, ts_local = [], ts_peer = []\<rparr>"
  have "fst (recv_one rfc4648_crates 20 ?c) = Inr None"
    unfolding recv_one_def
    by (subst recv_loop.simps) (simp add: connection_new_def try_parse_envelope_def
        hard_remaining_def timed_read_def Let_def ENVELOPE_HARD_TIMEOUT_def)
  then obtain c' where r: "recv_one rfc4648_crates 20 ?c = (Inr None, c')" by (metis prod.collapse)
  from recv_one_safe [OF r conn_ok_new] have "conn_now c' \<le> 23" by (simp add: connection_new_def)
  with r show ?thesis by blast
qed

text \<open>C29: Through a SOCKS5 proxy that accepts, the bytes written are exactly the no-authentication greeting
  and one CONNECT request for the domain name and port, and exactly the proxy's two replies are
  consumed, in whatever chunks they come: the stream is left at the first byte of the peer.\<close>

theorem socks5_handshake:
  assumes "length host \<le> 255" "ts_writes s = []"
    and "incoming s = [5, 0] @ reply @ r" "socks5_reply reply"
  shows "\<exists>s'. stream_then socks5_greeting (\<lambda>_. socks5_connect host port) s = (Some (Inr ()), s') \<and>
    incoming s' = r \<and>
    ts_sent s' = ts_sent s @ [5, 1, 0] @ [5, 1, 0, 3, word_of_nat (length host)] @ str_bytes host @ to_be_bytes port"
proof -
  obtain s1 where s1: "socks5_greeting s = (Some (Inr ()), s1)" "incoming s1 = reply @ r"
    "ts_writes s1 = []" "ts_sent s1 = ts_sent s @ [5, 1, 0]"
    by (rule socks5_greeting_ok [OF assms(2,3)])
  obtain s2 where "socks5_connect host port s1 = (Some (Inr ()), s2)" "incoming s2 = r"
    "ts_sent s2 = ts_sent s1 @ socks5_request host port"
    by (rule socks5_connect_ok [OF assms(1) s1(3,2) assms(4)])
  with s1 show ?thesis by (simp add: stream_then_def socks5_request_def)
qed

lemma socks5_handshake_witness:
  "\<exists>s'. stream_then socks5_greeting (\<lambda>_. socks5_connect ''x.onion'' 8333)
      \<lparr>ts_reads = [(1, Data [5, 0, 5]), (2, Data [0, 0, 1, 0, 0, 0, 0, 0, 0, 249])], ts_writes = [],
       ts_sent = [], ts_clock = 0, ts_local = [], ts_peer = []\<rparr> = (Some (Inr ()), s') \<and>
    incoming s' = [249]"
proof -
  have "socks5_reply [5, 0, 0, 1, 0, 0, 0, 0, 0, 0]"
    unfolding socks5_reply_def
    by (intro exI [of _ 5] exI [of _ 0] exI [of _ "[0, 0, 0, 0]"] exI [of _ "[0, 0]"]) simp
  from socks5_handshake [OF _ _ _ this, of "''x.onion''"
      "\<lparr>ts_reads = [(1, Data [5, 0, 5]), (2, Data [0, 0, 1, 0, 0, 0, 0, 0, 0, 249])], ts_writes = [],
       ts_sent = [], ts_clock = 0, ts_local = [], ts_peer = []\<rparr>" "[249]" 8333]
  show ?thesis by auto
qed

text \<open>C31: A line from the SAM bridge is returned without its newline, as text, leaving what follows it
  unread, whatever the chunks; and a bridge that sends 4097 bytes without a newline is refused.\<close>

theorem sam_read_line_spec:
  assumes "incoming s = line @ r" "10 \<notin> set line"
  shows "(\<forall>r'. r = 10 # r' \<longrightarrow> length line \<le> 4096 \<longrightarrow> utf8_valid line \<longrightarrow>
      (\<exists>s'. sam_read_line s = (Some (Inr (bytes_str line)), s') \<and> incoming s' = r')) \<and>
    (length line > 4096 \<longrightarrow>
      fst (sam_read_line s) = Some (Inl (io_err Other ''SAM line too long'')))"
  using sam_line_loop_data [of s line _ "[]"] sam_line_loop_long [OF assms, of "[]"] assms
  by (auto simp: sam_read_line_def utf8_lossy_valid)

lemma sam_read_line_spec_witness:
  "\<exists>s'. sam_read_line \<lparr>ts_reads = [(1, Data [72, 73]), (2, Data [33, 10, 65])], ts_writes = [],
       ts_sent = [], ts_clock = 0, ts_local = [], ts_peer = []\<rparr> = (Some (Inr ''HI!''), s') \<and>
    incoming s' = [65]"
proof -
  have 1: "bytes_str [72, 73, 33] = ''HI!''" "utf8_valid [72, 73, 33]" by code_simp+
  have "incoming \<lparr>ts_reads = [(1, Data [72, 73]), (2, Data [33, 10, 65])], ts_writes = [],
       ts_sent = [], ts_clock = 0, ts_local = [], ts_peer = []\<rparr> = [72, 73, 33] @ [10, 65]" by simp
  from sam_read_line_spec [OF this] 1 show ?thesis by simp
qed

end
