(* ===== verification/Store.thy ===== *)
theory Store
  imports Protocol "HOL-Library.AList"
begin

section \<open>The node store (src/store.rs)\<close>

text \<open>
  Node entries by address, the counter of outstanding work and the address budget. The sharded map
  is an association list with distinct keys; the order in which it lists its entries is not used
  by the program except through \<open>snapshot\<close>, whose order is unspecified. Counters are words of
  their width and wrap as in a release build.
\<close>

subsection \<open>Data\<close>

record addr_key =
  ak_host :: string
  ak_port :: u16

definition key_render :: "addr_key \<Rightarrow> string" where
  "key_render k = render_addr (ak_host k) (ak_port k)"

datatype node_state =
  Queued | Processing | Reachable | HandshakeFailed | Unreachable | StaleDiscarded | BudgetDiscarded

datatype fail_kind =
  ConnectRefused | ConnectTimeout | ConnectUnreachable | ConnectReset | ProxyError | SamError
| ConnectOther | VersionSendFailed | NegotiationSendFailed | VerackSendFailed | PeerVerackTimeout
| HandshakeTimeout | ConnectionClosed | MalformedVersion | ProtocolDesync | HandshakeOther
| WorkerFailed

fun fail_as_str :: "fail_kind \<Rightarrow> string" where
  "fail_as_str ConnectRefused = ''connect_refused''"
| "fail_as_str ConnectTimeout = ''connect_timeout''"
| "fail_as_str ConnectUnreachable = ''connect_unreachable''"
| "fail_as_str ConnectReset = ''connect_reset''"
| "fail_as_str ProxyError = ''proxy_error''"
| "fail_as_str SamError = ''sam_error''"
| "fail_as_str ConnectOther = ''connect_other''"
| "fail_as_str VersionSendFailed = ''version_send_failed''"
| "fail_as_str NegotiationSendFailed = ''negotiation_send_failed''"
| "fail_as_str VerackSendFailed = ''verack_send_failed''"
| "fail_as_str PeerVerackTimeout = ''peer_verack_timeout''"
| "fail_as_str HandshakeTimeout = ''handshake_timeout''"
| "fail_as_str ConnectionClosed = ''connection_closed''"
| "fail_as_str MalformedVersion = ''malformed_version''"
| "fail_as_str ProtocolDesync = ''protocol_desync''"
| "fail_as_str HandshakeOther = ''handshake_other''"
| "fail_as_str WorkerFailed = ''worker_failed''"

record handshake_data =
  hd_version :: int
  hd_services :: u64
  hd_user_agent :: string
  hd_latest_block :: int
  hd_relay :: bool
  hd_version_reply_timestamp_remote :: int
  hd_handshake_timestamp :: int
  hd_handshake_duration_ms :: u64
  hd_requested_endpoint :: string
  hd_transport_destination :: string
  hd_socket_local :: string
  hd_socket_peer :: string
  hd_version_addr_recv :: string
  hd_version_addr_recv_services :: u64
  hd_version_addr_from :: "string option"
  hd_version_addr_from_services :: "u64 option"
  hd_version_nonce :: "u64 option"

definition from_version ::
  "version_data \<Rightarrow> int \<Rightarrow> u64 \<Rightarrow> string \<Rightarrow> string \<Rightarrow> string \<Rightarrow> string \<Rightarrow> handshake_data" where
  "from_version v timestamp duration_ms requested destination local peer =
     \<lparr>hd_version = vd_version v, hd_services = vd_services v, hd_user_agent = vd_user_agent v,
      hd_latest_block = vd_latest_block v, hd_relay = vd_relay v,
      hd_version_reply_timestamp_remote = vd_timestamp v,
      hd_handshake_timestamp = timestamp, hd_handshake_duration_ms = duration_ms,
      hd_requested_endpoint = requested, hd_transport_destination = destination,
      hd_socket_local = local, hd_socket_peer = peer,
      hd_version_addr_recv = render_addr (vna_host (vd_addr_recv v)) (vna_port (vd_addr_recv v)),
      hd_version_addr_recv_services = vna_services (vd_addr_recv v),
      hd_version_addr_from = map_option (\<lambda>a. render_addr (vna_host a) (vna_port a)) (vd_addr_from v),
      hd_version_addr_from_services = map_option vna_services (vd_addr_from v),
      hd_version_nonce = vd_nonce v\<rparr>"

datatype collection_outcome =
  NotRequested | CompleteQuiet | NoResponseTimeout | PartialHardTimeout | HardTimeout | SendFailed
| MalformedResponse | PartialMalformedResponse | RemoteDisconnect | PartialRemoteDisconnect
| IncompleteEnvelopeTimeout | PartialIncompleteEnvelopeTimeout | LogFailed

fun outcome_as_str :: "collection_outcome \<Rightarrow> string" where
  "outcome_as_str NotRequested = ''not_requested''"
| "outcome_as_str CompleteQuiet = ''complete_quiet''"
| "outcome_as_str NoResponseTimeout = ''no_response_timeout''"
| "outcome_as_str PartialHardTimeout = ''partial_hard_timeout''"
| "outcome_as_str HardTimeout = ''hard_timeout''"
| "outcome_as_str SendFailed = ''send_failed''"
| "outcome_as_str MalformedResponse = ''malformed_response''"
| "outcome_as_str PartialMalformedResponse = ''partial_malformed_response''"
| "outcome_as_str RemoteDisconnect = ''remote_disconnect''"
| "outcome_as_str PartialRemoteDisconnect = ''partial_remote_disconnect''"
| "outcome_as_str IncompleteEnvelopeTimeout = ''incomplete_envelope_timeout''"
| "outcome_as_str PartialIncompleteEnvelopeTimeout = ''partial_incomplete_envelope_timeout''"
| "outcome_as_str LogFailed = ''log_failed''"

record attempt_data =
  at_attempt :: u32
  at_connect_duration_ms :: "u64 option"
  at_version_send_timestamp :: "int option"
  at_outcome :: string
  at_failure :: "fail_kind option"

record node_stats =
  time_connect_ms :: "u64 option"
  handshake_attempts :: u32
  first_version_send_ts :: "int option"
  advertised_total :: u64
  advertised_ipv4 :: u64
  advertised_ipv6 :: u64
  advertised_onion_v2 :: u64
  advertised_onion_v3 :: u64
  advertised_i2p :: u64
  advertised_cjdns :: u64
  advertised_unknown :: u64
  collection_outcome :: collection_outcome
  valid_addr_messages :: u64
  malformed_addr_messages :: u64

definition stats_default :: node_stats where
  "stats_default =
     \<lparr>time_connect_ms = None, handshake_attempts = 0, first_version_send_ts = None,
      advertised_total = 0, advertised_ipv4 = 0, advertised_ipv6 = 0, advertised_onion_v2 = 0,
      advertised_onion_v3 = 0, advertised_i2p = 0, advertised_cjdns = 0, advertised_unknown = 0,
      collection_outcome = NotRequested, valid_addr_messages = 0, malformed_addr_messages = 0\<rparr>"

definition record_advertised :: "network_type \<Rightarrow> node_stats \<Rightarrow> node_stats" where
  "record_advertised net s0 =
     (let s = s0\<lparr>advertised_total := advertised_total s0 + 1\<rparr>
      in case net of
           Ipv4 \<Rightarrow> s\<lparr>advertised_ipv4 := advertised_ipv4 s + 1\<rparr>
         | Ipv6 \<Rightarrow> s\<lparr>advertised_ipv6 := advertised_ipv6 s + 1\<rparr>
         | OnionV2 \<Rightarrow> s\<lparr>advertised_onion_v2 := advertised_onion_v2 s + 1\<rparr>
         | OnionV3 \<Rightarrow> s\<lparr>advertised_onion_v3 := advertised_onion_v3 s + 1\<rparr>
         | I2p \<Rightarrow> s\<lparr>advertised_i2p := advertised_i2p s + 1\<rparr>
         | Cjdns \<Rightarrow> s\<lparr>advertised_cjdns := advertised_cjdns s + 1\<rparr>
         | Unknown \<Rightarrow> s\<lparr>advertised_unknown := advertised_unknown s + 1\<rparr>)"

record node_entry =
  ne_network :: network_type
  freshest_ts :: int
  ne_state :: node_state
  ne_handshake :: "handshake_data option"
  ne_stats :: node_stats
  ne_failure :: "fail_kind option"
  ne_attempts :: "attempt_data list"

definition node_entry_new :: "network_type \<Rightarrow> int \<Rightarrow> node_state \<Rightarrow> node_entry" where
  "node_entry_new network ts state =
     \<lparr>ne_network = network, freshest_ts = ts, ne_state = state, ne_handshake = None,
      ne_stats = stats_default, ne_failure = None, ne_attempts = []\<rparr>"

subsection \<open>The store and its operations\<close>

record node_store =
  ns_map :: "(addr_key \<times> node_entry) list"
  ns_outstanding :: usize
  ns_entries :: usize
  ns_max_entries :: usize
  ns_budget_rejected :: usize

definition with_limit :: "usize \<Rightarrow> node_store" where
  "with_limit max_entries =
     \<lparr>ns_map = [], ns_outstanding = 0, ns_entries = 0, ns_max_entries = max_entries,
      ns_budget_rejected = 0\<rparr>"

abbreviation lookup :: "node_store \<Rightarrow> addr_key \<Rightarrow> node_entry option" where
  "lookup s \<equiv> map_of (ns_map s)"

definition incr_outstanding :: "node_store \<Rightarrow> node_store" where
  "incr_outstanding s = s\<lparr>ns_outstanding := ns_outstanding s + 1\<rparr>"

text \<open>\<open>fetch_sub\<close> returns the value before.\<close>

definition decr_outstanding :: "node_store \<Rightarrow> usize \<times> node_store" where
  "decr_outstanding s = (ns_outstanding s, s\<lparr>ns_outstanding := ns_outstanding s - 1\<rparr>)"

definition with_entry ::
  "addr_key \<Rightarrow> (node_entry \<Rightarrow> 'r \<times> node_entry) \<Rightarrow> node_store \<Rightarrow> 'r option \<times> node_store" where
  "with_entry key f s =
     (case lookup s key of
        None \<Rightarrow> (None, s)
      | Some e \<Rightarrow> (case f e of (r, e') \<Rightarrow> (Some r, s\<lparr>ns_map := AList.update key e' (ns_map s)\<rparr>)))"

text \<open>\<open>with_entry\<close> for a closure without a result.\<close>

definition update_entry :: "addr_key \<Rightarrow> (node_entry \<Rightarrow> node_entry) \<Rightarrow> node_store \<Rightarrow> node_store" where
  "update_entry key f s = snd (with_entry key (\<lambda>e. ((), f e)) s)"

definition network_of :: "node_store \<Rightarrow> addr_key \<Rightarrow> network_type option" where
  "network_of s key = map_option ne_network (lookup s key)"

definition snapshot :: "node_store \<Rightarrow> (addr_key \<times> node_entry) list" where
  "snapshot s = ns_map s"

definition count_state :: "node_store \<Rightarrow> node_state \<Rightarrow> nat" where
  "count_state s state = length (filter (\<lambda>(k, e). ne_state e = state) (ns_map s))"

definition reserve_entry :: "node_store \<Rightarrow> bool \<times> node_store" where
  "reserve_entry s =
     (if ns_entries s < ns_max_entries s then (True, s\<lparr>ns_entries := ns_entries s + 1\<rparr>)
      else (False, s\<lparr>ns_budget_rejected := ns_budget_rejected s + 1\<rparr>))"

definition insert_entry :: "addr_key \<Rightarrow> node_entry \<Rightarrow> node_store \<Rightarrow> node_store" where
  "insert_entry key e s = s\<lparr>ns_map := AList.update key e (ns_map s)\<rparr>"

definition observe_seed :: "crates \<Rightarrow> addr_key \<Rightarrow> int \<Rightarrow> node_store \<Rightarrow> bool \<times> node_store" where
  "observe_seed cr key now s =
     (let network = classify cr (ak_host key)
      in case lookup s key of
           Some e \<Rightarrow> (False, insert_entry key (e\<lparr>freshest_ts := max (freshest_ts e) now\<rparr>) s)
         | None \<Rightarrow>
             (case reserve_entry s of
                (False, s') \<Rightarrow> (False, s')
              | (True, s') \<Rightarrow> (True, insert_entry key (node_entry_new network now Queued) s')))"

datatype frontier_outcome = Enqueue | Known | StaleNew | StillStale | BudgetRejected

definition frontier_upsert ::
  "addr_key \<Rightarrow> int \<Rightarrow> network_type \<Rightarrow> int \<Rightarrow> int \<Rightarrow> node_store \<Rightarrow> frontier_outcome \<times> node_store" where
  "frontier_upsert key observed_ts network threshold now s =
     (case lookup s key of
        Some e0 \<Rightarrow>
          let e = e0\<lparr>freshest_ts := max (freshest_ts e0) observed_ts\<rparr>
          in if ne_state e \<noteq> StaleDiscarded then (Known, insert_entry key e s)
             else if threshold > 0 \<and> freshest_ts e < now - threshold
             then (StillStale, insert_entry key e s)
             else (Enqueue, insert_entry key (e\<lparr>ne_state := Queued\<rparr>) s)
      | None \<Rightarrow>
          (case reserve_entry s of
             (False, s') \<Rightarrow> (BudgetRejected, s')
           | (True, s') \<Rightarrow>
               if threshold > 0 \<and> observed_ts < now - threshold
               then (StaleNew, insert_entry key (node_entry_new network observed_ts StaleDiscarded) s')
               else (Enqueue, insert_entry key (node_entry_new network observed_ts Queued) s')))"

subsection \<open>Per-network counts\<close>

record network_breakdown =
  nb_total :: u64
  nb_unknown :: u64
  nb_ipv4 :: u64
  nb_ipv6 :: u64
  nb_onion_v2 :: u64
  nb_onion_v3 :: u64
  nb_i2p :: u64
  nb_cjdns :: u64

definition breakdown_default :: network_breakdown where
  "breakdown_default = \<lparr>nb_total = 0, nb_unknown = 0, nb_ipv4 = 0, nb_ipv6 = 0, nb_onion_v2 = 0,
     nb_onion_v3 = 0, nb_i2p = 0, nb_cjdns = 0\<rparr>"

definition breakdown_add :: "network_type \<Rightarrow> network_breakdown \<Rightarrow> network_breakdown" where
  "breakdown_add net b0 =
     (let b = b0\<lparr>nb_total := nb_total b0 + 1\<rparr>
      in case net of
           Ipv4 \<Rightarrow> b\<lparr>nb_ipv4 := nb_ipv4 b + 1\<rparr>
         | Ipv6 \<Rightarrow> b\<lparr>nb_ipv6 := nb_ipv6 b + 1\<rparr>
         | OnionV2 \<Rightarrow> b\<lparr>nb_onion_v2 := nb_onion_v2 b + 1\<rparr>
         | OnionV3 \<Rightarrow> b\<lparr>nb_onion_v3 := nb_onion_v3 b + 1\<rparr>
         | I2p \<Rightarrow> b\<lparr>nb_i2p := nb_i2p b + 1\<rparr>
         | Cjdns \<Rightarrow> b\<lparr>nb_cjdns := nb_cjdns b + 1\<rparr>
         | Unknown \<Rightarrow> b\<lparr>nb_unknown := nb_unknown b + 1\<rparr>)"

subsection \<open>The store as an interface\<close>

text \<open>
  What the crawler relies on: an update touches the entry of its key only, an insertion adds one
  entry, and both change a count by what happens to that entry. The invariants of the crawl are
  proved from these laws.
\<close>

locale entry_store =
  fixes get :: "'s \<Rightarrow> 'k \<Rightarrow> 'e option"
    and upd :: "'k \<Rightarrow> ('e \<Rightarrow> 'e) \<Rightarrow> 's \<Rightarrow> 's"
    and ins :: "'k \<Rightarrow> 'e \<Rightarrow> 's \<Rightarrow> 's"
    and cnt :: "('k \<Rightarrow> 'e \<Rightarrow> bool) \<Rightarrow> 's \<Rightarrow> nat"
  assumes get_upd: "get (upd k f s) k' = (if k' = k then map_option f (get s k) else get s k')"
    and get_ins: "get (ins k e s) k' = (if k' = k then Some e else get s k')"
    and cnt_upd: "get s k = Some e \<Longrightarrow>
        cnt P (upd k f s) + of_bool (P k e) = cnt P s + of_bool (P k (f e))"
    and cnt_ins_new: "get s k = None \<Longrightarrow> cnt P (ins k e s) = cnt P s + of_bool (P k e)"
    and cnt_ins_old: "get s k = Some e0 \<Longrightarrow>
        cnt P (ins k e s) + of_bool (P k e0) = cnt P s + of_bool (P k e)"
    and upd_absent: "get s k = None \<Longrightarrow> upd k f s = s"
    and cnt_pos: "get s k = Some e \<Longrightarrow> P k e \<Longrightarrow> 0 < cnt P s"
begin

lemma cnt_upd_same:
  "(\<And>e. get s k = Some e \<Longrightarrow> P k (f e) \<longleftrightarrow> P k e) \<Longrightarrow> cnt P (upd k f s) = cnt P s"
  using cnt_upd [of s k _ P f] upd_absent [of s k f] by (cases "get s k") fastforce+

lemma cnt_upd_gain:
  "get s k = Some e \<Longrightarrow> \<not> P k e \<Longrightarrow> P k (f e) \<Longrightarrow> cnt P (upd k f s) = Suc (cnt P s)"
  using cnt_upd [of s k e P f] by simp

lemma cnt_upd_lose:
  "get s k = Some e \<Longrightarrow> P k e \<Longrightarrow> \<not> P k (f e) \<Longrightarrow> Suc (cnt P (upd k f s)) = cnt P s"
  using cnt_upd [of s k e P f] by simp

lemma cnt_ins_same:
  "get s k = Some e0 \<Longrightarrow> P k e \<longleftrightarrow> P k e0 \<Longrightarrow> cnt P (ins k e s) = cnt P s"
  using cnt_ins_old [of s k e0 P e] by simp

text \<open>An update that keeps a property of every entry keeps it for the store.\<close>

lemma all_upd:
  assumes "\<And>k e. get s k = Some e \<Longrightarrow> P k e" "\<And>e. get s k0 = Some e \<Longrightarrow> P k0 (f e)"
    and "get (upd k0 f s) k = Some e"
  shows "P k e"
  using assms by (auto simp: get_upd split: if_splits)

lemma all_ins:
  assumes "\<And>k e. get s k = Some e \<Longrightarrow> P k e" "P k0 e0" "get (ins k0 e0 s) k = Some e"
  shows "P k e"
  using assms by (auto simp: get_ins split: if_splits)

end

definition count_entries :: "(addr_key \<Rightarrow> node_entry \<Rightarrow> bool) \<Rightarrow> node_store \<Rightarrow> nat" where
  "count_entries P s = length (filter (\<lambda>(k, e). P k e) (ns_map s))"

lemma count_update_old:
  "map_of xs k = Some e0 \<Longrightarrow>
     length (filter (\<lambda>(k, e). P k e) (AList.update k e xs)) + of_bool (P k e0) =
     length (filter (\<lambda>(k, e). P k e) xs) + of_bool (P k e)"
  by (induction xs) (auto split: if_splits)

lemma count_update_new:
  "map_of xs k = None \<Longrightarrow>
     length (filter (\<lambda>(k, e). P k e) (AList.update k e xs)) =
     length (filter (\<lambda>(k, e). P k e) xs) + of_bool (P k e)"
  by (induction xs) (auto split: if_splits)

lemma update_entry_eq:
  "update_entry k f s =
     (case lookup s k of None \<Rightarrow> s | Some e \<Rightarrow> s\<lparr>ns_map := AList.update k (f e) (ns_map s)\<rparr>)"
  by (simp add: update_entry_def with_entry_def split: option.splits)

lemma count_entries_pos: "lookup s k = Some e \<Longrightarrow> P k e \<Longrightarrow> 0 < count_entries P s"
  using map_of_SomeD [of "ns_map s" k e] by (force simp: count_entries_def length_greater_0_conv filter_empty_conv)

interpretation es: entry_store lookup update_entry insert_entry count_entries
proof
  fix s k e f and P :: "addr_key \<Rightarrow> node_entry \<Rightarrow> bool"
  assume "lookup s k = Some e"
  then show "count_entries P (update_entry k f s) + of_bool (P k e) = count_entries P s + of_bool (P k (f e))"
    using count_update_old [of "ns_map s" k e P "f e"]
    by (simp add: count_entries_def update_entry_eq)
next
  fix s k e0 e and P :: "addr_key \<Rightarrow> node_entry \<Rightarrow> bool"
  assume "lookup s k = Some e0"
  then show "count_entries P (insert_entry k e s) + of_bool (P k e0) = count_entries P s + of_bool (P k e)"
    using count_update_old [of "ns_map s" k e0 P e]
    by (simp add: count_entries_def insert_entry_def)
next
  fix s k e and P :: "addr_key \<Rightarrow> node_entry \<Rightarrow> bool"
  assume "lookup s k = None"
  then show "count_entries P (insert_entry k e s) = count_entries P s + of_bool (P k e)"
    using count_update_new [of "ns_map s" k P e]
    by (simp add: count_entries_def insert_entry_def)
qed (auto simp: update_entry_eq insert_entry_def update_conv' count_entries_pos split: option.splits)

lemma count_state_entries: "count_state s st = count_entries (\<lambda>_ e. ne_state e = st) s"
  by (simp add: count_state_def count_entries_def)

lemma with_entry_snd: "snd (with_entry k f s) = update_entry k (\<lambda>e. snd (f e)) s"
  by (auto simp: with_entry_def update_entry_eq split: option.splits prod.splits)

lemma with_entry_fst: "fst (with_entry k f s) = map_option (\<lambda>e. fst (f e)) (lookup s k)"
  by (auto simp: with_entry_def split: option.splits prod.splits)

lemma update_entry_fields [simp]:
  "ns_outstanding (update_entry k f s) = ns_outstanding s"
  "ns_entries (update_entry k f s) = ns_entries s"
  "ns_max_entries (update_entry k f s) = ns_max_entries s"
  "ns_budget_rejected (update_entry k f s) = ns_budget_rejected s"
  by (simp_all add: update_entry_eq split: option.splits)

lemma insert_entry_fields [simp]:
  "ns_outstanding (insert_entry k e s) = ns_outstanding s"
  "ns_entries (insert_entry k e s) = ns_entries s"
  "ns_max_entries (insert_entry k e s) = ns_max_entries s"
  "ns_budget_rejected (insert_entry k e s) = ns_budget_rejected s"
  by (simp_all add: insert_entry_def)

lemma counter_maps [simp]:
  "ns_map (incr_outstanding s) = ns_map s" "ns_map (snd (decr_outstanding s)) = ns_map s"
  by (simp_all add: incr_outstanding_def decr_outstanding_def)

subsection \<open>The invariant of the store\<close>

text \<open>
  Keys are distinct, \<open>entries\<close> counts them, and the budget is respected.
\<close>

definition store_ok :: "node_store \<Rightarrow> bool" where
  "store_ok s \<longleftrightarrow>
     distinct (map fst (ns_map s)) \<and> unat (ns_entries s) = length (ns_map s) \<and>
     ns_entries s \<le> ns_max_entries s"

lemma store_ok_with_limit: "store_ok (with_limit n)"
  by (simp add: store_ok_def with_limit_def)

lemma length_update_old: "map_of xs k = Some e0 \<Longrightarrow> length (AList.update k e xs) = length xs"
  by (induction xs) (auto split: if_splits)

lemma length_update_new: "map_of xs k = None \<Longrightarrow> length (AList.update k e xs) = Suc (length xs)"
  by (induction xs) (auto split: if_splits)

lemma store_ok_insert_old:
  "store_ok s \<Longrightarrow> lookup s k = Some e0 \<Longrightarrow> store_ok (insert_entry k e s)"
  by (simp add: store_ok_def insert_entry_def distinct_update length_update_old)

lemma store_ok_update: "store_ok s \<Longrightarrow> store_ok (update_entry k f s)"
  by (auto simp: store_ok_def update_entry_eq distinct_update length_update_old split: option.splits)

lemma reserve_entry_True:
  assumes "reserve_entry s = (True, s')" "store_ok s" "lookup s k = None"
  shows "store_ok (insert_entry k e s') \<and> ns_map s' = ns_map s \<and> ns_outstanding s' = ns_outstanding s"
proof -
  from assms(1) have lt: "ns_entries s < ns_max_entries s" and s': "s' = s\<lparr>ns_entries := ns_entries s + 1\<rparr>"
    by (auto simp: reserve_entry_def split: if_splits)
  have "unat (ns_entries s) + 1 < 2 ^ 64"
    using lt unsigned_less [of "ns_max_entries s", where ?'a = nat] by (simp add: word_less_nat_alt)
  then have u: "unat (ns_entries s + 1) = Suc (unat (ns_entries s))"
    by (simp add: unat_word_ariths)
  with lt have "ns_entries s + 1 \<le> ns_max_entries s" by (simp add: word_le_nat_alt word_less_nat_alt)
  with u assms(2,3) s' show ?thesis
    by (simp add: store_ok_def insert_entry_def distinct_update length_update_new)
qed

lemma reserve_entry_False:
  assumes "reserve_entry s = (False, s')"
  shows "ns_map s' = ns_map s \<and> ns_entries s' = ns_entries s \<and> ns_max_entries s' = ns_max_entries s \<and>
    ns_outstanding s' = ns_outstanding s \<and> ns_entries s \<ge> ns_max_entries s \<and>
    ns_budget_rejected s' = ns_budget_rejected s + 1"
  using assms by (auto simp: reserve_entry_def split: if_splits)

lemma store_ok_frontier_upsert:
  assumes "store_ok s"
  shows "store_ok (snd (frontier_upsert k ts net thr now s))"
proof (cases "lookup s k")
  case (Some e)
  with assms store_ok_insert_old [OF assms Some] show ?thesis
    by (simp add: frontier_upsert_def Let_def)
next
  case None
  obtain b s' where r: "reserve_entry s = (b, s')" by fastforce
  show ?thesis
  proof (cases b)
    case True
    with r have r': "reserve_entry s = (True, s')" by simp
    have "store_ok (insert_entry k e s')" for e
      using reserve_entry_True [OF r' assms None] by blast
    then show ?thesis by (simp add: frontier_upsert_def r' None)
  next
    case False
    with r have r': "reserve_entry s = (False, s')" by simp
    from reserve_entry_False [OF this] assms have "store_ok s'" by (simp add: store_ok_def)
    then show ?thesis by (simp add: frontier_upsert_def r' None)
  qed
qed

lemma store_ok_observe_seed:
  assumes "store_ok s"
  shows "store_ok (snd (observe_seed cr k now s))"
proof (cases "lookup s k")
  case (Some e)
  with store_ok_insert_old [OF assms Some] show ?thesis by (simp add: observe_seed_def Let_def)
next
  case None
  obtain b s' where r: "reserve_entry s = (b, s')" by fastforce
  show ?thesis
  proof (cases b)
    case True
    with r have r': "reserve_entry s = (True, s')" by simp
    have "store_ok (insert_entry k e s')" for e
      using reserve_entry_True [OF r' assms None] by blast
    then show ?thesis by (simp add: observe_seed_def r' None Let_def)
  next
    case False
    with r have r': "reserve_entry s = (False, s')" by simp
    from reserve_entry_False [OF this] assms have "store_ok s'" by (simp add: store_ok_def)
    then show ?thesis by (simp add: observe_seed_def r' None Let_def)
  qed
qed

section \<open>Properties of the store\<close>

text \<open>The stores that the operations can make out of an empty one with a budget.\<close>

inductive store_reach :: "usize \<Rightarrow> node_store \<Rightarrow> bool" for n :: usize where
  reach_new: "store_reach n (with_limit n)"
| reach_seed: "store_reach n s \<Longrightarrow> store_reach n (snd (observe_seed cr k now s))"
| reach_frontier: "store_reach n s \<Longrightarrow> store_reach n (snd (frontier_upsert k ts net thr now s))"
| reach_entry: "store_reach n s \<Longrightarrow> store_reach n (update_entry k f s)"
| reach_incr: "store_reach n s \<Longrightarrow> store_reach n (incr_outstanding s)"
| reach_decr: "store_reach n s \<Longrightarrow> store_reach n (snd (decr_outstanding s))"

lemma reserve_entry_max: "ns_max_entries (snd (reserve_entry s)) = ns_max_entries s"
  by (simp add: reserve_entry_def)

lemma frontier_upsert_max: "ns_max_entries (snd (frontier_upsert k ts net thr now s)) = ns_max_entries s"
  using reserve_entry_max [of s]
  by (auto simp: frontier_upsert_def Let_def split: option.splits prod.splits bool.splits)

lemma observe_seed_max: "ns_max_entries (snd (observe_seed cr k now s)) = ns_max_entries s"
  using reserve_entry_max [of s]
  by (auto simp: observe_seed_def Let_def split: option.splits prod.splits bool.splits)

lemma store_reach_ok: "store_reach n s \<Longrightarrow> store_ok s \<and> ns_max_entries s = n"
proof (induction rule: store_reach.induct)
  case reach_new
  then show ?case using store_ok_with_limit [of n] by (simp add: with_limit_def)
qed (auto simp: store_ok_observe_seed store_ok_frontier_upsert observe_seed_max frontier_upsert_max
    store_ok_update, auto simp: store_ok_def incr_outstanding_def decr_outstanding_def)

text \<open>C21: Whatever operations run on a store with a budget of \<open>n\<close> addresses, it never holds more than
  \<open>n\<close> entries, holds one entry per address, and its entry counter is the number of its entries.\<close>

theorem store_within_budget:
  assumes "store_reach n s"
  shows "length (snapshot s) \<le> unat n \<and> distinct (map fst (snapshot s)) \<and>
    unat (ns_entries s) = length (snapshot s)"
  using store_reach_ok [OF assms] by (auto simp: store_ok_def snapshot_def word_le_nat_alt)

lemma store_within_budget_witness:
  "length (snapshot (snd (frontier_upsert \<lparr>ak_host = ''5.6.7.8'', ak_port = 8333\<rparr> 5 Ipv4 0 9
     (snd (frontier_upsert \<lparr>ak_host = ''1.2.3.4'', ak_port = 8333\<rparr> 5 Ipv4 0 9 (with_limit 1)))))) \<le> 1"
  using store_within_budget [OF reach_frontier [OF reach_frontier [OF reach_new [of 1]]]] by simp

definition is_fresh :: "int \<Rightarrow> int \<Rightarrow> int \<Rightarrow> bool" where
  "is_fresh threshold now ts \<longleftrightarrow> threshold > 0 \<longrightarrow> ts \<ge> now - threshold"

lemma reserve_entry_cases:
  "reserve_entry s = (b, s') \<Longrightarrow> (b \<longleftrightarrow> ns_entries s < ns_max_entries s) \<and> ns_map s' = ns_map s"
  by (auto simp: reserve_entry_def split: if_splits)

text \<open>C20: An advertised address is handed to the queues exactly when it is new, fresh and within the
  budget, or was discarded as stale and is fresh now; its entry is then \<open>Queued\<close>. In every other
  case the state of a known entry is left alone, and no other entry is ever touched.\<close>

theorem frontier_upsert_decides:
  "frontier_upsert k ts net thr now s = (out, s') \<Longrightarrow>
     (out = Enqueue \<longleftrightarrow>
        (case lookup s k of
           None \<Rightarrow> ns_entries s < ns_max_entries s \<and> is_fresh thr now ts
         | Some e \<Rightarrow> ne_state e = StaleDiscarded \<and> is_fresh thr now (max (freshest_ts e) ts))) \<and>
     map_option ne_state (lookup s' k) =
       (if out = Enqueue then Some Queued
        else if out = StaleNew then Some StaleDiscarded
        else map_option ne_state (lookup s k)) \<and>
     (\<forall>k'. k' \<noteq> k \<longrightarrow> lookup s' k' = lookup s k')"
proof (cases "lookup s k")
  case (Some e)
  assume "frontier_upsert k ts net thr now s = (out, s')"
  with Some show ?thesis
    by (auto simp: frontier_upsert_def Let_def is_fresh_def insert_entry_def update_conv'
        split: if_splits)
next
  case None
  assume f: "frontier_upsert k ts net thr now s = (out, s')"
  obtain b s1 where r: "reserve_entry s = (b, s1)" by fastforce
  with f None reserve_entry_cases [OF r] show ?thesis
    by (cases b) (auto simp: frontier_upsert_def is_fresh_def insert_entry_def update_conv'
        node_entry_new_def split: if_splits)
qed

lemma frontier_upsert_decides_witness:
  "\<exists>s'. frontier_upsert \<lparr>ak_host = ''1.2.3.4'', ak_port = 8333\<rparr> 5 Ipv4 10 9 (with_limit 1) = (Enqueue, s') \<and>
     map_option ne_state (lookup s' \<lparr>ak_host = ''1.2.3.4'', ak_port = 8333\<rparr>) = Some Queued"
proof -
  let ?k = "\<lparr>ak_host = ''1.2.3.4'', ak_port = 8333\<rparr> :: addr_key"
  obtain out s' where f: "frontier_upsert ?k 5 Ipv4 10 9 (with_limit 1) = (out, s')" by fastforce
  from frontier_upsert_decides [OF f] f show ?thesis
    by (auto simp: with_limit_def is_fresh_def)
qed

text \<open>Observing an address never makes it look older: the timestamp of an entry is the maximum of what it
  was and what was observed, for seeds and for advertised addresses.\<close>

lemma freshest_is_max:
  assumes "lookup s k = Some e"
  shows "map_option freshest_ts (lookup (snd (frontier_upsert k ts net thr now s)) k) =
      Some (max (freshest_ts e) ts) \<and>
    map_option freshest_ts (lookup (snd (observe_seed cr k now s)) k) = Some (max (freshest_ts e) now)"
  using assms by (simp add: frontier_upsert_def observe_seed_def Let_def insert_entry_def update_conv')

text \<open>The breakdown as a function of the networks counted.\<close>

definition net_count :: "network_type list \<Rightarrow> network_type \<Rightarrow> u64" where
  "net_count ns n = word_of_nat (length (filter (\<lambda>x. x = n) ns))"

lemma net_count_snoc [simp]: "net_count (ns @ [m]) n = net_count ns n + of_bool (m = n)"
  by (simp add: net_count_def)

lemma breakdown_counts:
  "fold breakdown_add ns breakdown_default =
     \<lparr>nb_total = word_of_nat (length ns), nb_unknown = net_count ns Unknown, nb_ipv4 = net_count ns Ipv4,
      nb_ipv6 = net_count ns Ipv6, nb_onion_v2 = net_count ns OnionV2, nb_onion_v3 = net_count ns OnionV3,
      nb_i2p = net_count ns I2p, nb_cjdns = net_count ns Cjdns\<rparr>"
proof (induction ns rule: rev_induct)
  case Nil
  then show ?case by (simp add: breakdown_default_def net_count_def)
next
  case (snoc n ns)
  then show ?case by (cases n) (simp_all add: breakdown_add_def Let_def)
qed

lemma net_count_total:
  "word_of_nat (length ns) = net_count ns Unknown + net_count ns Ipv4 + net_count ns Ipv6 +
     net_count ns OnionV2 + net_count ns OnionV3 + net_count ns I2p + net_count ns Cjdns"
proof (induction ns rule: rev_induct)
  case Nil
  then show ?case by (simp add: net_count_def)
next
  case (snoc n ns)
  then show ?case by (cases n) (simp_all add: algebra_simps)
qed

text \<open>A breakdown of any list of networks counts each network exactly, and its total is the sum of
  its parts.\<close>

lemma breakdown_total:
  "(let b = fold breakdown_add ns breakdown_default
    in nb_total b = nb_unknown b + nb_ipv4 b + nb_ipv6 b + nb_onion_v2 b + nb_onion_v3 b + nb_i2p b + nb_cjdns b \<and>
       nb_total b = word_of_nat (length ns) \<and>
       nb_ipv4 b = net_count ns Ipv4 \<and> nb_onion_v3 b = net_count ns OnionV3)"
  by (simp add: breakdown_counts net_count_total [symmetric])

end
