(* ===== verification/Settings.thy ===== *)
theory Settings
  imports Address Text
begin

section \<open>Settings (src/settings.rs)\<close>

text \<open>
  The settings tree, the command line arguments as \<open>clap\<close> delivers them (their defaults are in
  \<open>common_defaults\<close> and \<open>cli_defaults\<close>), the checks that turn arguments into settings, and the
  parser of durations. An error of \<open>anyhow\<close> is its text.
\<close>

subsection \<open>The settings tree\<close>

record timeouts =
  to_connect :: u64
  to_message :: u64
  to_getaddr :: u64
  to_getaddr_idle :: u64

record version_info =
  vi_version :: string
  vi_extra :: "string option"

record enabled_networks =
  en_ipv4 :: bool
  en_ipv6 :: bool
  en_tor :: bool
  en_i2p :: bool
  en_cjdns :: bool

record concurrency =
  cc_ip :: usize
  cc_tor :: usize
  cc_i2p :: usize

record timeout_settings =
  ts_ip :: timeouts
  ts_tor :: timeouts
  ts_i2p :: timeouts
  ts_cjdns :: timeouts

record network_endpoints =
  tor_proxy_host :: string
  tor_proxy_port :: u16
  i2p_sam_host :: string
  i2p_sam_port :: u16

record node_settings =
  ns_timeouts :: timeout_settings
  ns_handshake_attempts :: u32
  ns_endpoints :: network_endpoints

record result_settings =
  rs_path :: string
  rs_timestamp :: string
  rs_reachable_nodes :: string
  rs_handshake_failed_nodes :: string
  rs_unreachable_nodes :: string
  rs_crawler_stats :: string
  rs_addr_responses :: string

record settings =
  st_version_info :: version_info
  st_delay_start :: u64
  st_max_nodes :: "usize option"
  st_max_addresses :: usize
  st_enabled_networks :: enabled_networks
  st_strict_networks :: bool
  st_freshness_threshold :: int
  st_record_addr_responses :: bool
  st_concurrency :: concurrency
  st_node_settings :: node_settings
  st_result_settings :: result_settings
  st_dry_run :: bool
  st_log_level :: string
  st_store_debug_log :: bool
  st_retry_on_timeout :: bool
  st_checkpoint_interval :: int
  st_probe_mode :: bool

definition timeouts_for :: "settings \<Rightarrow> network_type \<Rightarrow> timeouts" where
  "timeouts_for st net =
     (let t = ns_timeouts (st_node_settings st)
      in case net of
           Ipv4 \<Rightarrow> ts_ip t | Ipv6 \<Rightarrow> ts_ip t | Cjdns \<Rightarrow> ts_cjdns t
         | OnionV2 \<Rightarrow> ts_tor t | OnionV3 \<Rightarrow> ts_tor t | I2p \<Rightarrow> ts_i2p t | Unknown \<Rightarrow> ts_ip t)"

definition is_enabled :: "settings \<Rightarrow> network_type \<Rightarrow> bool" where
  "is_enabled st net =
     (let n = st_enabled_networks st
      in case net of
           Ipv4 \<Rightarrow> en_ipv4 n | Ipv6 \<Rightarrow> en_ipv6 n | Cjdns \<Rightarrow> en_cjdns n
         | OnionV2 \<Rightarrow> en_tor n | OnionV3 \<Rightarrow> en_tor n | I2p \<Rightarrow> en_i2p n | Unknown \<Rightarrow> False)"

text \<open>Paths are texts; \<open>join\<close> of a relative name appends it after one separator.\<close>

definition path_join :: "string \<Rightarrow> string \<Rightarrow> string" where
  "path_join base name =
     (if prefix ''/'' name then name
      else if base = [] \<or> suffix ''/'' base then base @ name
      else base @ ''/'' @ name)"

definition run_prefix :: "settings \<Rightarrow> string" where
  "run_prefix st = rs_timestamp (st_result_settings st) @ ''_v'' @ vi_version (st_version_info st)"

definition run_dir :: "settings \<Rightarrow> string" where
  "run_dir st = path_join (rs_path (st_result_settings st)) (run_prefix st)"

definition output_path :: "settings \<Rightarrow> string \<Rightarrow> string" where
  "output_path st file = path_join (run_dir st) file"

subsection \<open>Arguments\<close>

record common_args =
  ca_ip_timeouts :: timeouts
  ca_tor_timeouts :: timeouts
  ca_i2p_timeouts :: timeouts
  ca_cjdns_timeouts :: timeouts
  ca_ip_concurrency :: usize
  ca_tor_concurrency :: usize
  ca_i2p_concurrency :: usize
  ca_handshake_attempts :: u32
  ca_delay_start :: u64
  ca_record_addr_responses :: bool
  ca_no_record_addr_responses :: bool
  ca_retry_on_timeout :: bool
  ca_ipv4 :: bool
  ca_no_ipv4 :: bool
  ca_ipv6 :: bool
  ca_no_ipv6 :: bool
  ca_tor :: bool
  ca_no_tor :: bool
  ca_i2p :: bool
  ca_no_i2p :: bool
  ca_cjdns :: bool
  ca_no_cjdns :: bool
  ca_strict_networks :: bool
  ca_tor_proxy_host :: string
  ca_tor_proxy_port :: u16
  ca_i2p_sam_host :: string
  ca_i2p_sam_port :: u16
  ca_result_path :: string
  ca_timestamp :: "string option"
  ca_extra_version_info :: "string option"
  ca_log_level :: string
  ca_no_store_debug_log :: bool
  ca_checkpoint_interval :: string

record cli =
  cli_common :: common_args
  cli_dry_run :: bool
  cli_max_nodes :: "usize option"
  cli_max_addresses :: usize
  cli_freshness_threshold :: string
  cli_no_freshness_filter :: bool

definition common_defaults :: common_args where
  "common_defaults =
     \<lparr>ca_ip_timeouts = \<lparr>to_connect = 3, to_message = 30, to_getaddr = 70, to_getaddr_idle = 3\<rparr>,
      ca_tor_timeouts = \<lparr>to_connect = 100, to_message = 40, to_getaddr = 90, to_getaddr_idle = 5\<rparr>,
      ca_i2p_timeouts = \<lparr>to_connect = 30, to_message = 80, to_getaddr = 170, to_getaddr_idle = 8\<rparr>,
      ca_cjdns_timeouts = \<lparr>to_connect = 10, to_message = 30, to_getaddr = 70, to_getaddr_idle = 3\<rparr>,
      ca_ip_concurrency = 64, ca_tor_concurrency = 64, ca_i2p_concurrency = 32,
      ca_handshake_attempts = 3, ca_delay_start = 0,
      ca_record_addr_responses = True, ca_no_record_addr_responses = False,
      ca_retry_on_timeout = False,
      ca_ipv4 = False, ca_no_ipv4 = False, ca_ipv6 = False, ca_no_ipv6 = False,
      ca_tor = False, ca_no_tor = False, ca_i2p = False, ca_no_i2p = False,
      ca_cjdns = False, ca_no_cjdns = False, ca_strict_networks = False,
      ca_tor_proxy_host = ''127.0.0.1'', ca_tor_proxy_port = 9050,
      ca_i2p_sam_host = ''127.0.0.1'', ca_i2p_sam_port = 7656,
      ca_result_path = ''results'', ca_timestamp = None, ca_extra_version_info = None,
      ca_log_level = ''INFO'', ca_no_store_debug_log = False, ca_checkpoint_interval = ''10m''\<rparr>"

definition cli_defaults :: cli where
  "cli_defaults =
     \<lparr>cli_common = common_defaults, cli_dry_run = False, cli_max_nodes = None,
      cli_max_addresses = 1000000, cli_freshness_threshold = ''2d'', cli_no_freshness_filter = False\<rparr>"

subsection \<open>Durations\<close>

text \<open>
  \<open>parse_duration\<close>: a signed number of seconds, or digits and a unit. The product is computed on
  64-bit integers, which wrap in a release build.
\<close>

definition wrap_i64 :: "int \<Rightarrow> int" where
  "wrap_i64 i = sint (word_of_int i :: u64)"

definition duration_unit :: "string \<Rightarrow> int option" where
  "duration_unit u =
     (if u = ''s'' then Some 1 else if u = ''m'' then Some 60
      else if u = ''h'' then Some 3600 else if u = ''d'' then Some 86400 else None)"

definition parse_duration :: "string \<Rightarrow> string + int" where
  "parse_duration s0 =
     (let s = trim s0
      in case parse_i64 s of
           Some n \<Rightarrow> Inr n
         | None \<Rightarrow>
             let num = takeWhile is_ascii_digit s; unit = dropWhile is_ascii_digit s
             in if unit = [] then Inl (''invalid duration: '' @ s)
                else case parse_i64 num of
                  None \<Rightarrow> Inl (''invalid duration: '' @ s)
                | Some n \<Rightarrow>
                    (case duration_unit unit of
                       None \<Rightarrow> Inl (''unknown duration unit: '' @ unit)
                     | Some mult \<Rightarrow> Inr (wrap_i64 (n * mult))))"

subsection \<open>From arguments to settings\<close>

definition PKG_VERSION :: string where
  "PKG_VERSION = ''0.1.0''"

definition MAX_CONCURRENCY :: usize where
  "MAX_CONCURRENCY = 4096"

definition ensure :: "bool \<Rightarrow> string \<Rightarrow> string + unit" where
  "ensure b msg = (if b then Inr () else Inl msg)"

definition networks_of_args :: "common_args \<Rightarrow> enabled_networks" where
  "networks_of_args a =
     \<lparr>en_ipv4 = ca_ipv4 a \<or> \<not> ca_no_ipv4 a, en_ipv6 = ca_ipv6 a \<or> \<not> ca_no_ipv6 a,
      en_tor = ca_tor a \<or> \<not> ca_no_tor a, en_i2p = ca_i2p a \<or> \<not> ca_no_i2p a,
      en_cjdns = ca_cjdns a \<or> \<not> ca_no_cjdns a\<rparr>"

definition built_settings ::
  "string \<Rightarrow> bool \<Rightarrow> enabled_networks \<Rightarrow> int \<Rightarrow> common_args \<Rightarrow> int \<Rightarrow> usize option \<Rightarrow> usize \<Rightarrow> bool \<Rightarrow> bool \<Rightarrow> settings" where
  "built_settings timestamp record_addr_responses en checkpoint_interval a freshness_threshold max_nodes
     max_addresses dry_run probe_mode =
     \<lparr>st_version_info = \<lparr>vi_version = PKG_VERSION, vi_extra = ca_extra_version_info a\<rparr>,
      st_delay_start = ca_delay_start a, st_max_nodes = max_nodes, st_max_addresses = max_addresses,
      st_enabled_networks = en, st_strict_networks = ca_strict_networks a,
      st_freshness_threshold = freshness_threshold,
      st_record_addr_responses = record_addr_responses,
      st_concurrency = \<lparr>cc_ip = ca_ip_concurrency a, cc_tor = ca_tor_concurrency a,
        cc_i2p = ca_i2p_concurrency a\<rparr>,
      st_node_settings =
        \<lparr>ns_timeouts = \<lparr>ts_ip = ca_ip_timeouts a, ts_tor = ca_tor_timeouts a,
           ts_i2p = ca_i2p_timeouts a, ts_cjdns = ca_cjdns_timeouts a\<rparr>,
         ns_handshake_attempts = ca_handshake_attempts a,
         ns_endpoints = \<lparr>tor_proxy_host = ca_tor_proxy_host a, tor_proxy_port = ca_tor_proxy_port a,
           i2p_sam_host = ca_i2p_sam_host a, i2p_sam_port = ca_i2p_sam_port a\<rparr>\<rparr>,
      st_result_settings =
        \<lparr>rs_path = ca_result_path a, rs_timestamp = timestamp,
         rs_reachable_nodes = ''reachable_nodes.csv'',
         rs_handshake_failed_nodes = ''handshake_failed_nodes.csv'',
         rs_unreachable_nodes = ''unreachable_nodes.csv'',
         rs_crawler_stats = ''crawler_stats.json'',
         rs_addr_responses = ''addr_responses.csv''\<rparr>,
      st_dry_run = dry_run, st_log_level = ca_log_level a,
      st_store_debug_log = (\<not> ca_no_store_debug_log a),
      st_retry_on_timeout = ca_retry_on_timeout a,
      st_checkpoint_interval = checkpoint_interval, st_probe_mode = probe_mode\<rparr>"

definition common_into_settings ::
  "string \<Rightarrow> common_args \<Rightarrow> int \<Rightarrow> usize option \<Rightarrow> usize \<Rightarrow> bool \<Rightarrow> bool \<Rightarrow> string + settings" where
  "common_into_settings now_text a freshness_threshold max_nodes max_addresses dry_run probe_mode =
     (let timestamp = (case ca_timestamp a of Some t \<Rightarrow> t | None \<Rightarrow> now_text);
          record_addr_responses = (ca_record_addr_responses a \<and> \<not> ca_no_record_addr_responses a);
          en = networks_of_args a
      in
      and_then (parse_duration (ca_checkpoint_interval a)) (\<lambda>checkpoint_interval.
      and_then (ensure (max_addresses > 0) ''--max-addresses must be greater than zero'') (\<lambda>_.
      and_then (ensure (ca_handshake_attempts a > 0) ''--handshake-attempts must be greater than zero'') (\<lambda>_.
      and_then (ensure (ca_ip_concurrency a \<le> MAX_CONCURRENCY) ''--ip-concurrency exceeds 4096'') (\<lambda>_.
      and_then (ensure (ca_tor_concurrency a \<le> MAX_CONCURRENCY) ''--tor-concurrency exceeds 4096'') (\<lambda>_.
      and_then (ensure (ca_i2p_concurrency a \<le> MAX_CONCURRENCY) ''--i2p-concurrency exceeds 4096'') (\<lambda>_.
      and_then (if en_ipv4 en \<or> en_ipv6 en \<or> en_cjdns en
                then ensure (ca_ip_concurrency a > 0) ''enabled IP/CJDNS networks require --ip-concurrency > 0''
                else Inr ()) (\<lambda>_.
      and_then (if en_tor en then ensure (ca_tor_concurrency a > 0) ''enabled Tor requires --tor-concurrency > 0''
                else Inr ()) (\<lambda>_.
      and_then (if en_i2p en then ensure (ca_i2p_concurrency a > 0) ''enabled I2P requires --i2p-concurrency > 0''
                else Inr ()) (\<lambda>_.
        Inr (built_settings timestamp record_addr_responses en checkpoint_interval a freshness_threshold
          max_nodes max_addresses dry_run probe_mode)))))))))))"

definition cli_into_settings :: "string \<Rightarrow> cli \<Rightarrow> string + settings" where
  "cli_into_settings now_text c =
     and_then (if cli_no_freshness_filter c then Inr 0 else parse_duration (cli_freshness_threshold c))
       (\<lambda>freshness_threshold.
        common_into_settings now_text (cli_common c) freshness_threshold (cli_max_nodes c)
          (cli_max_addresses c) (cli_dry_run c) False)"

subsection \<open>Validation\<close>

text \<open>The number of workers of a transport.\<close>

definition workers_for :: "settings \<Rightarrow> transport \<Rightarrow> usize" where
  "workers_for st t =
     (case t of TransportIp \<Rightarrow> cc_ip (st_concurrency st) | TransportTor \<Rightarrow> cc_tor (st_concurrency st)
      | TransportI2p \<Rightarrow> cc_i2p (st_concurrency st))"

definition settings_ok :: "settings \<Rightarrow> bool" where
  "settings_ok st \<longleftrightarrow>
     st_max_addresses st > 0 \<and> ns_handshake_attempts (st_node_settings st) > 0 \<and>
     (\<forall>t. workers_for st t \<le> 4096) \<and>
     (\<forall>net. is_enabled st net \<longrightarrow> workers_for st (network_transport net) > 0)"

lemma ensure_Inr [simp]: "ensure b m = Inr u \<longleftrightarrow> b"
  by (simp add: ensure_def)

lemma ensure_if_Inr: "(if b then ensure c m else Inr ()) = Inr u \<longleftrightarrow> (b \<longrightarrow> c)"
  by (simp add: ensure_def)

lemma all_transport: "(\<forall>t. P t) \<longleftrightarrow> P TransportIp \<and> P TransportTor \<and> P TransportI2p"
  by (metis transport.exhaust)

lemma all_network:
  "(\<forall>n. P n) \<longleftrightarrow> P Ipv4 \<and> P Ipv6 \<and> P Cjdns \<and> P OnionV2 \<and> P OnionV3 \<and> P I2p \<and> P Unknown"
  by (metis network_type.exhaust)

lemma common_into_settings_ok:
  "common_into_settings now_text a thr mn ma dr pm = Inr st \<Longrightarrow> settings_ok st"
  unfolding common_into_settings_def Let_def and_then_Inr_iff ensure_Inr ensure_if_Inr
  by (elim exE conjE, drule sym)
    (simp add: settings_ok_def all_transport all_network workers_for_def is_enabled_def MAX_CONCURRENCY_def
      built_settings_def)

lemma cli_into_settings_ok: "cli_into_settings now_text c = Inr st \<Longrightarrow> settings_ok st"
  unfolding cli_into_settings_def and_then_Inr_iff by (auto dest: common_into_settings_ok)


lemma plain_digit: "is_ascii_digit c \<Longrightarrow> plain c"
  by (auto simp: is_ascii_digit_def digit_of_def plain_def Let_def split: if_splits)

lemma digits_show_dec: "c \<in> set (show_dec n) \<Longrightarrow> is_ascii_digit c"
  using show_radix_digits [of 10 c n] digit_of_digit_char [of 10] by (auto simp: is_ascii_digit_def)

lemma parse_i64_show_dec: "n < 2 ^ 63 \<Longrightarrow> parse_i64 (show_dec n) = Some (int n)"
proof -
  assume n: "n < 2 ^ 63"
  obtain c cs where s: "show_dec n = c # cs" by (cases "show_dec n") auto
  have "c \<noteq> CHR ''+'' \<and> c \<noteq> CHR ''-''" using show_dec_Cons_not_sign [OF s] by simp
  moreover have "read_digits 10 0 (c # cs) = Some n"
    using read_digits_show_radix [of 10 n] s by simp
  moreover have "is_i64 (int n)" using n by (simp add: is_i64_def)
  ultimately show ?thesis
    by (simp add: parse_i64_def s Let_def del: read_digits.simps)
qed

lemma read_digits_bad: "\<exists>c\<in>set s. digit_of r c = None \<Longrightarrow> read_digits r acc s = None"
  by (induction s arbitrary: acc) (auto split: option.splits)

lemma parse_i64_unit:
  assumes "duration_unit u = Some k"
  shows "parse_i64 (show_dec n @ u) = None"
proof -
  obtain c cs where s: "show_dec n = c # cs" by (cases "show_dec n") auto
  have c: "c \<noteq> CHR ''+'' \<and> c \<noteq> CHR ''-''" using show_dec_Cons_not_sign [OF s] by simp
  have "\<exists>c\<in>set u. digit_of 10 c = None"
    using assms by (auto simp: duration_unit_def digit_of_def split: if_splits)
  then have "read_digits 10 0 (c # (cs @ u)) = None" by (intro read_digits_bad) auto
  with c show ?thesis by (simp add: parse_i64_def s Let_def del: read_digits.simps)
qed

lemma parse_duration_units:
  assumes "duration_unit u = Some k" "n < 2 ^ 63"
  shows "parse_duration (show_dec n @ u) = Inr (wrap_i64 (int n * k))"
proof -
  have u: "u \<noteq> []" "plain (last u)" "\<forall>c\<in>set u. \<not> is_ascii_digit c"
    using assms(1) by (auto simp: duration_unit_def plain_def is_ascii_digit_def digit_of_def split: if_splits)
  have "plain (hd (show_dec n @ u))"
    using plain_digit digits_show_dec [of "hd (show_dec n)" n] by simp
  with u have trim: "trim (show_dec n @ u) = show_dec n @ u" by (intro trim_plain) simp_all
  have tw: "takeWhile is_ascii_digit (show_dec n @ u) = show_dec n"
    "dropWhile is_ascii_digit (show_dec n @ u) = u"
    using u digits_show_dec [of _ n] by (cases u; simp add: takeWhile_append2 dropWhile_append2)+
  show ?thesis
    by (simp add: parse_duration_def trim Let_def parse_i64_unit [OF assms(1)] tw u(1)
        parse_i64_show_dec [OF assms(2)] assms(1))
qed

lemma parse_duration_seconds: "n < 2 ^ 63 \<Longrightarrow> parse_duration (show_dec n) = Inr (int n)"
proof -
  assume n: "n < 2 ^ 63"
  have "trim (show_dec n) = show_dec n"
    using plain_digit digits_show_dec [of "hd (show_dec n)" n] digits_show_dec [of "last (show_dec n)" n]
    by (intro trim_plain) simp_all
  then show ?thesis by (simp add: parse_duration_def parse_i64_show_dec [OF n])
qed

lemma wrap_i64_id: "is_i64 i \<Longrightarrow> wrap_i64 i = i"
  by (simp add: wrap_i64_def sint_word_of_int_i64)

section \<open>Properties of the settings\<close>

text \<open>C32: Arguments that are accepted give settings that can run: at least one address and one attempt, at
  most 4096 workers per transport, and for every enabled network at least one worker of the
  transport that serves it. Unknown networks are never enabled.\<close>

theorem accepted_settings_runnable:
  assumes "cli_into_settings now_text c = Inr st"
  shows "st_max_addresses st > 0 \<and> ns_handshake_attempts (st_node_settings st) > 0 \<and>
    workers_for st t \<le> 4096 \<and>
    (is_enabled st net \<longrightarrow> workers_for st (network_transport net) > 0 \<and> net \<noteq> Unknown)"
  using cli_into_settings_ok [OF assms] by (auto simp: settings_ok_def is_enabled_def)

text \<open>The durations the defaults use.\<close>

lemma default_durations:
  "parse_duration ''2d'' = Inr 172800" "parse_duration ''10m'' = Inr 600" "parse_duration ''0'' = Inr 0"
proof -
  have "show_dec 2 = ''2''" "show_dec 10 = ''10''" "show_dec 0 = ''0''" by code_simp+
  then show "parse_duration ''2d'' = Inr 172800" "parse_duration ''10m'' = Inr 600" "parse_duration ''0'' = Inr 0"
    using parse_duration_units [of "''d''" 86400 2] parse_duration_units [of "''m''" 60 10]
      parse_duration_seconds [of 0]
    by (simp_all add: duration_unit_def wrap_i64_id is_i64_def)
qed

text \<open>What the defaults say, field by field.\<close>

lemma default_args:
  "ca_timestamp common_defaults = None" "ca_record_addr_responses common_defaults"
  "\<not> ca_no_record_addr_responses common_defaults" "ca_checkpoint_interval common_defaults = ''10m''"
  "ca_handshake_attempts common_defaults = 3" "ca_ip_concurrency common_defaults = 64"
  "ca_tor_concurrency common_defaults = 64" "ca_i2p_concurrency common_defaults = 32"
  "ca_result_path common_defaults = ''results''" "ca_delay_start common_defaults = 0"
  "\<not> ca_strict_networks common_defaults" "\<not> ca_no_store_debug_log common_defaults"
  "\<not> ca_ipv4 common_defaults" "\<not> ca_ipv6 common_defaults" "\<not> ca_tor common_defaults"
  "\<not> ca_i2p common_defaults" "\<not> ca_cjdns common_defaults" "\<not> ca_no_ipv4 common_defaults"
  "\<not> ca_no_ipv6 common_defaults" "\<not> ca_no_tor common_defaults" "\<not> ca_no_i2p common_defaults"
  "\<not> ca_no_cjdns common_defaults"
  by (simp_all add: common_defaults_def)

lemma default_cli_settings:
  "cli_into_settings ''t'' cli_defaults =
     Inr (built_settings ''t'' True (networks_of_args common_defaults) 600 common_defaults 172800 None 1000000 False False)"
  by (simp add: cli_into_settings_def cli_defaults_def default_args default_durations common_into_settings_def
      Let_def ensure_def MAX_CONCURRENCY_def)

lemma default_cli_accepted: "\<exists>st. cli_into_settings ''t'' cli_defaults = Inr st"
  using default_cli_settings by blast

lemma accepted_settings_runnable_witness:
  "\<exists>st. cli_into_settings ''t'' cli_defaults = Inr st \<and> st_max_addresses st > 0 \<and>
     (is_enabled st OnionV3 \<longrightarrow> workers_for st TransportTor > 0)"
  using default_cli_accepted accepted_settings_runnable [of "''t''" cli_defaults _ TransportTor OnionV3]
  by fastforce

text \<open>C34: A duration written as a number and a unit is the product, kept to 64 bits: that many seconds
  exactly when the product is in the range, and otherwise an unrelated duration, for the product is not
  checked. Two days are 172800 seconds, and so many days that the product is just over
  \<open>2 ^ 64\<close> are accepted as 61184 seconds.\<close>

theorem parse_duration_unit:
  assumes "duration_unit u = Some k" "n < 2 ^ 63"
  shows "parse_duration (show_dec n @ u) = Inr (wrap_i64 (int n * k)) \<and>
    (wrap_i64 (int n * k) = int n * k \<longleftrightarrow> int n * k < 2 ^ 63)"
proof -
  have "0 \<le> int n * k" using assms(1) by (auto simp: duration_unit_def split: if_splits)
  then have "wrap_i64 (int n * k) = int n * k" if "int n * k < 2 ^ 63"
    using that by (intro wrap_i64_id) (simp add: is_i64_def)
  moreover have "wrap_i64 (int n * k) < 2 ^ 63"
    using sint_lt [of "word_of_int (int n * k) :: u64"] by (simp add: wrap_i64_def)
  ultimately have "wrap_i64 (int n * k) = int n * k \<longleftrightarrow> int n * k < 2 ^ 63" by auto
  with parse_duration_units [OF assms] show ?thesis by blast
qed

lemma parse_duration_unit_witness:
  "parse_duration (show_dec 2 @ ''d'') = Inr 172800 \<and>
   parse_duration (show_dec 213503982334602 @ ''d'') = Inr 61184"
proof -
  have d: "duration_unit ''d'' = Some 86400" by (simp add: duration_unit_def)
  have "sint (word_of_int 18446744073709612800 :: u64) = 61184" by code_simp
  then show ?thesis
    using parse_duration_unit [OF d, of 2] parse_duration_unit [OF d, of 213503982334602]
    by (simp add: wrap_i64_def)
qed

end
