(* ===== verification/AddrLog.thy ===== *)
theory AddrLog
  imports Store
begin

section \<open>The address observation log (src/addrlog.rs)\<close>

text \<open>
  The CSV text of the three kinds of events, the event counter and the single writer thread. A
  producer holds the counter's lock from taking an event id until the writer has acknowledged the
  record, so a call is one atomic step on the log. Filesystem faults are a script: the next
  operation of the writer succeeds, or fails after some of its bytes were accepted.
\<close>

subsection \<open>CSV\<close>

definition needs_quote :: "string \<Rightarrow> bool" where
  "needs_quote field \<longleftrightarrow>
     CHR '','' \<in> set field \<or> CHR 0x22 \<in> set field \<or> CHR 0x0D \<in> set field \<or> CHR 0x0A \<in> set field"

definition push_csv_field :: "string \<Rightarrow> string" where
  "push_csv_field field =
     (if needs_quote field
      then CHR 0x22 # concat (map (\<lambda>c. if c = CHR 0x22 then [c, c] else [c]) field) @ [CHR 0x22]
      else field)"

fun push_csv_fields :: "string list \<Rightarrow> string" where
  "push_csv_fields [] = []"
| "push_csv_fields [f] = push_csv_field f"
| "push_csv_fields (f # fs) = push_csv_field f @ '','' @ push_csv_fields fs"

definition show_int :: "int \<Rightarrow> string" where
  "show_int i = (if i < 0 then CHR ''-'' # show_dec (nat (- i)) else show_dec (nat i))"

definition show_bool :: "bool \<Rightarrow> string" where
  "show_bool b = (if b then ''true'' else ''false'')"

definition show_u64 :: "u64 \<Rightarrow> string" where
  "show_u64 w = show_dec (unat w)"

definition newline :: string where
  "newline = [CHR 0x0A]"

subsection \<open>Records\<close>

record responder =
  rp_host :: string
  rp_port :: u16
  rp_network :: string
  rp_received_at :: int
  rp_message_type :: string
  rp_handshake :: handshake_data

definition block_fields :: "responder \<Rightarrow> parsed_addr_message \<Rightarrow> u64 \<Rightarrow> string list" where
  "block_fields r parsed event_id =
     (let hd = rp_handshake r
      in [show_u64 event_id, rp_host r, show_dec (unat (rp_port r)), rp_network r,
          show_int (rp_received_at r), rp_message_type r, ''complete'',
          show_u64 (declared_count parsed), show_dec (length (pm_addrs parsed)),
          show_u64 (unknown_entries parsed), show_int (hd_version hd), show_u64 (hd_services hd),
          hd_user_agent hd, show_int (hd_latest_block hd), show_bool (hd_relay hd)])"

definition addr_fields :: "u64 \<Rightarrow> advertised_addr \<Rightarrow> string list" where
  "addr_fields event_id a =
     [show_u64 event_id, ad_host a, show_dec (unat (ad_port a)), network_as_str (ad_network a),
      show_int (ad_timestamp a), show_u64 (ad_services a), show_dec (unat (ad_wire_network_id a))]"

definition block_text :: "responder \<Rightarrow> parsed_addr_message \<Rightarrow> u64 \<Rightarrow> string" where
  "block_text r parsed event_id =
     ''===NEW NODE===,'' @ push_csv_fields (block_fields r parsed event_id) @ newline @
     concat (map (\<lambda>a. push_csv_fields (addr_fields event_id a) @ newline) (pm_addrs parsed))"

definition outcome_text :: "string \<Rightarrow> u16 \<Rightarrow> collection_outcome \<Rightarrow> u64 \<Rightarrow> string" where
  "outcome_text host port outcome event_id =
     ''===REQUEST OUTCOME===,'' @
     push_csv_fields [show_u64 event_id, host, show_dec (unat port), outcome_as_str outcome] @ newline"

definition malformed_text ::
  "crates \<Rightarrow> string \<Rightarrow> u16 \<Rightarrow> string \<Rightarrow> addr_parse_error \<Rightarrow> bytes \<Rightarrow> u64 \<Rightarrow> string" where
  "malformed_text cr host port message_type err payload event_id =
     ''===MALFORMED RESPONSE===,'' @
     push_csv_fields [show_u64 event_id, host, show_dec (unat port), message_type, ''malformed'',
       addr_parse_error_text err, hex_of (sha256 cr payload)] @ newline"

subsection \<open>The writer\<close>

record addr_log =
  lg_next_event_id :: u64
  lg_written :: bytes
  lg_synced :: nat
  lg_durable_event_id :: u64
  lg_faults :: "(nat \<times> io_error) option list"
  lg_stopped :: bool

definition addr_log_create :: "(nat \<times> io_error) option list \<Rightarrow> addr_log" where
  "addr_log_create faults =
     \<lparr>lg_next_event_id = 1, lg_written = [], lg_synced = 0, lg_durable_event_id = 0,
      lg_faults = faults, lg_stopped = False\<rparr>"

definition writer_append :: "bytes \<Rightarrow> u64 \<Rightarrow> addr_log \<Rightarrow> (io_error + u64) \<times> addr_log" where
  "writer_append bs event_id l =
     (if lg_stopped l then (Inl (io_err BrokenPipe ''address writer stopped''), l)
      else case lg_faults l of
        Some (n, e) # fs \<Rightarrow> (Inl e, l\<lparr>lg_written := lg_written l @ take n bs, lg_faults := fs\<rparr>)
      | fs \<Rightarrow>
          (Inr event_id,
           l\<lparr>lg_written := lg_written l @ bs, lg_durable_event_id := event_id, lg_faults := tl fs\<rparr>))"

definition writer_flush :: "addr_log \<Rightarrow> (io_error + u64) \<times> addr_log" where
  "writer_flush l =
     (if lg_stopped l then (Inl (io_err BrokenPipe ''address writer stopped''), l)
      else case lg_faults l of
        Some (n, e) # fs \<Rightarrow> (Inl e, l\<lparr>lg_faults := fs\<rparr>)
      | fs \<Rightarrow>
          (Inr (lg_durable_event_id l), l\<lparr>lg_synced := length (lg_written l), lg_faults := tl fs\<rparr>))"

definition log_event :: "(u64 \<Rightarrow> string) \<Rightarrow> addr_log \<Rightarrow> (io_error + u64) \<times> addr_log" where
  "log_event text l =
     (let event_id = lg_next_event_id l
      in writer_append (str_bytes (text event_id)) event_id (l\<lparr>lg_next_event_id := event_id + 1\<rparr>))"

definition write_block ::
  "responder \<Rightarrow> parsed_addr_message \<Rightarrow> addr_log \<Rightarrow> (io_error + u64) \<times> addr_log" where
  "write_block r parsed = log_event (block_text r parsed)"

definition write_outcome ::
  "string \<Rightarrow> u16 \<Rightarrow> collection_outcome \<Rightarrow> addr_log \<Rightarrow> (io_error + u64) \<times> addr_log" where
  "write_outcome host port outcome = log_event (outcome_text host port outcome)"

definition write_malformed ::
  "crates \<Rightarrow> string \<Rightarrow> u16 \<Rightarrow> string \<Rightarrow> addr_parse_error \<Rightarrow> bytes \<Rightarrow> addr_log \<Rightarrow>
   (io_error + u64) \<times> addr_log" where
  "write_malformed cr host port message_type err payload =
     log_event (malformed_text cr host port message_type err payload)"

subsection \<open>Reading the CSV back\<close>

text \<open>
  A reader of the dialect: a quoted field ends at a quote that is not doubled, another one at a
  comma or newline. It is the specification that the printed text is measured against.
\<close>

fun csv_quoted :: "string \<Rightarrow> (string \<times> string) option" where
  "csv_quoted [] = None"
| "csv_quoted (c # s) =
     (if c = CHR 0x22 then
        (case s of
           d # s' \<Rightarrow> if d = CHR 0x22 then map_option (apfst (Cons c)) (csv_quoted s') else Some ([], s)
         | [] \<Rightarrow> Some ([], s))
      else map_option (apfst (Cons c)) (csv_quoted s))"

definition csv_sep :: "char \<Rightarrow> bool" where
  "csv_sep c \<longleftrightarrow> c = CHR '','' \<or> c = CHR 0x0A"

definition csv_field :: "string \<Rightarrow> (string \<times> string) option" where
  "csv_field s =
     (case s of
        c # s' \<Rightarrow>
          if c = CHR 0x22 then csv_quoted s'
          else Some (takeWhile (\<lambda>c. \<not> csv_sep c) s, dropWhile (\<lambda>c. \<not> csv_sep c) s)
      | [] \<Rightarrow> Some ([], []))"

fun csv_record :: "nat \<Rightarrow> string \<Rightarrow> (string list \<times> string) option" where
  "csv_record 0 s = None"
| "csv_record (Suc n) s =
     (case csv_field s of
        None \<Rightarrow> None
      | Some (f, r) \<Rightarrow>
          (case r of
             c # r' \<Rightarrow>
               if c = CHR 0x0A then Some ([f], r')
               else if c = CHR '','' then map_option (apfst (Cons f)) (csv_record n r')
               else None
           | [] \<Rightarrow> None))"

lemma csv_quoted_field:
  "r = [] \<or> hd r \<noteq> CHR 0x22 \<Longrightarrow>
     csv_quoted (concat (map (\<lambda>c. if c = CHR 0x22 then [c, c] else [c]) f) @ CHR 0x22 # r) = Some (f, r)"
proof (induction f)
  case Nil
  then show ?case by (cases r) auto
next
  case (Cons c f)
  then show ?case by auto
qed

lemma csv_field_push:
  assumes "csv_sep c"
  shows "csv_field (push_csv_field f @ c # r) = Some (f, c # r)"
proof (cases "needs_quote f")
  case True
  have "hd (c # r) \<noteq> CHR 0x22" using assms by (auto simp: csv_sep_def)
  then have "csv_quoted (concat (map (\<lambda>c. if c = CHR 0x22 then [c, c] else [c]) f) @ CHR 0x22 # c # r) =
      Some (f, c # r)"
    by (intro csv_quoted_field) simp
  with True show ?thesis by (simp add: csv_field_def push_csv_field_def)
next
  case False
  then have f: "\<forall>d\<in>set f. \<not> csv_sep d" "CHR 0x22 \<notin> set f" by (auto simp: needs_quote_def csv_sep_def)
  have "takeWhile (\<lambda>c. \<not> csv_sep c) (f @ c # r) = f" "dropWhile (\<lambda>c. \<not> csv_sep c) (f @ c # r) = c # r"
    using f(1) assms by (auto simp: takeWhile_append2 dropWhile_append2)
  moreover have "hd (f @ c # r) \<noteq> CHR 0x22" using f(2) assms by (cases f) (auto simp: csv_sep_def)
  ultimately show ?thesis using False
    by (cases f) (auto simp: csv_field_def push_csv_field_def)
qed

lemma csv_record_push:
  "fs \<noteq> [] \<Longrightarrow> length fs \<le> n \<Longrightarrow> csv_record n (push_csv_fields fs @ newline @ r) = Some (fs, r)"
proof (induction fs arbitrary: n rule: push_csv_fields.induct)
  case 1
  then show ?case by simp
next
  case (2 f)
  then show ?case using csv_field_push [of "CHR 0x0A" f r]
    by (cases n) (simp_all add: newline_def csv_sep_def)
next
  case (3 f g fs)
  then obtain m where n: "n = Suc m" by (cases n) auto
  have "csv_field (push_csv_field f @ CHR '','' # push_csv_fields (g # fs) @ newline @ r) =
      Some (f, CHR '','' # push_csv_fields (g # fs) @ newline @ r)"
    by (rule csv_field_push) (simp add: csv_sep_def)
  with 3 n show ?case by simp
qed

lemma csv_record_tagged:
  assumes "needs_quote tag = False" "fs \<noteq> []" "length fs < n"
  shows "csv_record n (tag @ '','' @ push_csv_fields fs @ newline @ r) = Some (tag # fs, r)"
proof -
  have "push_csv_fields (tag # fs) = tag @ '','' @ push_csv_fields fs"
    using assms(1,2) by (cases fs) (simp_all add: push_csv_field_def)
  with csv_record_push [of "tag # fs" n r] assms(3) show ?thesis by simp
qed

text \<open>Reading \<open>k\<close> records.\<close>

fun csv_records :: "nat \<Rightarrow> string \<Rightarrow> (string list list \<times> string) option" where
  "csv_records 0 s = Some ([], s)"
| "csv_records (Suc k) s =
     (case csv_record 16 s of
        None \<Rightarrow> None
      | Some (rc, r) \<Rightarrow> map_option (apfst (Cons rc)) (csv_records k r))"

lemma csv_records_addrs:
  "csv_records (length as) (concat (map (\<lambda>a. push_csv_fields (addr_fields i a) @ newline) as) @ r) =
     Some (map (addr_fields i) as, r)"
proof (induction as)
  case (Cons a as)
  have "csv_record 16 (push_csv_fields (addr_fields i a) @ newline @
      concat (map (\<lambda>a. push_csv_fields (addr_fields i a) @ newline) as) @ r) =
      Some (addr_fields i a, concat (map (\<lambda>a. push_csv_fields (addr_fields i a) @ newline) as) @ r)"
    by (rule csv_record_push) (simp_all add: addr_fields_def)
  with Cons show ?case by simp
qed simp

section \<open>Properties of the log\<close>

text \<open>C26: A block of the log is read back as one record tagged as a new node, with the responder's fields,
  followed by one record per advertised address, and what follows the block: no host, user agent or
  other text from the network can break or forge a record.\<close>

theorem block_text_roundtrip:
  "csv_records (Suc (length (pm_addrs parsed))) (block_text r parsed i @ s) =
     Some ((''===NEW NODE==='' # block_fields r parsed i) # map (addr_fields i) (pm_addrs parsed), s)"
proof -
  let ?tail = "concat (map (\<lambda>a. push_csv_fields (addr_fields i a) @ newline) (pm_addrs parsed)) @ s"
  have "csv_record 16 (''===NEW NODE==='' @ '','' @ push_csv_fields (block_fields r parsed i) @ newline @ ?tail) =
      Some (''===NEW NODE==='' # block_fields r parsed i, ?tail)"
    by (rule csv_record_tagged) (simp_all add: needs_quote_def block_fields_def Let_def)
  with csv_records_addrs [of "pm_addrs parsed" i s] show ?thesis
    by (simp add: block_text_def)
qed

text \<open>A run of the log: a list of appends and flushes, with the results.\<close>

datatype log_op = LogAppend "u64 \<Rightarrow> string" | LogFlush

definition log_step :: "log_op \<Rightarrow> addr_log \<Rightarrow> (io_error + u64) \<times> addr_log" where
  "log_step op l = (case op of LogAppend t \<Rightarrow> log_event t l | LogFlush \<Rightarrow> writer_flush l)"

fun log_run :: "log_op list \<Rightarrow> addr_log \<Rightarrow> (log_op \<times> (io_error + u64)) list \<times> addr_log" where
  "log_run [] l = ([], l)"
| "log_run (op # ops) l =
     (case log_step op l of (r, l') \<Rightarrow> case log_run ops l' of (rs, l'') \<Rightarrow> ((op, r) # rs, l''))"

text \<open>The appends that were acknowledged, with their ids.\<close>

definition acked :: "(log_op \<times> (io_error + u64)) list \<Rightarrow> (u64 \<times> string) list" where
  "acked rs = List.map_filter (\<lambda>(op, r).
     case (op, r) of (LogAppend t, Inr i) \<Rightarrow> Some (i, t i) | _ \<Rightarrow> None) rs"

definition log_ok :: "nat \<Rightarrow> addr_log \<Rightarrow> bool" where
  "log_ok left l \<longleftrightarrow>
     unat (lg_next_event_id l) + left < 2 ^ 64 \<and> lg_durable_event_id l < lg_next_event_id l"

lemma next_id:
  "unat (i :: u64) + Suc n < 2 ^ 64 \<Longrightarrow> unat (i + 1) = Suc (unat i)"
  by (simp add: unat_word_ariths)

lemma log_event_step:
  assumes "log_event t l = (r, l')" "log_ok (Suc n) l"
  shows "log_ok n l' \<and> lg_durable_event_id l \<le> lg_durable_event_id l' \<and>
    lg_next_event_id l \<le> lg_next_event_id l' \<and>
    (\<forall>i. r = Inr i \<longrightarrow> i = lg_next_event_id l \<and> i = lg_durable_event_id l' \<and>
       lg_written l' = lg_written l @ str_bytes (t i) \<and> i < lg_next_event_id l')"
proof -
  let ?i = "lg_next_event_id l"
  have n: "unat (?i + 1) = Suc (unat ?i)"
    using assms(2) next_id [of ?i n] by (simp add: log_ok_def)
  have lt: "?i < ?i + 1" unfolding word_less_nat_alt n by simp
  have dur: "lg_durable_event_id l < ?i" using assms(2) by (simp add: log_ok_def)
  have a: "lg_next_event_id l' = ?i + 1"
    using assms(1) by (auto simp: log_event_def Let_def writer_append_def split: if_splits list.splits option.splits)
  have b: "lg_durable_event_id l' = lg_durable_event_id l \<or> lg_durable_event_id l' = ?i"
    using assms(1) by (auto simp: log_event_def Let_def writer_append_def split: if_splits list.splits option.splits)
  have c: "\<forall>i. r = Inr i \<longrightarrow> i = ?i \<and> i = lg_durable_event_id l' \<and>
      lg_written l' = lg_written l @ str_bytes (t i)"
    using assms(1) by (auto simp: log_event_def Let_def writer_append_def split: if_splits list.splits option.splits)
  have "unat (?i + 1) + n < 2 ^ 64" unfolding n using assms(2) by (simp add: log_ok_def)
  moreover have "lg_durable_event_id l' < ?i + 1" using b dur lt less_trans by metis
  ultimately have "log_ok n l'" unfolding log_ok_def a by blast
  moreover have "lg_durable_event_id l \<le> lg_durable_event_id l'" using b dur by (metis less_imp_le order_refl)
  moreover have "?i \<le> lg_next_event_id l'" unfolding a using lt by (rule less_imp_le)
  ultimately show ?thesis using c lt a by metis
qed

lemma writer_flush_step:
  assumes "writer_flush l = (r, l')"
  shows "lg_durable_event_id l' = lg_durable_event_id l \<and> lg_next_event_id l' = lg_next_event_id l \<and>
    lg_written l' = lg_written l \<and>
    (\<forall>i. r = Inr i \<longrightarrow> i = lg_durable_event_id l \<and> lg_synced l' = length (lg_written l'))"
  using assms by (auto simp: writer_flush_def split: if_splits list.splits option.splits)

lemma log_run_acked:
  assumes "log_run ops l = (rs, l')" "log_ok (length ops) l"
  shows "lg_durable_event_id l \<le> lg_durable_event_id l' \<and>
    sorted_wrt (<) (map fst (acked rs)) \<and>
    (\<forall>(i, t)\<in>set (acked rs). lg_next_event_id l \<le> i \<and> i \<le> lg_durable_event_id l')"
  using assms
proof (induction ops arbitrary: l rs)
  case Nil
  then show ?case by (simp add: acked_def map_filter_simps)
next
  case (Cons op ops)
  obtain r l1 where s: "log_step op l = (r, l1)" by fastforce
  obtain rs1 where run: "log_run ops l1 = (rs1, l')" and rs: "rs = (op, r) # rs1"
    using Cons.prems(1) s by (auto split: prod.splits)
  show ?case
  proof (cases op)
    case (LogAppend t)
    then have "log_event t l = (r, l1)" using s by (simp add: log_step_def)
    note st = log_event_step [OF this, of "length ops"]
    have ok: "log_ok (Suc (length ops)) l" using Cons.prems(2) by simp
    note ih = Cons.IH [OF run st [OF ok, THEN conjunct1]]
    show ?thesis using st [OF ok] ih LogAppend rs
      by (cases r) (fastforce simp: acked_def map_filter_simps)+
  next
    case LogFlush
    then have f: "writer_flush l = (r, l1)" using s by (simp add: log_step_def)
    note st = writer_flush_step [OF f]
    have "log_ok (length ops) l1" using Cons.prems(2) st by (simp add: log_ok_def)
    from Cons.IH [OF run this] st LogFlush rs show ?thesis
      by (simp add: acked_def map_filter_simps)
  qed
qed

text \<open>C27: However writes fail in between, the acknowledged events have strictly increasing ids, and a
  flush that succeeds returns an id that is at least the id of every event acknowledged before it,
  with all the written bytes synced: the watermark in a manifest never claims too little.\<close>

theorem flush_covers_acked_events:
  assumes "log_run ops (addr_log_create faults) = (rs, l)" "length ops < 2 ^ 64 - 1"
    and "writer_flush l = (Inr mark, l')"
  shows "sorted_wrt (<) (map fst (acked rs)) \<and> (\<forall>(i, t)\<in>set (acked rs). i \<le> mark) \<and>
    lg_synced l' = length (lg_written l')"
proof -
  have "log_ok (length ops) (addr_log_create faults)"
    using assms(2) by (simp add: log_ok_def addr_log_create_def)
  from log_run_acked [OF assms(1) this] writer_flush_step [OF assms(3)] show ?thesis by auto
qed

lemma flush_covers_acked_events_witness:
  "\<exists>rs l l'. log_run [LogAppend (\<lambda>i. show_u64 i), LogAppend (\<lambda>i. ''x'')]
      (addr_log_create [None, Some (0, io_err Other ''full'')]) = (rs, l) \<and>
    writer_flush l = (Inr 1, l') \<and> acked rs = [(1, ''1'')] \<and> (\<forall>(i, t)\<in>set (acked rs). i \<le> 1)"
proof -
  let ?ops = "[LogAppend (\<lambda>i. show_u64 i), LogAppend (\<lambda>i. ''x'')]"
  let ?l0 = "addr_log_create [None, Some (0, io_err Other ''full'')]"
  obtain rs l where r: "log_run ?ops ?l0 = (rs, l)" by fastforce
  have one: "show_u64 1 = ''1''" by code_simp
  from r have f: "acked rs = [(1, ''1'')]" "writer_flush l = (Inr 1, l\<lparr>lg_synced := length (lg_written l), lg_faults := []\<rparr>)"
    by (auto simp: log_step_def log_event_def writer_append_def addr_log_create_def Let_def acked_def
        map_filter_simps writer_flush_def one)
  from flush_covers_acked_events [OF r _ f(2)] r f show ?thesis by auto
qed

end
