(* ===== verification/Queue.thy ===== *)
theory Queue
  imports Address
begin

section \<open>Bounded work queues (async_channel, struct Queues of src/crawler.rs)\<close>

text \<open>
  A queue is a bounded first-in first-out channel that can be closed: a closed or full queue refuses
  a send, and a receiver drains what is left of a closed queue before it is told that it is closed.
  The crawler has one per transport.
\<close>

record 'a queue =
  q_items :: "'a list"
  q_capacity :: nat
  q_closed :: bool

definition queue_bounded :: "nat \<Rightarrow> 'a queue" where
  "queue_bounded capacity = \<lparr>q_items = [], q_capacity = capacity, q_closed = False\<rparr>"

definition try_send :: "'a \<Rightarrow> 'a queue \<Rightarrow> bool \<times> 'a queue" where
  "try_send a q =
     (if q_closed q \<or> length (q_items q) \<ge> q_capacity q then (False, q)
      else (True, q\<lparr>q_items := q_items q @ [a]\<rparr>))"

datatype 'a received = Received 'a | QueueClosed | QueueEmpty

definition queue_recv :: "'a queue \<Rightarrow> 'a received \<times> 'a queue" where
  "queue_recv q =
     (case q_items q of
        a # r \<Rightarrow> (Received a, q\<lparr>q_items := r\<rparr>)
      | [] \<Rightarrow> (if q_closed q then QueueClosed else QueueEmpty, q))"

definition queue_close :: "'a queue \<Rightarrow> 'a queue" where
  "queue_close q = q\<lparr>q_closed := True\<rparr>"

subsection \<open>The channel as an interface\<close>

text \<open>
  What the crawler relies on: a send that is accepted appends, one that is refused changes nothing,
  and it is accepted exactly when the channel is open and has room; a receive takes the first
  item; closing keeps the items.
\<close>

locale channel =
  fixes items :: "'q \<Rightarrow> 'a list"
    and open_room :: "'q \<Rightarrow> bool"
    and closed :: "'q \<Rightarrow> bool"
    and send :: "'a \<Rightarrow> 'q \<Rightarrow> bool \<times> 'q"
    and recv :: "'q \<Rightarrow> 'a received \<times> 'q"
    and close :: "'q \<Rightarrow> 'q"
  assumes send_True: "open_room q \<Longrightarrow>
        fst (send a q) \<and> items (snd (send a q)) = items q @ [a] \<and> closed (snd (send a q)) = closed q"
    and send_False: "\<not> open_room q \<Longrightarrow> send a q = (False, q)"
    and recv_item: "recv q = (Received a, q') \<longleftrightarrow>
        items q = a # items q' \<and> closed q' = closed q \<and> q' = snd (recv q)"
    and recv_none: "items q = [] \<Longrightarrow> recv q = (if closed q then QueueClosed else QueueEmpty, q)"
    and close_items: "items (close q) = items q \<and> closed (close q)"
    and closed_no_room: "closed q \<Longrightarrow> \<not> open_room q"
begin

lemma send_count:
  "count_list (items (snd (send a q))) b = count_list (items q) b + of_bool (a = b \<and> open_room q)"
  using send_True [of q a] send_False [of q a] by (cases "open_room q") (auto simp: count_list_append)

lemma send_set: "fst (send a q) \<Longrightarrow> set (items (snd (send a q))) = insert a (set (items q))"
  using send_True [of q a] send_False [of q a] by (cases "open_room q") auto

lemma send_closed: "closed q \<Longrightarrow> send a q = (False, q)"
  by (simp add: closed_no_room send_False)

lemma recv_length: "recv q = (Received a, q') \<Longrightarrow> length (items q) = Suc (length (items q'))"
  using recv_item by (metis length_Cons)

text \<open>First in, first out: what is sent is received after everything that was there before.\<close>

lemma fifo:
  assumes "fst (send a q)" "recv (snd (send a q)) = (Received b, q')"
  shows "b = hd (items q @ [a])"
  using send_True [of q a] send_False [of q a] assms recv_item [of "snd (send a q)" b q']
  by (cases "open_room q") auto

end

definition queue_open_room :: "'a queue \<Rightarrow> bool" where
  "queue_open_room q \<longleftrightarrow> \<not> q_closed q \<and> length (q_items q) < q_capacity q"

interpretation ch: channel q_items queue_open_room q_closed try_send queue_recv queue_close
  by unfold_locales
    (auto simp: try_send_def queue_recv_def queue_close_def queue_open_room_def split: list.splits)

subsection \<open>One queue per transport\<close>

record 'a queues =
  qs_ip :: "'a queue"
  qs_tor :: "'a queue"
  qs_i2p :: "'a queue"

definition queues_new :: "nat \<Rightarrow> 'a queues" where
  "queues_new capacity =
     \<lparr>qs_ip = queue_bounded capacity, qs_tor = queue_bounded capacity, qs_i2p = queue_bounded capacity\<rparr>"

fun queue_of :: "transport \<Rightarrow> 'a queues \<Rightarrow> 'a queue" where
  "queue_of TransportIp qs = qs_ip qs"
| "queue_of TransportTor qs = qs_tor qs"
| "queue_of TransportI2p qs = qs_i2p qs"

fun set_queue :: "transport \<Rightarrow> 'a queue \<Rightarrow> 'a queues \<Rightarrow> 'a queues" where
  "set_queue TransportIp q qs = qs\<lparr>qs_ip := q\<rparr>"
| "set_queue TransportTor q qs = qs\<lparr>qs_tor := q\<rparr>"
| "set_queue TransportI2p q qs = qs\<lparr>qs_i2p := q\<rparr>"

definition close_all :: "'a queues \<Rightarrow> 'a queues" where
  "close_all qs =
     \<lparr>qs_ip = queue_close (qs_ip qs), qs_tor = queue_close (qs_tor qs), qs_i2p = queue_close (qs_i2p qs)\<rparr>"

lemma queue_of_set [simp]: "queue_of u (set_queue t q qs) = (if u = t then q else queue_of u qs)"
  by (cases t; cases u) simp_all

lemma queue_of_close_all [simp]: "queue_of t (close_all qs) = queue_close (queue_of t qs)"
  by (cases t) (simp_all add: close_all_def)

lemma queue_of_new [simp]: "queue_of t (queues_new n) = queue_bounded n"
  by (cases t) (simp_all add: queues_new_def)

lemma set_queue_same [simp]: "set_queue t (queue_of t qs) qs = qs"
  by (cases t) simp_all

text \<open>All queued items.\<close>

definition queued :: "'a queues \<Rightarrow> 'a list" where
  "queued qs = q_items (qs_ip qs) @ q_items (qs_tor qs) @ q_items (qs_i2p qs)"

lemma set_queued: "set (queued qs) = (\<Union>t. set (q_items (queue_of t qs)))"
  by (simp add: queued_def UNIV_transport Un_assoc)

end
