(* ===== verification/Crawler.thy ===== *)
theory Crawler
  imports Transport AddrLog Settings Queue
begin

section \<open>The crawler (src/crawler.rs)\<close>

text \<open>
  The shared state of the crawler and its operations: queues and termination, the processing of one
  node (connect, handshake, getaddr) against a scripted network, the handling of an address message
  and the status texts. An operation maps the state to the state after it; one that waits for
  the network also takes and returns the clock or the connection, and its result is \<open>None\<close> when it
  never returns, which only a write that blocks for ever can cause: the waits for what the workers
  share take the finite time that the environment gives.
\<close>

subsection \<open>State and environment\<close>

record crawler =
  cw_store :: node_store
  cw_queues :: "addr_key queues"
  cw_num_processed :: usize
  cw_sam :: "sam_session option"
  cw_addr_log :: "addr_log option"
  cw_shutdown :: bool
  cw_node_limit_reached :: bool
  cw_worker_failed :: bool
  cw_output_failed :: bool

text \<open>
  The environment: the network, the wall clock in epoch seconds as a function of the monotonic one
  in milliseconds, the random choices, and how long a worker that asks at some time for something the
  workers share waits for it: the mutex around the SAM session, the read side of the observation
  barrier, the address log with its acknowledgement. None of these waits has a timeout in the code.
\<close>

datatype shared = SamLock | ObservationBarrier | LogWriter

record env =
  ev_dial :: dialer
  ev_epoch :: "nat \<Rightarrow> int"
  ev_nonce :: "nat \<Rightarrow> u64"
  ev_sam_id :: "nat \<Rightarrow> u32"
  ev_shuffle :: "nat \<Rightarrow> advertised_addr list \<Rightarrow> advertised_addr list"
  ev_wait :: "shared \<Rightarrow> nat \<Rightarrow> nat"

definition crawler_new :: "node_store \<Rightarrow> settings \<Rightarrow> addr_log option \<Rightarrow> crawler" where
  "crawler_new store st log =
     \<lparr>cw_store = store, cw_queues = queues_new (unat (st_max_addresses st)), cw_num_processed = 0,
      cw_sam = None, cw_addr_log = log, cw_shutdown = False, cw_node_limit_reached = False,
      cw_worker_failed = False, cw_output_failed = False\<rparr>"

definition terminated_early :: "crawler \<Rightarrow> bool" where
  "terminated_early c \<longleftrightarrow> cw_shutdown c \<or> cw_node_limit_reached c"

definition mark_output_failed :: "crawler \<Rightarrow> crawler" where
  "mark_output_failed c = c\<lparr>cw_output_failed := True\<rparr>"

definition on_entry :: "addr_key \<Rightarrow> (node_entry \<Rightarrow> node_entry) \<Rightarrow> crawler \<Rightarrow> crawler" where
  "on_entry key f c = c\<lparr>cw_store := update_entry key f (cw_store c)\<rparr>"

definition on_stats :: "addr_key \<Rightarrow> (node_stats \<Rightarrow> node_stats) \<Rightarrow> crawler \<Rightarrow> crawler" where
  "on_stats key f = on_entry key (\<lambda>e. e\<lparr>ne_stats := f (ne_stats e)\<rparr>)"

definition set_state :: "node_state \<Rightarrow> node_entry \<Rightarrow> node_entry" where
  "set_state st e = e\<lparr>ne_state := st\<rparr>"

definition close_queues :: "crawler \<Rightarrow> crawler" where
  "close_queues c = c\<lparr>cw_queues := close_all (cw_queues c)\<rparr>"

definition key_network :: "crates \<Rightarrow> crawler \<Rightarrow> addr_key \<Rightarrow> network_type" where
  "key_network cr c key =
     (case network_of (cw_store c) key of Some n \<Rightarrow> n | None \<Rightarrow> classify cr (ak_host key))"

definition send_key :: "transport \<Rightarrow> addr_key \<Rightarrow> crawler \<Rightarrow> bool \<times> crawler" where
  "send_key t key c =
     (case try_send key (queue_of t (cw_queues c)) of
        (ok, q) \<Rightarrow> (ok, c\<lparr>cw_queues := set_queue t q (cw_queues c)\<rparr>))"

subsection \<open>Queueing and termination\<close>

definition enqueue :: "crates \<Rightarrow> addr_key \<Rightarrow> crawler \<Rightarrow> crawler" where
  "enqueue cr key c0 =
     (let t = network_transport (key_network cr c0 key);
          c = c0\<lparr>cw_store := incr_outstanding (cw_store c0)\<rparr>
      in case send_key t key c of
           (True, c) \<Rightarrow> c
         | (False, c) \<Rightarrow>
             (let c = on_entry key (set_state BudgetDiscarded) c
              in c\<lparr>cw_store := snd (decr_outstanding (cw_store c))\<rparr>))"

definition enqueue_seed :: "crates \<Rightarrow> addr_key \<Rightarrow> crawler \<Rightarrow> crawler" where
  "enqueue_seed = enqueue"

definition is_active :: "node_entry \<Rightarrow> bool" where
  "is_active e \<longleftrightarrow> ne_state e = Queued \<or> ne_state e = Processing"

definition finish_entry :: "node_state \<Rightarrow> fail_kind option \<Rightarrow> node_entry \<Rightarrow> bool \<times> node_entry" where
  "finish_entry terminal reason e =
     (if is_active e then (True, e\<lparr>ne_state := terminal, ne_failure := reason\<rparr>) else (False, e))"

definition finish :: "addr_key \<Rightarrow> node_state \<Rightarrow> fail_kind option \<Rightarrow> crawler \<Rightarrow> crawler" where
  "finish key terminal reason c =
     (case with_entry key (finish_entry terminal reason) (cw_store c) of
        (was_active, s) \<Rightarrow>
          if was_active = Some True then
            (case decr_outstanding s of
               (prior, s') \<Rightarrow>
                 let c' = c\<lparr>cw_store := s'\<rparr>
                 in if prior = 1 then close_queues c' else c')
          else c\<lparr>cw_store := s\<rparr>)"

definition requeue ::
  "addr_key \<Rightarrow> transport \<Rightarrow> node_state \<Rightarrow> fail_kind option \<Rightarrow> crawler \<Rightarrow> crawler" where
  "requeue key t on_channel_closed reason c =
     (case send_key t key (on_entry key (set_state Queued) c) of
        (True, c) \<Rightarrow> c
      | (False, c) \<Rightarrow> finish key on_channel_closed reason c)"

definition retry_or_finish ::
  "addr_key \<Rightarrow> transport \<Rightarrow> bool \<Rightarrow> node_state \<Rightarrow> fail_kind option \<Rightarrow> crawler \<Rightarrow> crawler" where
  "retry_or_finish key t should_retry terminal reason c =
     (if should_retry then requeue key t terminal reason c else finish key terminal reason c)"

definition reserve_node_slot :: "settings \<Rightarrow> crawler \<Rightarrow> bool \<times> crawler" where
  "reserve_node_slot st c =
     (case st_max_nodes st of
        None \<Rightarrow> (True, c\<lparr>cw_num_processed := cw_num_processed c + 1\<rparr>)
      | Some limit \<Rightarrow>
          if cw_num_processed c < limit then (True, c\<lparr>cw_num_processed := cw_num_processed c + 1\<rparr>)
          else (False, c\<lparr>cw_node_limit_reached := True\<rparr>))"

subsection \<open>Attempts and failures\<close>

definition update_last :: "('a \<Rightarrow> 'a) \<Rightarrow> 'a list \<Rightarrow> 'a list" where
  "update_last f xs = (if xs = [] then [] else butlast xs @ [f (last xs)])"

definition attempt_update ::
  "string \<Rightarrow> fail_kind option \<Rightarrow> u64 option \<Rightarrow> int option \<Rightarrow> attempt_data \<Rightarrow> attempt_data" where
  "attempt_update outcome failure duration timestamp a =
     a\<lparr>at_outcome := outcome,
       at_failure := (if failure \<noteq> None then failure else at_failure a),
       at_connect_duration_ms := (if duration \<noteq> None then duration else at_connect_duration_ms a),
       at_version_send_timestamp :=
         (if timestamp \<noteq> None then timestamp else at_version_send_timestamp a)\<rparr>"

definition update_attempt ::
  "addr_key \<Rightarrow> string \<Rightarrow> fail_kind option \<Rightarrow> u64 option \<Rightarrow> int option \<Rightarrow> crawler \<Rightarrow> crawler" where
  "update_attempt key outcome failure duration timestamp =
     on_entry key (\<lambda>e. e\<lparr>ne_attempts :=
       update_last (attempt_update outcome failure duration timestamp) (ne_attempts e)\<rparr>)"

definition start_attempt :: "addr_key \<Rightarrow> crawler \<Rightarrow> u32 \<times> crawler" where
  "start_attempt key c =
     (case with_entry key (\<lambda>e.
        let n = handshake_attempts (ne_stats e) + 1
        in (n, e\<lparr>ne_stats := (ne_stats e)\<lparr>handshake_attempts := n\<rparr>,
                 ne_attempts := ne_attempts e @
                   [\<lparr>at_attempt = n, at_connect_duration_ms = None, at_version_send_timestamp = None,
                     at_outcome = ''started'', at_failure = None\<rparr>]\<rparr>)) (cw_store c) of
        (r, s) \<Rightarrow> (case r of Some n \<Rightarrow> n | None \<Rightarrow> 1, c\<lparr>cw_store := s\<rparr>))"

definition classify_connect_error :: "io_error \<Rightarrow> network_type \<Rightarrow> fail_kind" where
  "classify_connect_error e network =
     (case err_kind e of
        TimedOut \<Rightarrow> ConnectTimeout
      | io_error_kind.ConnectionRefused \<Rightarrow> ConnectRefused
      | io_error_kind.ConnectionReset \<Rightarrow> ConnectReset
      | ConnectionAborted \<Rightarrow> ConnectReset
      | _ \<Rightarrow>
          if err_raw_os e = Some 101 \<or> err_raw_os e = Some 113 then ConnectUnreachable
          else case network of
                 OnionV2 \<Rightarrow> ProxyError | OnionV3 \<Rightarrow> ProxyError | I2p \<Rightarrow> SamError | _ \<Rightarrow> ConnectOther)"

definition classify_handshake_error :: "io_error \<Rightarrow> fail_kind" where
  "classify_handshake_error e =
     (case err_kind e of
        InvalidData \<Rightarrow> ProtocolDesync
      | UnexpectedEof \<Rightarrow> ConnectionClosed
      | io_error_kind.ConnectionReset \<Rightarrow> ConnectionClosed
      | ConnectionAborted \<Rightarrow> ConnectionClosed
      | BrokenPipe \<Rightarrow> ConnectionClosed
      | _ \<Rightarrow> HandshakeOther)"

subsection \<open>Connecting\<close>

text \<open>
  The mutex is held while a session is made, so the others that need one wait for it; the crawler given
  is the one found when the mutex is there.
\<close>

definition sam_session_get ::
  "env \<Rightarrow> settings \<Rightarrow> nat \<Rightarrow> nat \<Rightarrow> crawler \<Rightarrow> sam_session option \<times> nat \<times> crawler" where
  "sam_session_get ev st connect_timeout asked c =
     (let now = asked + ev_wait ev SamLock asked
      in case cw_sam c of
           Some session \<Rightarrow> (Some session, now, c)
         | None \<Rightarrow>
             let ns = ns_endpoints (st_node_settings st)
             in case sam_create (ev_dial ev) (i2p_sam_host ns) (i2p_sam_port ns) (ev_sam_id ev now)
                     connect_timeout now of
                  (Inr s, fin) \<Rightarrow> (Some s, fin, c\<lparr>cw_sam := Some s\<rparr>)
                | (Inl e, fin) \<Rightarrow> (None, fin, c))"

definition connect ::
  "env \<Rightarrow> settings \<Rightarrow> addr_key \<Rightarrow> network_type \<Rightarrow> nat \<Rightarrow> nat \<Rightarrow> crawler \<Rightarrow>
   (io_error + connection) \<times> nat \<times> crawler" where
  "connect ev st key network connect_timeout now c =
     (let ns = ns_endpoints (st_node_settings st);
          wrap = (\<lambda>(r, fin). (map_sum id connection_new r, fin, c));
          tcp = wrap (connect_tcp (ev_dial ev) (ak_host key) (ak_port key) connect_timeout now);
          tor = wrap (connect_socks5 (ev_dial ev) (tor_proxy_host ns) (tor_proxy_port ns) (ak_host key)
                  (ak_port key) connect_timeout now)
      in case network of
           Ipv4 \<Rightarrow> tcp | Ipv6 \<Rightarrow> tcp | Cjdns \<Rightarrow> tcp
         | OnionV2 \<Rightarrow> tor | OnionV3 \<Rightarrow> tor
         | I2p \<Rightarrow>
             (case sam_session_get ev st connect_timeout now c of
                (None, fin, c) \<Rightarrow> (Inl (io_err Other ''no SAM session''), fin, c)
              | (Some session, fin, c) \<Rightarrow>
                  (case sam_connect (ev_dial ev) session (ak_host key) connect_timeout fin of
                     (Inr s, fin) \<Rightarrow> (Inr (connection_new s), fin, c)
                   | (Inl e, fin) \<Rightarrow>
                       if contains (err_text e) ''RESULT=INVALID_ID''
                       then (Inl e, fin + ev_wait ev SamLock fin,
                             if cw_sam c = Some session then c\<lparr>cw_sam := None\<rparr> else c)
                       else (Inl e, fin, c)))
         | Unknown \<Rightarrow> (Inl (io_err Other ''unknown network type has no transport''), now, c))"

subsection \<open>Progress of the receive operations\<close>

lemma recv_one_message_flow:
  assumes "recv_one cr w conn = (Inr (Some env), conn')"
  shows "length (flow conn') < length (flow conn)"
proof -
  have "env_ok env" "flow conn = env_bytes cr env @ flow conn'"
    using recv_loop_flow [of cr _ conn "Some env" conn'] assms by (auto simp: recv_one_def)
  then show ?thesis using length_env_bytes [of env cr] by (simp add: env_ok_def)
qed

lemma recv_one_time:
  "recv_one cr w conn = (r, conn') \<Longrightarrow> conn_now conn \<le> conn_now conn' \<and> conn_now conn' \<le> conn_now conn + w"
  using recv_loop_time [of cr "conn_now conn + w" conn r conn'] by (simp add: recv_one_def)

lemma write_all_reads: "write_all bs s = (r, s') \<Longrightarrow> ts_reads s' = ts_reads s \<and> ts_clock s \<le> ts_clock s'"
  by (auto simp: write_all_def split: list.splits write_result.splits)

lemma conn_send_flow:
  "conn_send cr cmd p conn = (r, conn') \<Longrightarrow> flow conn' = flow conn \<and> conn_now conn \<le> conn_now conn' \<and>
     recv_buf conn' = recv_buf conn \<and> frame_started conn' = frame_started conn"
  by (auto simp: conn_send_def flow_def dest!: write_all_reads split: sum.splits prod.splits)

lemma answer_ping_flow:
  "answer_ping cr p v conn = (r, conn') \<Longrightarrow> flow conn' = flow conn \<and> conn_now conn \<le> conn_now conn' \<and>
     recv_buf conn' = recv_buf conn \<and> frame_started conn' = frame_started conn"
  by (auto simp: answer_ping_def Let_def dest!: conn_send_flow split: sum.splits if_splits)

subsection \<open>The handshake\<close>

datatype recv_result = RecvMessage envelope | RecvTimeout | RecvTransport io_error

text \<open>
  \<open>recv_matching\<close> loops until the deadline. With a per-message timeout of zero before the deadline it
  would loop for ever, which is the value \<open>None\<close> like a write that never completes.
\<close>

partial_function (option) recv_matching ::
  "crates \<Rightarrow> string list \<Rightarrow> nat \<Rightarrow> nat \<Rightarrow> int option \<Rightarrow> connection \<Rightarrow> (recv_result \<times> connection) option" where
  "recv_matching cr expected deadline per_timeout ping_version conn =
     (if conn_now conn \<ge> deadline then Some (RecvTimeout, conn)
      else
        case recv_one cr (min (deadline - conn_now conn) per_timeout) conn of
          (Inl e, conn) \<Rightarrow> Some (RecvTransport e, conn)
        | (Inr None, conn) \<Rightarrow> recv_matching cr expected deadline per_timeout ping_version conn
        | (Inr (Some env), conn) \<Rightarrow>
            if env_command env \<in> set expected then Some (RecvMessage env, conn)
            else if env_command env = ''ping'' \<and> ping_version \<noteq> None then
              (case answer_ping cr (env_payload env) (the ping_version) conn of
                 (None, conn) \<Rightarrow> None
               | (Some (Inl e), conn) \<Rightarrow> Some (RecvTransport e, conn)
               | (Some (Inr _), conn) \<Rightarrow>
                   recv_matching cr expected deadline per_timeout ping_version conn)
            else recv_matching cr expected deadline per_timeout ping_version conn)"

datatype handshake_result =
  HsVersion version_data int u64
| HsTimeout
| HsFailed fail_kind string

definition handshake ::
  "crates \<Rightarrow> env \<Rightarrow> addr_key \<Rightarrow> timeouts \<Rightarrow> connection \<Rightarrow> crawler \<Rightarrow>
   (handshake_result \<times> connection \<times> crawler) option" where
  "handshake cr ev key tos conn c =
     (let start = conn_now conn;
          sent_ts = ev_epoch ev start;
          payload = build_version sent_ts (ev_nonce ev start)
      in case conn_send cr ''version'' payload conn of
        (None, _) \<Rightarrow> None
      | (Some (Inl e), conn) \<Rightarrow> Some (HsFailed VersionSendFailed (err_text e), conn, c)
      | (Some (Inr _), conn) \<Rightarrow>
        let c = on_stats key (\<lambda>s. if first_version_send_ts s = None
                  then s\<lparr>first_version_send_ts := Some sent_ts\<rparr> else s) c;
            c = update_attempt key ''version_sent'' None None (Some sent_ts) c;
            per = 1000 * unat (to_message tos);
            deadline = start + per
        in case recv_matching cr [''version''] deadline per None conn of
          None \<Rightarrow> None
        | Some (RecvTimeout, conn) \<Rightarrow> Some (HsTimeout, conn, c)
        | Some (RecvTransport e, conn) \<Rightarrow>
            Some (HsFailed (classify_handshake_error e) (err_text e), conn, c)
        | Some (RecvMessage env, conn) \<Rightarrow>
          case parse_version (env_payload env) of
            None \<Rightarrow> Some (HsFailed MalformedVersion ''peer version payload could not be parsed'', conn, c)
          | Some peer_version \<Rightarrow>
            case (if min (vd_version peer_version) PROTOCOL_VERSION \<ge> 70016
                  then conn_send cr ''sendaddrv2'' [] conn else (Some (Inr ()), conn)) of
              (None, _) \<Rightarrow> None
            | (Some (Inl e), conn) \<Rightarrow> Some (HsFailed NegotiationSendFailed (err_text e), conn, c)
            | (Some (Inr _), conn) \<Rightarrow>
              case conn_send cr ''verack'' [] conn of
                (None, _) \<Rightarrow> None
              | (Some (Inl e), conn) \<Rightarrow> Some (HsFailed VerackSendFailed (err_text e), conn, c)
              | (Some (Inr _), conn) \<Rightarrow>
                case recv_matching cr [''verack''] deadline per (Some (vd_version peer_version)) conn of
                  None \<Rightarrow> None
                | Some (RecvMessage _, conn) \<Rightarrow>
                    Some (HsVersion peer_version sent_ts (word_of_nat (conn_now conn - start)), conn, c)
                | Some (RecvTimeout, conn) \<Rightarrow>
                    Some (HsFailed PeerVerackTimeout
                      ''peer verack was not received before the handshake deadline'', conn, c)
                | Some (RecvTransport e, conn) \<Rightarrow>
                    Some (HsFailed (classify_handshake_error e) (err_text e), conn, c))"

subsection \<open>Peer discovery\<close>

definition is_getaddr_reply_complete :: "nat \<Rightarrow> bool" where
  "is_getaddr_reply_complete address_count \<longleftrightarrow> address_count > 1"

definition record_message :: "parsed_addr_message \<Rightarrow> node_stats \<Rightarrow> node_stats" where
  "record_message parsed s0 =
     (let s = fold (\<lambda>a s. record_advertised (ad_network a) s) (pm_addrs parsed) s0
      in s\<lparr>advertised_total := advertised_total s + unknown_entries parsed,
           advertised_unknown := advertised_unknown s + unknown_entries parsed\<rparr>)"

definition frontier_one :: "crates \<Rightarrow> settings \<Rightarrow> int \<Rightarrow> advertised_addr \<Rightarrow> crawler \<Rightarrow> crawler" where
  "frontier_one cr st now a c =
     (let akey = \<lparr>ak_host = ad_host a, ak_port = ad_port a\<rparr>
      in case frontier_upsert akey (ad_timestamp a) (ad_network a) (st_freshness_threshold st) now
                (cw_store c) of
           (outcome, s) \<Rightarrow>
             let c = c\<lparr>cw_store := s\<rparr>
             in if outcome = Enqueue then enqueue cr akey c else c)"

text \<open>\<open>handle_addr_message\<close> at the given time; the result is false when the log could not be written.\<close>

definition handle_addr_message ::
  "crates \<Rightarrow> env \<Rightarrow> settings \<Rightarrow> addr_key \<Rightarrow> string \<Rightarrow> parsed_addr_message \<Rightarrow> handshake_data \<Rightarrow> nat \<Rightarrow>
   crawler \<Rightarrow> bool \<times> crawler" where
  "handle_addr_message cr ev st responder message_type parsed hs clock c0 =
     (let now = ev_epoch ev clock;
          c = on_stats responder (record_message parsed) c0;
          logged = (case cw_addr_log c of
              None \<Rightarrow> (True, c)
            | Some log \<Rightarrow>
                (case write_block
                   \<lparr>rp_host = ak_host responder, rp_port = ak_port responder,
                    rp_network = network_as_str (classify cr (ak_host responder)),
                    rp_received_at = now, rp_message_type = message_type, rp_handshake = hs\<rparr> parsed log of
                   (Inr _, log') \<Rightarrow> (True, c\<lparr>cw_addr_log := Some log'\<rparr>)
                 | (Inl _, log') \<Rightarrow> (False, c\<lparr>cw_addr_log := Some log'\<rparr>)))
      in case logged of
           (False, c) \<Rightarrow> (False, c)
         | (True, c) \<Rightarrow>
             let enabled = ev_shuffle ev clock
                   (filter (\<lambda>a. is_enabled st (ad_network a)) (pm_addrs parsed))
             in (True, fold (frontier_one cr st now) enabled c))"

definition handle_malformed ::
  "crates \<Rightarrow> addr_key \<Rightarrow> envelope \<Rightarrow> addr_parse_error \<Rightarrow> u64 \<Rightarrow> crawler \<Rightarrow> collection_outcome \<times> crawler" where
  "handle_malformed cr key env e valid_messages c0 =
     (let c = on_stats key (\<lambda>s. s\<lparr>malformed_addr_messages := malformed_addr_messages s + 1\<rparr>) c0;
          outcome = (if valid_messages = 0 then MalformedResponse else PartialMalformedResponse)
      in case cw_addr_log c of
           None \<Rightarrow> (outcome, c)
         | Some log \<Rightarrow>
             (case write_malformed cr (ak_host key) (ak_port key) (env_command env) e (env_payload env) log of
                (Inr _, log') \<Rightarrow> (outcome, c\<lparr>cw_addr_log := Some log'\<rparr>)
              | (Inl _, log') \<Rightarrow>
                  (LogFailed, c\<lparr>cw_addr_log := Some log', cw_output_failed := True\<rparr>)))"

text \<open>Time that passes while a worker waits for something shared; the stream stays as it is.\<close>

definition conn_pause :: "nat \<Rightarrow> connection \<Rightarrow> connection" where
  "conn_pause d conn = conn\<lparr>conn_stream := (conn_stream conn)\<lparr>ts_clock := conn_now conn + d\<rparr>\<rparr>"

definition barrier_pause :: "env \<Rightarrow> connection \<Rightarrow> connection" where
  "barrier_pause ev conn = conn_pause (ev_wait ev ObservationBarrier (conn_now conn)) conn"

definition log_pause :: "env \<Rightarrow> crawler \<Rightarrow> connection \<Rightarrow> connection" where
  "log_pause ev c conn =
     (if cw_addr_log c = None then conn else conn_pause (ev_wait ev LogWriter (conn_now conn)) conn)"

lemma conn_pause_fields [simp]:
  "flow (conn_pause d conn) = flow conn" "conn_now (conn_pause d conn) = conn_now conn + d"
  "ts_writes (conn_stream (conn_pause d conn)) = ts_writes (conn_stream conn)"
  by (simp_all add: conn_pause_def flow_def)

lemma pause_flow [simp]: "flow (barrier_pause ev conn) = flow conn" "flow (log_pause ev c conn) = flow conn"
  by (simp_all add: barrier_pause_def log_pause_def)

function getaddr_loop ::
  "crates \<Rightarrow> env \<Rightarrow> settings \<Rightarrow> addr_key \<Rightarrow> handshake_data \<Rightarrow> nat \<Rightarrow> nat \<Rightarrow> u64 \<Rightarrow> connection \<Rightarrow> crawler \<Rightarrow>
   (collection_outcome \<times> connection \<times> crawler) option" where
  "getaddr_loop cr ev st key hs hard_deadline idle valid conn c =
     (if conn_now conn \<ge> hard_deadline
      then Some (if valid = 0 then HardTimeout else PartialHardTimeout, conn, c)
      else
        case recv_one cr (min (hard_deadline - conn_now conn) idle) conn of
          (Inl e, conn1) \<Rightarrow>
            Some (if err_kind e = TimedOut
                  then (if valid = 0 then IncompleteEnvelopeTimeout else PartialIncompleteEnvelopeTimeout)
                  else (if valid = 0 then RemoteDisconnect else PartialRemoteDisconnect), conn1, c)
        | (Inr None, conn1) \<Rightarrow>
            Some (if has_partial_envelope conn1
                  then (if valid = 0 then IncompleteEnvelopeTimeout else PartialIncompleteEnvelopeTimeout)
                  else (if valid = 0 then NoResponseTimeout else CompleteQuiet), conn1, c)
        | (Inr (Some env), conn1) \<Rightarrow>
            if env_command env = ''addr'' \<or> env_command env = ''addrv2'' then
              (case (if env_command env = ''addr'' then parse_addr (env_payload env)
                     else parse_addrv2 cr (env_payload env)) of
                 Inl e \<Rightarrow>
                   (case handle_malformed cr key env e valid c of
                      (o', c') \<Rightarrow> Some (o', log_pause ev c (barrier_pause ev conn1), c'))
               | Inr parsed \<Rightarrow>
                   (case handle_addr_message cr ev st key (env_command env) parsed hs
                       (conn_now (barrier_pause ev conn1)) c of
                      (False, c1) \<Rightarrow>
                        Some (LogFailed, log_pause ev c (barrier_pause ev conn1), c1\<lparr>cw_output_failed := True\<rparr>)
                    | (True, c1) \<Rightarrow>
                        let c2 = on_stats key (\<lambda>s. s\<lparr>valid_addr_messages := valid_addr_messages s + 1\<rparr>) c1
                        in if is_getaddr_reply_complete (length (pm_addrs parsed))
                           then Some (CompleteQuiet, log_pause ev c (barrier_pause ev conn1), c2)
                           else getaddr_loop cr ev st key hs hard_deadline idle (valid + 1)
                                  (log_pause ev c (barrier_pause ev conn1)) c2))
            else if env_command env = ''ping'' then
              (case answer_ping cr (env_payload env) (hd_version hs) conn1 of
                 (None, conn2) \<Rightarrow> None
               | (Some (Inl _), conn2) \<Rightarrow>
                   Some (if valid = 0 then RemoteDisconnect else PartialRemoteDisconnect, conn2, c)
               | (Some (Inr _), conn2) \<Rightarrow>
                   getaddr_loop cr ev st key hs hard_deadline idle valid conn2 c)
            else getaddr_loop cr ev st key hs hard_deadline idle valid conn1 c)"
  by pat_completeness auto
termination
proof (relation "measure (\<lambda>(cr, ev, st, key, hs, d, i, v, conn, c). length (flow conn))", goal_cases)
  case 1
  then show ?case by simp
qed (auto dest!: sym [of "(Inr (Some _), _)"] sym [of "(Some (Inr _), _)"] answer_ping_flow
    intro: recv_one_message_flow)

declare getaddr_loop.simps [simp del]

definition getaddr ::
  "crates \<Rightarrow> env \<Rightarrow> settings \<Rightarrow> addr_key \<Rightarrow> timeouts \<Rightarrow> handshake_data \<Rightarrow> connection \<Rightarrow> crawler \<Rightarrow>
   (collection_outcome \<times> connection \<times> crawler) option" where
  "getaddr cr ev st key tos hs conn c =
     (case conn_send cr ''getaddr'' [] conn of
        (None, _) \<Rightarrow> None
      | (Some (Inl _), conn) \<Rightarrow> Some (SendFailed, conn, c)
      | (Some (Inr _), conn) \<Rightarrow>
          getaddr_loop cr ev st key hs (conn_now conn + 1000 * unat (to_getaddr tos))
            (1000 * unat (to_getaddr_idle tos)) 0 conn c)"

subsection \<open>Processing one node\<close>

definition ever_connected :: "addr_key \<Rightarrow> crawler \<Rightarrow> bool" where
  "ever_connected key c =
     (case fst (with_entry key (\<lambda>e. (time_connect_ms (ne_stats e) \<noteq> None, e)) (cw_store c)) of
        Some b \<Rightarrow> b | None \<Rightarrow> False)"

text \<open>The connect attempt failed: record it, and retry or give up.\<close>

definition connect_failed ::
  "settings \<Rightarrow> addr_key \<Rightarrow> transport \<Rightarrow> u32 \<Rightarrow> fail_kind \<Rightarrow> crawler \<Rightarrow> crawler" where
  "connect_failed st key t attempt kind c0 =
     (let c = update_attempt key ''connect_failed'' (Some kind) None None c0;
          terminal = (if ever_connected key c then HandshakeFailed else Unreachable)
      in retry_or_finish key t (attempt < ns_handshake_attempts (st_node_settings st)) terminal
           (Some kind) c)"

text \<open>The handshake succeeded: record it, collect addresses unless probing, and finish.\<close>

definition record_outcome :: "addr_key \<Rightarrow> collection_outcome \<Rightarrow> crawler \<Rightarrow> crawler" where
  "record_outcome key outcome c0 =
     (let c = on_stats key (\<lambda>s. s\<lparr>collection_outcome := outcome\<rparr>) c0
      in case cw_addr_log c of
           None \<Rightarrow> c
         | Some log \<Rightarrow>
             (case write_outcome (ak_host key) (ak_port key) outcome log of
                (Inr _, log') \<Rightarrow> c\<lparr>cw_addr_log := Some log'\<rparr>
              | (Inl _, log') \<Rightarrow> c\<lparr>cw_addr_log := Some log', cw_output_failed := True\<rparr>))"

definition discover ::
  "crates \<Rightarrow> env \<Rightarrow> settings \<Rightarrow> addr_key \<Rightarrow> timeouts \<Rightarrow> handshake_data \<Rightarrow> connection \<Rightarrow> crawler \<Rightarrow>
   (nat \<times> crawler) option" where
  "discover cr ev st key tos hs conn c =
     (if st_probe_mode st then Some (conn_now conn, c)
      else case getaddr cr ev st key tos hs conn c of
        None \<Rightarrow> None
      | Some (outcome, conn, c) \<Rightarrow>
          Some (conn_now (log_pause ev c (barrier_pause ev conn)), record_outcome key outcome c))"

definition handshake_done ::
  "crates \<Rightarrow> env \<Rightarrow> settings \<Rightarrow> addr_key \<Rightarrow> timeouts \<Rightarrow> version_data \<Rightarrow> int \<Rightarrow> u64 \<Rightarrow> connection \<Rightarrow> crawler \<Rightarrow>
   (nat \<times> crawler) option" where
  "handshake_done cr ev st key tos v sent_ts duration_ms conn c0 =
     (let hs = from_version v sent_ts duration_ms (key_render key) (key_render key)
                 (socket_local conn) (socket_peer conn);
          c = on_entry key (\<lambda>e. e\<lparr>ne_handshake := Some hs\<rparr>) c0
      in case discover cr ev st key tos hs conn c of
           None \<Rightarrow> None
         | Some (fin, c) \<Rightarrow>
             Some (fin, finish key Reachable None
               (update_attempt key ''handshake_complete'' None None (Some sent_ts) c)))"

definition process ::
  "crates \<Rightarrow> env \<Rightarrow> settings \<Rightarrow> addr_key \<Rightarrow> transport \<Rightarrow> nat \<Rightarrow> crawler \<Rightarrow> (nat \<times> crawler) option" where
  "process cr ev st key t now c0 =
     (let network = key_network cr c0 key;
          tos = timeouts_for st network;
          max_attempts = ns_handshake_attempts (st_node_settings st)
      in case start_attempt key c0 of (attempt, c) \<Rightarrow>
         case connect ev st key network (1000 * unat (to_connect tos)) now c of
           (Inl e, fin, c) \<Rightarrow>
             Some (fin, connect_failed st key t attempt (classify_connect_error e network) c)
         | (Inr conn, fin, c) \<Rightarrow>
             let connect_ms = word_of_nat (conn_now conn - now);
                 c = on_stats key (\<lambda>s. s\<lparr>time_connect_ms := Some connect_ms\<rparr>) c;
                 c = update_attempt key ''connected'' None (Some connect_ms) None c
             in case handshake cr ev key tos conn c of
                  None \<Rightarrow> None
                | Some (HsVersion v sent_ts duration_ms, conn, c) \<Rightarrow>
                    handshake_done cr ev st key tos v sent_ts duration_ms conn c
                | Some (HsTimeout, conn, c) \<Rightarrow>
                    let should_retry = (st_retry_on_timeout st \<and> attempt < max_attempts);
                        c = update_attempt key ''handshake_timeout'' (Some HandshakeTimeout) None None c
                    in Some (conn_now conn,
                         retry_or_finish key t should_retry HandshakeFailed (Some HandshakeTimeout) c)
                | Some (HsFailed kind detail, conn, c) \<Rightarrow>
                    let c = update_attempt key ''handshake_failed'' (Some kind) None None c
                    in Some (conn_now conn,
                         retry_or_finish key t (attempt < max_attempts) HandshakeFailed (Some kind) c))"

subsection \<open>The worker loop\<close>

text \<open>
  One turn of a worker: it stops on shutdown or when its queue is closed and drained, waits while the
  queue is empty, gives up the node when the node budget is spent, and processes it otherwise.
  \<open>panics\<close> says whether the task that processes the node panics, and \<open>partial\<close> what it had done to the
  state by then.
\<close>

datatype turn_result = WorkerExit | WorkerWaits | WorkerContinues nat | WorkerStuck

definition worker_failed_on :: "addr_key \<Rightarrow> crawler \<Rightarrow> crawler" where
  "worker_failed_on key c =
     close_queues (finish key HandshakeFailed (Some WorkerFailed)
       (c\<lparr>cw_worker_failed := True, cw_shutdown := True\<rparr>))"

definition worker_turn ::
  "crates \<Rightarrow> env \<Rightarrow> settings \<Rightarrow> transport \<Rightarrow> (crawler \<Rightarrow> crawler) option \<Rightarrow> nat \<Rightarrow> crawler \<Rightarrow>
   turn_result \<times> crawler" where
  "worker_turn cr ev st t panics now c0 =
     (if cw_shutdown c0 then (WorkerExit, c0)
      else case queue_recv (queue_of t (cw_queues c0)) of
        (QueueClosed, q) \<Rightarrow> (WorkerExit, c0)
      | (QueueEmpty, q) \<Rightarrow> (WorkerWaits, c0)
      | (Received key, q) \<Rightarrow>
          (case reserve_node_slot st (c0\<lparr>cw_queues := set_queue t q (cw_queues c0)\<rparr>) of
             (False, c) \<Rightarrow> (WorkerContinues now, close_queues (finish key BudgetDiscarded None c))
           | (True, c) \<Rightarrow>
               let c = on_entry key (set_state Processing) c
               in case panics of
                    Some partial \<Rightarrow> (WorkerExit, worker_failed_on key (partial c))
                  | None \<Rightarrow>
                      (case process cr ev st key t now c of
                         None \<Rightarrow> (WorkerStuck, c)
                       | Some (fin, c) \<Rightarrow> (WorkerContinues fin, c))))"

text \<open>Ctrl+C: workers finish what they hold and stop.\<close>

definition request_shutdown :: "crawler \<Rightarrow> crawler" where
  "request_shutdown c = close_queues (c\<lparr>cw_shutdown := True\<rparr>)"

text \<open>What \<open>run\<close> does before the workers start and what it returns after they have all returned.\<close>

definition run_start :: "crawler \<Rightarrow> crawler" where
  "run_start c = (if ns_outstanding (cw_store c) = 0 then close_queues c else c)"

definition run_result :: "crawler \<Rightarrow> string + unit" where
  "run_result c =
     (if cw_worker_failed c then Inl ''one or more worker tasks failed''
      else if cw_output_failed c then Inl ''address observation log failed''
      else Inr ())"

subsection \<open>Status texts\<close>

definition format_eta :: "nat \<Rightarrow> string" where
  "format_eta secs =
     (let days = secs div 86400;
          hours = secs mod 86400 div 3600;
          minutes = secs mod 3600 div 60;
          seconds = secs mod 60
      in if days > 0 then show_dec days @ ''d '' @ show_dec hours @ ''h '' @ show_dec minutes @ ''m''
         else if hours > 0
         then show_dec hours @ ''h '' @ show_dec minutes @ ''m '' @ show_dec seconds @ ''s''
         else if minutes > 0 then show_dec minutes @ ''m '' @ show_dec seconds @ ''s''
         else show_dec seconds @ ''s'')"

definition status_counts :: "crawler \<Rightarrow> nat list" where
  "status_counts c =
     map (count_state (cw_store c)) [Reachable, HandshakeFailed, Unreachable, Queued, Processing]"

end
