(* ===== verification/Runs.thy ===== *)
theory Runs
  imports Main
begin

section \<open>Runs of a step relation\<close>

text \<open>
  The interface of a system that starts in certain states and moves by a step relation, with the two ways
  of proving something of every state it reaches: an invariant, and a simulation by another system
  whose reachable states are already understood. The crawl, the crawler binary around it and the probe
  are the systems of this development.
\<close>

locale run_system =
  fixes start :: "'s \<Rightarrow> bool"
    and step :: "'s \<Rightarrow> 's \<Rightarrow> bool"
    and reach :: "'s \<Rightarrow> bool"
  assumes start_reached: "start s \<Longrightarrow> reach s"
    and step_reached: "reach s \<Longrightarrow> step s s' \<Longrightarrow> reach s'"
    and reach_rule: "reach s \<Longrightarrow> (\<And>s. start s \<Longrightarrow> P s) \<Longrightarrow>
      (\<And>s s'. reach s \<Longrightarrow> P s \<Longrightarrow> step s s' \<Longrightarrow> P s') \<Longrightarrow> P s"
begin

lemma steps_reached: "step\<^sup>*\<^sup>* s s' \<Longrightarrow> reach s \<Longrightarrow> reach s'"
  by (induction rule: rtranclp_induct) (auto intro: step_reached)

text \<open>An invariant may rely on another one that is already established.\<close>

lemma invariant_under:
  assumes "reach s" "\<And>s. reach s \<Longrightarrow> J s" "\<And>s. start s \<Longrightarrow> I s"
    and "\<And>s s'. J s \<Longrightarrow> I s \<Longrightarrow> step s s' \<Longrightarrow> I s'"
  shows "I s"
  using assms(1) by (rule reach_rule) (auto intro: assms(2-4))

lemma invariant:
  assumes "reach s" "\<And>s. start s \<Longrightarrow> I s" "\<And>s s'. I s \<Longrightarrow> step s s' \<Longrightarrow> I s'"
  shows "I s"
  using assms(1) by (rule invariant_under [where J = "\<lambda>_. True"]) (auto intro: assms(2,3))

end

text \<open>Every step of the first system is matched by steps of the second, under an abstraction of the states.\<close>

locale simulation =
  A: run_system startA stepA reachA + B: run_system startB stepB reachB
  for startA :: "'a \<Rightarrow> bool" and stepA :: "'a \<Rightarrow> 'a \<Rightarrow> bool" and reachA :: "'a \<Rightarrow> bool"
    and startB :: "'b \<Rightarrow> bool" and stepB :: "'b \<Rightarrow> 'b \<Rightarrow> bool" and reachB :: "'b \<Rightarrow> bool" +
  fixes abstr :: "'a \<Rightarrow> 'b"
  assumes start_matched: "startA s \<Longrightarrow> startB (abstr s)"
    and step_matched: "reachA s \<Longrightarrow> stepA s s' \<Longrightarrow> stepB\<^sup>*\<^sup>* (abstr s) (abstr s')"
begin

lemma reach_matched: "reachA s \<Longrightarrow> reachB (abstr s)"
  by (erule A.reach_rule) (blast intro: B.start_reached start_matched B.steps_reached step_matched)+

end

end
