(* ===== verification/Crawl_Steps.thy ===== *)
theory Crawl_Steps
  imports Crawler "HOL-Library.Multiset" Runs
begin

section \<open>The crawl as a system of workers (worker_loop, process and finish of src/crawler.rs)\<close>

text \<open>
  The workers of a crawl run concurrently on the shared state. Here each worker has a program
  counter, and a step is one atomic access to the shared state: one store operation, one send or
  receive, one counter operation, one closing of the queues. What is proved of all reachable states
  holds for every interleaving.
\<close>

subsection \<open>Active addresses\<close>

text \<open>The addresses that still have work: queued or being processed.\<close>

definition active_keys :: "node_store \<Rightarrow> addr_key multiset" where
  "active_keys s = mset (map fst (filter (\<lambda>(k, e). is_active e) (ns_map s)))"

lemma count_active_keys: "count (active_keys s) x = count_entries (\<lambda>k e. k = x \<and> is_active e) s"
proof -
  have "count (mset (map fst (filter (\<lambda>(k, e). is_active e) xs))) x =
      length (filter (\<lambda>(k, e). k = x \<and> is_active e) xs)" for xs :: "(addr_key \<times> node_entry) list"
    by (induction xs) auto
  then show ?thesis by (simp add: active_keys_def count_entries_def)
qed

lemma active_update:
  assumes "lookup s k = Some e"
  shows "active_keys (update_entry k f s) + (if is_active e then {#k#} else {#}) =
    active_keys s + (if is_active (f e) then {#k#} else {#})"
proof (rule multiset_eqI)
  fix x
  show "count (active_keys (update_entry k f s) + (if is_active e then {#k#} else {#})) x =
    count (active_keys s + (if is_active (f e) then {#k#} else {#})) x"
    using es.cnt_upd [OF assms, of "\<lambda>k e. k = x \<and> is_active e" f] by (auto simp: count_active_keys)
qed

lemma active_update_same:
  assumes "\<And>e. is_active (f e) = is_active e"
  shows "active_keys (update_entry k f s) = active_keys s"
proof (cases "lookup s k")
  case None
  then show ?thesis by (simp add: es.upd_absent)
next
  case (Some e)
  from active_update [OF this, of f] assms show ?thesis by (auto split: if_splits)
qed

lemma active_insert_old:
  assumes "lookup s k = Some e0"
  shows "active_keys (insert_entry k e s) + (if is_active e0 then {#k#} else {#}) =
    active_keys s + (if is_active e then {#k#} else {#})"
proof (rule multiset_eqI)
  fix x
  show "count (active_keys (insert_entry k e s) + (if is_active e0 then {#k#} else {#})) x =
    count (active_keys s + (if is_active e then {#k#} else {#})) x"
    using es.cnt_ins_old [OF assms, of "\<lambda>k e. k = x \<and> is_active e" e] by (auto simp: count_active_keys)
qed

lemma active_insert_new:
  assumes "lookup s k = None"
  shows "active_keys (insert_entry k e s) = active_keys s + (if is_active e then {#k#} else {#})"
proof (rule multiset_eqI)
  fix x
  show "count (active_keys (insert_entry k e s)) x =
    count (active_keys s + (if is_active e then {#k#} else {#})) x"
    using es.cnt_ins_new [OF assms, of "\<lambda>k e. k = x \<and> is_active e" e] by (auto simp: count_active_keys)
qed

lemma active_map: "ns_map s' = ns_map s \<Longrightarrow> active_keys s' = active_keys s"
  by (simp add: active_keys_def)

lemma active_member: "k \<in># active_keys s \<Longrightarrow> store_ok s \<Longrightarrow> \<exists>e. lookup s k = Some e \<and> is_active e"
  by (force simp: active_keys_def store_ok_def)

lemma active_distinct:
  assumes "store_ok s"
  shows "count (active_keys s) k \<le> 1"
proof -
  have "distinct (map fst (filter (\<lambda>(k, e). is_active e) (ns_map s)))"
    using assms by (simp add: store_ok_def distinct_map_filter)
  then show ?thesis by (simp add: active_keys_def distinct_count_atmost_1)
qed

lemma active_size: "size (active_keys s) \<le> length (ns_map s)"
  by (metis active_keys_def length_filter_le length_map size_mset)

text \<open>An address handed to the queues becomes active; any other observation leaves the active ones alone.\<close>

lemma active_frontier:
  assumes "frontier_upsert k ts net thr now s = (out, s')"
  shows "active_keys s' = active_keys s + (if out = Enqueue then {#k#} else {#})"
proof (cases "lookup s k")
  case (Some e)
  have i: "active_keys (insert_entry k e1 s) = active_keys s + (if is_active e1 \<and> \<not> is_active e then {#k#} else {#})"
    if "is_active e \<longrightarrow> is_active e1" for e1
    using active_insert_old [OF Some, of e1] that by (auto split: if_splits)
  from assms Some show ?thesis
    by (auto simp: frontier_upsert_def Let_def i is_active_def split: if_splits)
next
  case None
  obtain b s1 where r: "reserve_entry s = (b, s1)" by fastforce
  then have m: "ns_map s1 = ns_map s" by (simp add: reserve_entry_cases)
  with None have "lookup s1 k = None" by simp
  from active_insert_new [OF this] active_map [OF m] assms r None show ?thesis
    by (cases b) (auto simp: frontier_upsert_def is_active_def node_entry_new_def split: if_splits)
qed


subsection \<open>Workers\<close>

text \<open>What follows a finished address: the next turn, or the closing of the queues and then the next
  turn or the end of the worker.\<close>

datatype after = GoOn | CloseGoOn | CloseExit

text \<open>
  The program counter of a worker. The comment names the next access.
\<close>

datatype pc =
  AtLoop                                              \<comment> \<open>load \<open>shutdown\<close>\<close>
| AtRecv                                              \<comment> \<open>\<open>rx.recv\<close>\<close>
| Got addr_key                                        \<comment> \<open>\<open>reserve_node_slot\<close>\<close>
| Slot addr_key                                       \<comment> \<open>state becomes \<open>Processing\<close>\<close>
| Started addr_key                                    \<comment> \<open>the attempt counter of \<open>process\<close>\<close>
| Busy addr_key u32                                   \<comment> \<open>connect, handshake, getaddr\<close>
| Counting addr_key u32 addr_key                      \<comment> \<open>\<open>incr_outstanding\<close> in \<open>enqueue\<close>\<close>
| Sending addr_key u32 addr_key                       \<comment> \<open>\<open>try_send\<close> in \<open>enqueue\<close>\<close>
| Refused addr_key u32 addr_key                       \<comment> \<open>state becomes \<open>BudgetDiscarded\<close>\<close>
| Uncounting addr_key u32                             \<comment> \<open>\<open>decr_outstanding\<close> in \<open>enqueue\<close>\<close>
| Requeueing addr_key node_state "fail_kind option"   \<comment> \<open>\<open>try_send\<close> in \<open>requeue\<close>\<close>
| Finishing addr_key node_state "fail_kind option" after  \<comment> \<open>\<open>with_entry\<close> in \<open>finish\<close>\<close>
| Finished after                                      \<comment> \<open>\<open>decr_outstanding\<close> in \<open>finish\<close>\<close>
| LastDone after                                      \<comment> \<open>\<open>close_all\<close> in \<open>finish\<close>\<close>
| Closing bool                                        \<comment> \<open>\<open>close_all\<close> of the worker, which then exits or not\<close>
| Exited

fun after_pc :: "after \<Rightarrow> pc" where
  "after_pc GoOn = AtLoop"
| "after_pc CloseGoOn = Closing False"
| "after_pc CloseExit = Closing True"

text \<open>How \<open>process\<close> may end for an entry: the verdict and what it says of the entry.\<close>

fun verdict_ok :: "node_state \<Rightarrow> node_entry \<Rightarrow> bool" where
  "verdict_ok Reachable e \<longleftrightarrow> ne_handshake e \<noteq> None"
| "verdict_ok HandshakeFailed e \<longleftrightarrow> True"
| "verdict_ok Unreachable e \<longleftrightarrow> time_connect_ms (ne_stats e) = None"
| "verdict_ok _ e \<longleftrightarrow> False"

definition entry_of :: "crawler \<Rightarrow> addr_key \<Rightarrow> node_entry option" where
  "entry_of c k = lookup (cw_store c) k"

definition verdict :: "crawler \<Rightarrow> addr_key \<Rightarrow> node_state \<Rightarrow> bool" where
  "verdict c k terminal \<longleftrightarrow> (case entry_of c k of Some e \<Rightarrow> verdict_ok terminal e | None \<Rightarrow> False)"

text \<open>
  A local access changes nothing of its entry that other workers or the queues look at, and
  nothing of the crawler but the SAM session, the log and the output flag.
\<close>

definition entry_local :: "(node_entry \<Rightarrow> node_entry) \<Rightarrow> bool" where
  "entry_local f \<longleftrightarrow>
     (\<forall>e. ne_state (f e) = ne_state e \<and> ne_network (f e) = ne_network e \<and>
          freshest_ts (f e) = freshest_ts e \<and> ne_failure (f e) = ne_failure e \<and>
          handshake_attempts (ne_stats (f e)) = handshake_attempts (ne_stats e))"

definition side_update :: "sam_session option \<Rightarrow> addr_log option \<Rightarrow> bool \<Rightarrow> crawler \<Rightarrow> crawler" where
  "side_update sam log out c =
     c\<lparr>cw_sam := sam, cw_addr_log := log, cw_output_failed := cw_output_failed c \<or> out\<rparr>"

inductive wstep ::
  "crates \<Rightarrow> settings \<Rightarrow> transport \<Rightarrow> crawler \<times> pc \<Rightarrow> crawler \<times> pc \<Rightarrow> bool"
  for cr :: crates and st :: settings and t :: transport where
  loop_exit: "cw_shutdown c \<Longrightarrow> wstep cr st t (c, AtLoop) (c, Exited)"
| loop_recv: "\<not> cw_shutdown c \<Longrightarrow> wstep cr st t (c, AtLoop) (c, AtRecv)"
| recv_got: "queue_recv (queue_of t (cw_queues c)) = (Received k, q) \<Longrightarrow>
    wstep cr st t (c, AtRecv) (c\<lparr>cw_queues := set_queue t q (cw_queues c)\<rparr>, Got k)"
| recv_closed: "queue_recv (queue_of t (cw_queues c)) = (QueueClosed, q) \<Longrightarrow>
    wstep cr st t (c, AtRecv) (c, Exited)"
| slot_free: "reserve_node_slot st c = (True, c') \<Longrightarrow> wstep cr st t (c, Got k) (c', Slot k)"
| slot_none: "reserve_node_slot st c = (False, c') \<Longrightarrow>
    wstep cr st t (c, Got k) (c', Finishing k BudgetDiscarded None CloseGoOn)"
| begin_node: "wstep cr st t (c, Slot k) (on_entry k (set_state Processing) c, Started k)"
| begin_attempt: "start_attempt k c = (n, c') \<Longrightarrow> wstep cr st t (c, Started k) (c', Busy k n)"
| local_entry: "entry_local f \<Longrightarrow> wstep cr st t (c, Busy k n) (on_entry k f c, Busy k n)"
| local_side: "wstep cr st t (c, Busy k n) (side_update sam log out c, Busy k n)"
| frontier_known: "frontier_upsert a ts net (st_freshness_threshold st) now (cw_store c) = (out, s) \<Longrightarrow>
    is_enabled st net \<Longrightarrow> out \<noteq> Enqueue \<Longrightarrow>
    wstep cr st t (c, Busy k n) (c\<lparr>cw_store := s\<rparr>, Busy k n)"
| frontier_new: "frontier_upsert a ts net (st_freshness_threshold st) now (cw_store c) = (Enqueue, s) \<Longrightarrow>
    is_enabled st net \<Longrightarrow>
    wstep cr st t (c, Busy k n) (c\<lparr>cw_store := s\<rparr>, Counting k n a)"
| count_work: "wstep cr st t (c, Counting k n a)
    (c\<lparr>cw_store := incr_outstanding (cw_store c)\<rparr>, Sending k n a)"
| send_taken: "send_key (network_transport (key_network cr c a)) a c = (True, c') \<Longrightarrow>
    wstep cr st t (c, Sending k n a) (c', Busy k n)"
| send_refused: "send_key (network_transport (key_network cr c a)) a c = (False, c') \<Longrightarrow>
    wstep cr st t (c, Sending k n a) (c', Refused k n a)"
| discard_key: "wstep cr st t (c, Refused k n a) (on_entry a (set_state BudgetDiscarded) c, Uncounting k n)"
| uncount: "wstep cr st t (c, Uncounting k n)
    (c\<lparr>cw_store := snd (decr_outstanding (cw_store c))\<rparr>, Busy k n)"
| retry: "n < ns_handshake_attempts (st_node_settings st) \<Longrightarrow> terminal \<noteq> Reachable \<Longrightarrow>
    verdict c k terminal \<Longrightarrow>
    wstep cr st t (c, Busy k n) (on_entry k (set_state Queued) c, Requeueing k terminal reason)"
| requeue_taken: "send_key t k c = (True, c') \<Longrightarrow>
    wstep cr st t (c, Requeueing k terminal reason) (c', AtLoop)"
| requeue_refused: "send_key t k c = (False, c') \<Longrightarrow>
    wstep cr st t (c, Requeueing k terminal reason) (c', Finishing k terminal reason GoOn)"
| give_verdict: "verdict c k terminal \<Longrightarrow>
    wstep cr st t (c, Busy k n) (c, Finishing k terminal reason GoOn)"
| panic: "wstep cr st t (c, Busy k n) (c\<lparr>cw_worker_failed := True, cw_shutdown := True\<rparr>,
      Finishing k HandshakeFailed (Some WorkerFailed) CloseExit)"
| finish_active: "with_entry k (finish_entry terminal reason) (cw_store c) = (Some True, s) \<Longrightarrow>
    wstep cr st t (c, Finishing k terminal reason a) (c\<lparr>cw_store := s\<rparr>, Finished a)"
| finish_passive: "with_entry k (finish_entry terminal reason) (cw_store c) = (r, s) \<Longrightarrow> r \<noteq> Some True \<Longrightarrow>
    wstep cr st t (c, Finishing k terminal reason a) (c\<lparr>cw_store := s\<rparr>, after_pc a)"
| finish_count: "decr_outstanding (cw_store c) = (prior, s) \<Longrightarrow>
    wstep cr st t (c, Finished a)
      (c\<lparr>cw_store := s\<rparr>, if prior = 1 then LastDone a else after_pc a)"
| finish_last: "wstep cr st t (c, LastDone a) (close_queues c, after_pc a)"
| close_work: "wstep cr st t (c, Closing ends) (close_queues c, if ends then Exited else AtLoop)"

text \<open>A step of the crawl: one worker, the two parts of Ctrl+C, or the flush of the log by a checkpoint.\<close>

inductive crawl_step ::
  "crates \<Rightarrow> settings \<Rightarrow> crawler \<times> (transport \<times> pc) list \<Rightarrow> crawler \<times> (transport \<times> pc) list \<Rightarrow> bool"
  for cr :: crates and st :: settings where
  worker_step: "i < length ws \<Longrightarrow> ws ! i = (t, p) \<Longrightarrow> wstep cr st t (c, p) (c', p') \<Longrightarrow>
    crawl_step cr st (c, ws) (c', ws[i := (t, p')])"
| signal_flag: "crawl_step cr st (c, ws) (c\<lparr>cw_shutdown := True\<rparr>, ws)"
| signal_close: "cw_shutdown c \<Longrightarrow> crawl_step cr st (c, ws) (close_queues c, ws)"
| checkpoint_flush: "crawl_step cr st (c, ws) (side_update (cw_sam c) log failed c, ws)"

text \<open>The initial addresses: an observed seed that is new is queued (\<open>seed_from_dns\<close> of src/main.rs).\<close>

definition seed_key :: "crates \<Rightarrow> int \<Rightarrow> addr_key \<Rightarrow> crawler \<Rightarrow> crawler" where
  "seed_key cr now key c =
     (case observe_seed cr key now (cw_store c) of
        (newly_queued, s) \<Rightarrow>
          let c = c\<lparr>cw_store := s\<rparr> in if newly_queued then enqueue_seed cr key c else c)"

inductive seeded :: "crates \<Rightarrow> settings \<Rightarrow> crawler \<Rightarrow> bool" for cr :: crates and st :: settings where
  seed_none: "seeded cr st (crawler_new (with_limit (st_max_addresses st)) st log)"
| seed_one: "seeded cr st c \<Longrightarrow> is_enabled st (classify cr (ak_host key)) \<Longrightarrow>
    seeded cr st (seed_key cr now key c)"

text \<open>One worker per unit of concurrency, all at the head of their loop.\<close>

definition spawn_workers :: "settings \<Rightarrow> (transport \<times> pc) list" where
  "spawn_workers st =
     concat (map (\<lambda>t. replicate (unat (workers_for st t)) (t, AtLoop))
       [TransportIp, TransportTor, TransportI2p])"

inductive crawl_reach ::
  "crates \<Rightarrow> settings \<Rightarrow> crawler \<times> (transport \<times> pc) list \<Rightarrow> bool" for cr :: crates and st :: settings where
  reach_init: "seeded cr st c \<Longrightarrow> crawl_reach cr st (run_start c, spawn_workers st)"
| reach_step: "crawl_reach cr st x \<Longrightarrow> crawl_step cr st x y \<Longrightarrow> crawl_reach cr st y"

definition crawl_start :: "crates \<Rightarrow> settings \<Rightarrow> crawler \<times> (transport \<times> pc) list \<Rightarrow> bool" where
  "crawl_start cr st = (\<lambda>(c, ws). \<exists>c0. seeded cr st c0 \<and> c = run_start c0 \<and> ws = spawn_workers st)"

interpretation crawl_runs: run_system "crawl_start cr st" "crawl_step cr st" "crawl_reach cr st" for cr st
proof
  fix s s' P
  show "crawl_start cr st s \<Longrightarrow> crawl_reach cr st s"
    by (auto simp: crawl_start_def intro: reach_init)
  show "crawl_reach cr st s \<Longrightarrow> crawl_step cr st s s' \<Longrightarrow> crawl_reach cr st s'" by (rule reach_step)
  show "P s" if "crawl_reach cr st s" "\<And>s. crawl_start cr st s \<Longrightarrow> P s"
    "\<And>s s'. crawl_reach cr st s \<Longrightarrow> P s \<Longrightarrow> crawl_step cr st s s' \<Longrightarrow> P s'"
    using that(1)
  proof induction
    case (reach_init c)
    then show ?case by (intro that(2)) (auto simp: crawl_start_def)
  next
    case (reach_step x y)
    then show ?case by (intro that(3) [of x y])
  qed
qed


subsection \<open>Where the work is\<close>

text \<open>The addresses a worker holds, and what it has done to \<open>outstanding\<close> ahead of or behind the states.\<close>

fun held :: "pc \<Rightarrow> addr_key multiset" where
  "held (Got k) = {#k#}"
| "held (Slot k) = {#k#}"
| "held (Started k) = {#k#}"
| "held (Busy k n) = {#k#}"
| "held (Counting k n a) = {#k, a#}"
| "held (Sending k n a) = {#k, a#}"
| "held (Refused k n a) = {#k, a#}"
| "held (Uncounting k n) = {#k#}"
| "held (Requeueing k terminal reason) = {#k#}"
| "held (Finishing k terminal reason a) = {#k#}"
| "held _ = {#}"

fun still_counted :: "pc \<Rightarrow> nat" where
  "still_counted (Uncounting k n) = 1"
| "still_counted (Finished a) = 1"
| "still_counted _ = 0"

fun not_yet_counted :: "pc \<Rightarrow> nat" where
  "not_yet_counted (Counting k n a) = 1"
| "not_yet_counted _ = 0"

definition over_workers :: "(pc \<Rightarrow> 'a::comm_monoid_add) \<Rightarrow> (transport \<times> pc) list \<Rightarrow> 'a" where
  "over_workers g ws = (\<Sum>(t, p)\<leftarrow>ws. g p)"

lemma over_workers_update:
  "i < length ws \<Longrightarrow> ws ! i = (t, p) \<Longrightarrow>
     over_workers g (ws[i := (t, p')]) + g p = over_workers g ws + g p'"
proof (induction ws arbitrary: i)
  case Nil
  then show ?case by simp
next
  case (Cons w ws)
  show ?case
  proof (cases i)
    case 0
    with Cons.prems show ?thesis by (simp add: over_workers_def ac_simps)
  next
    case (Suc j)
    with Cons.prems have "over_workers g (ws[j := (t, p')]) + g p = over_workers g ws + g p'"
      by (intro Cons.IH) simp_all
    with Suc show ?thesis by (cases w) (simp add: over_workers_def ac_simps)
  qed
qed

lemma over_workers_member:
  "(t, p) \<in> set ws \<Longrightarrow> \<exists>r. over_workers g ws = g p + r"
proof (induction ws)
  case Nil
  then show ?case by simp
next
  case (Cons w ws)
  show ?case
  proof (cases "(t, p) = w")
    case True
    then show ?thesis by (auto simp: over_workers_def)
  next
    case False
    with Cons obtain r where "over_workers g ws = g p + r" by auto
    then have "over_workers g (w # ws) = g p + (g (snd w) + r)"
      by (simp add: over_workers_def split_beta ac_simps)
    then show ?thesis by blast
  qed
qed

lemma over_workers_le:
  fixes g :: "pc \<Rightarrow> nat"
  shows "(\<And>p. g p \<le> h p) \<Longrightarrow> over_workers g ws \<le> over_workers h ws"
  by (induction ws) (auto simp: over_workers_def add_mono)

lemma over_workers_const: "over_workers (\<lambda>_. 1 :: nat) ws = length ws"
  by (induction ws) (auto simp: over_workers_def)

lemma size_over_workers:
  fixes g :: "pc \<Rightarrow> 'b multiset"
  shows "size (over_workers g ws) = over_workers (\<lambda>p. size (g p)) ws"
  by (induction ws) (auto simp: over_workers_def)

lemma mset_queued_update:
  "mset (queued (set_queue t q qs)) + mset (q_items (queue_of t qs)) = mset (queued qs) + mset (q_items q)"
  by (cases t) (simp_all add: queued_def)

lemma queued_close_all [simp]: "queued (close_all qs) = queued qs"
  by (simp add: queued_def close_all_def queue_close_def)

lemma on_entry_fields [simp]:
  "cw_store (on_entry k f c) = update_entry k f (cw_store c)"
  "cw_queues (on_entry k f c) = cw_queues c"
  "cw_num_processed (on_entry k f c) = cw_num_processed c"
  "cw_shutdown (on_entry k f c) = cw_shutdown c"
  "cw_node_limit_reached (on_entry k f c) = cw_node_limit_reached c"
  "cw_worker_failed (on_entry k f c) = cw_worker_failed c"
  by (simp_all add: on_entry_def)

lemma side_update_fields [simp]:
  "cw_store (side_update sam log out c) = cw_store c"
  "cw_queues (side_update sam log out c) = cw_queues c"
  "cw_num_processed (side_update sam log out c) = cw_num_processed c"
  "cw_shutdown (side_update sam log out c) = cw_shutdown c"
  "cw_node_limit_reached (side_update sam log out c) = cw_node_limit_reached c"
  "cw_worker_failed (side_update sam log out c) = cw_worker_failed c"
  by (simp_all add: side_update_def)

lemma close_queues_fields [simp]:
  "cw_store (close_queues c) = cw_store c"
  "cw_queues (close_queues c) = close_all (cw_queues c)"
  "cw_num_processed (close_queues c) = cw_num_processed c"
  "cw_shutdown (close_queues c) = cw_shutdown c"
  "cw_node_limit_reached (close_queues c) = cw_node_limit_reached c"
  "cw_worker_failed (close_queues c) = cw_worker_failed c"
  by (simp_all add: close_queues_def)

text \<open>The effect of \<open>start_attempt\<close> on the entry.\<close>

definition attempt_begun :: "node_entry \<Rightarrow> node_entry" where
  "attempt_begun e =
     (let n = handshake_attempts (ne_stats e) + 1
      in e\<lparr>ne_stats := (ne_stats e)\<lparr>handshake_attempts := n\<rparr>,
           ne_attempts := ne_attempts e @
             [\<lparr>at_attempt = n, at_connect_duration_ms = None, at_version_send_timestamp = None,
               at_outcome = ''started'', at_failure = None\<rparr>]\<rparr>)"

lemma attempt_begun_fields [simp]:
  "ne_state (attempt_begun e) = ne_state e" "ne_network (attempt_begun e) = ne_network e"
  "ne_handshake (attempt_begun e) = ne_handshake e" "freshest_ts (attempt_begun e) = freshest_ts e"
  "time_connect_ms (ne_stats (attempt_begun e)) = time_connect_ms (ne_stats e)"
  "handshake_attempts (ne_stats (attempt_begun e)) = handshake_attempts (ne_stats e) + 1"
  "is_active (attempt_begun e) = is_active e"
  by (simp_all add: attempt_begun_def Let_def is_active_def)

lemma start_attempt_eq:
  "start_attempt k c =
     (case lookup (cw_store c) k of Some e \<Rightarrow> handshake_attempts (ne_stats e) + 1 | None \<Rightarrow> 1,
      on_entry k attempt_begun c)"
  by (auto simp: start_attempt_def with_entry_def on_entry_def update_entry_eq attempt_begun_def Let_def
      split: option.splits)

lemma send_key_True:
  assumes "send_key t k c = (True, c')"
  shows "c' = c\<lparr>cw_queues := cw_queues c'\<rparr>" "\<not> q_closed (queue_of t (cw_queues c))"
    "queue_of u (cw_queues c') =
       (if u = t then (queue_of t (cw_queues c))\<lparr>q_items := q_items (queue_of t (cw_queues c)) @ [k]\<rparr>
        else queue_of u (cw_queues c))"
    "mset (queued (cw_queues c')) = add_mset k (mset (queued (cw_queues c)))"
proof -
  let ?q = "queue_of t (cw_queues c)"
  from assms have c': "c' = c\<lparr>cw_queues := set_queue t (?q\<lparr>q_items := q_items ?q @ [k]\<rparr>) (cw_queues c)\<rparr>"
    and op: "\<not> q_closed ?q"
    by (auto simp: send_key_def try_send_def split: if_splits)
  show "c' = c\<lparr>cw_queues := cw_queues c'\<rparr>" using c' by simp
  show "\<not> q_closed ?q" by (rule op)
  show "queue_of u (cw_queues c') = (if u = t then ?q\<lparr>q_items := q_items ?q @ [k]\<rparr> else queue_of u (cw_queues c))"
    using c' by simp
  show "mset (queued (cw_queues c')) = add_mset k (mset (queued (cw_queues c)))"
    using mset_queued_update [of t "?q\<lparr>q_items := q_items ?q @ [k]\<rparr>" "cw_queues c"] c' by simp
qed

lemma send_key_False:
  assumes "send_key t k c = (False, c')"
  shows "c' = c" "q_closed (queue_of t (cw_queues c)) \<or>
    length (q_items (queue_of t (cw_queues c))) \<ge> q_capacity (queue_of t (cw_queues c))"
  using assms by (auto simp: send_key_def try_send_def split: if_splits)

lemma recv_key:
  assumes "queue_recv (queue_of t (cw_queues c)) = (Received k, q)"
  shows "mset (queued (cw_queues c)) = add_mset k (mset (queued (set_queue t q (cw_queues c))))"
    "q_closed q = q_closed (queue_of t (cw_queues c))" "q_capacity q = q_capacity (queue_of t (cw_queues c))"
    "set (q_items q) \<subseteq> set (q_items (queue_of t (cw_queues c)))"
  using mset_queued_update [of t q "cw_queues c"] assms
  by (auto simp: queue_recv_def split: list.splits if_splits)

lemma finish_True:
  assumes "with_entry k (finish_entry terminal reason) s = (Some True, s')"
  obtains e where "lookup s k = Some e" "is_active e"
    "s' = update_entry k (\<lambda>e. e\<lparr>ne_state := terminal, ne_failure := reason\<rparr>) s"
proof -
  from assms obtain e where e: "lookup s k = Some e" and f: "fst (finish_entry terminal reason e)"
    by (auto simp: with_entry_def split: option.splits prod.splits)
  then have a: "is_active e" by (simp add: finish_entry_def split: if_splits)
  have "s' = update_entry k (\<lambda>e. e\<lparr>ne_state := terminal, ne_failure := reason\<rparr>) s"
    using assms e a by (simp add: with_entry_def finish_entry_def update_entry_eq)
  with e a that show thesis by blast
qed

lemma finish_False:
  assumes "with_entry k (finish_entry terminal reason) s = (r, s')" "r \<noteq> Some True" "lookup s k = Some e"
  shows "\<not> is_active e"
  using assms by (auto simp: with_entry_def finish_entry_def split: if_splits)


subsection \<open>The balance of work\<close>

fun terminal_ok :: "pc \<Rightarrow> bool" where
  "terminal_ok (Requeueing k terminal reason) \<longleftrightarrow> terminal \<notin> {Queued, Processing, StaleDiscarded}"
| "terminal_ok (Finishing k terminal reason a) \<longleftrightarrow> terminal \<notin> {Queued, Processing, StaleDiscarded}"
| "terminal_ok _ \<longleftrightarrow> True"

lemma terminal_after [simp]:
  "terminal_ok (after_pc a)" "held (after_pc a) = {#}" "still_counted (after_pc a) = 0"
  "not_yet_counted (after_pc a) = 0"
  by (cases a; simp)+

lemma verdict_terminal: "verdict c k terminal \<Longrightarrow> terminal \<notin> {Queued, Processing, StaleDiscarded}"
  by (cases terminal) (auto simp: verdict_def split: option.splits)

lemma verdict_entry: "verdict c k terminal \<longleftrightarrow> (\<exists>e. lookup (cw_store c) k = Some e \<and> verdict_ok terminal e)"
  by (auto simp: verdict_def entry_of_def split: option.splits)

lemma wstep_terminal: "wstep cr st t (c, p) (c', p') \<Longrightarrow> terminal_ok p \<Longrightarrow> terminal_ok p'"
  by (erule wstep.cases) (auto dest: verdict_terminal)

lemma unat_incr: "unat (w :: usize) < 2 ^ 64 - 1 \<Longrightarrow> unat (w + 1) = unat w + 1"
  by (simp add: unat_word_ariths)

lemma unat_decr: "0 < unat (w :: usize) \<Longrightarrow> unat (w - 1) = unat w - 1"
proof -
  assume "0 < unat w"
  then have "1 \<le> w" by (simp add: word_le_nat_alt)
  then show ?thesis by (simp add: unat_sub)
qed

text \<open>Taking an active entry to a state that is not active, or the other way round, on the multiset of active addresses.\<close>

lemma active_leave:
  assumes "store_ok s" "k \<in># active_keys s" "\<And>e. \<not> is_active (f e)"
  shows "active_keys s = add_mset k (active_keys (update_entry k f s))"
proof -
  from active_member [OF assms(2,1)] obtain e where "lookup s k = Some e" "is_active e" by blast
  with active_update [of s k e f] assms(3) show ?thesis by simp
qed

lemma active_stay:
  assumes "store_ok s" "k \<in># active_keys s" "\<And>e. is_active (f e)"
  shows "active_keys (update_entry k f s) = active_keys s"
proof -
  from active_member [OF assms(2,1)] obtain e where "lookup s k = Some e" "is_active e" by blast
  with active_update [of s k e f] assms(3) show ?thesis by simp
qed

lemma reserve_slot_fields:
  assumes "reserve_node_slot st c = (b, c')"
  shows "cw_store c' = cw_store c" "cw_queues c' = cw_queues c" "cw_shutdown c' = cw_shutdown c"
    "cw_node_limit_reached c' = (cw_node_limit_reached c \<or> \<not> b)"
    "cw_num_processed c' = (if b then cw_num_processed c + 1 else cw_num_processed c)"
  using assms by (auto simp: reserve_node_slot_def split: option.splits if_splits)

text \<open>What reserving a slot and recording an attempt do, for the cases of a step.\<close>

lemmas start_simps = reserve_slot_fields start_attempt_eq

text \<open>The steps from the places where a worker waits, ends, or has just decremented \<open>outstanding\<close>.\<close>

inductive_cases waiting_cases:
  "wstep cr st t (c, AtLoop) (c', p')"
  "wstep cr st t (c, AtRecv) (c', p')"

inductive_cases counting_cases: "wstep cr st t (c, Finished a) (c', p')"

inductive_simps exited_step: "wstep cr st t (c, Exited) x"

lemma entry_local_active: "entry_local f \<Longrightarrow> is_active (f e) = is_active e"
  by (simp add: entry_local_def is_active_def)

lemma wstep_active:
  assumes "wstep cr st t (c, p) (c', p')" "store_ok (cw_store c)" "terminal_ok p"
    and "held p \<subseteq># active_keys (cw_store c)"
  shows "mset (queued (cw_queues c')) + held p' + active_keys (cw_store c) =
    mset (queued (cw_queues c)) + held p + active_keys (cw_store c')"
  using assms(1)
proof (cases rule: wstep.cases)
  case (recv_got k q)
  then show ?thesis using recv_key(1) [OF recv_got(4)] by simp
next
  case (slot_free k)
  then show ?thesis by (simp add: reserve_slot_fields)
next
  case (slot_none k)
  then show ?thesis by (simp add: reserve_slot_fields)
next
  case (begin_node k)
  with assms active_stay [of "cw_store c" k "set_state Processing"] show ?thesis
    by (simp add: is_active_def set_state_def)
next
  case (begin_attempt k n)
  then have "c' = on_entry k attempt_begun c" by (simp add: start_attempt_eq)
  with begin_attempt active_update_same [of attempt_begun k "cw_store c"] show ?thesis by simp
next
  case (local_entry f k n)
  then show ?thesis
    using active_update_same [of f k "cw_store c"] entry_local_active [of f] by simp
next
  case (frontier_known a ts net now out s k n)
  then show ?thesis using active_frontier [of a ts net "st_freshness_threshold st" now] by simp
next
  case (frontier_new a ts net now s k n)
  then show ?thesis using active_frontier [of a ts net "st_freshness_threshold st" now] by simp
next
  case (count_work k n a)
  then show ?thesis by (simp add: active_map [of "incr_outstanding (cw_store c)"])
next
  case (send_taken a k n)
  then show ?thesis using send_key_True(1,4) [OF send_taken(3)]
    by (simp, metis (no_types, lifting) crawler.surjective crawler.update_convs(2) crawler.ext_inject)
next
  case (send_refused a k n)
  then show ?thesis using send_key_False(1) [OF send_refused(3)] by simp
next
  case (discard_key k n a)
  with assms have "a \<in># active_keys (cw_store c)" by (auto simp: insert_subset_eq_iff in_diffD)
  from active_leave [OF assms(2) this, of "set_state BudgetDiscarded"] discard_key show ?thesis
    by (simp add: is_active_def set_state_def)
next
  case (uncount k n)
  then show ?thesis by (simp add: active_map [of "snd (decr_outstanding (cw_store c))"])
next
  case (retry n terminal k reason)
  with assms active_stay [of "cw_store c" k "set_state Queued"] show ?thesis
    by (simp add: is_active_def set_state_def)
next
  case (requeue_taken k terminal reason)
  then show ?thesis using send_key_True(1,4) [OF requeue_taken(3)]
    by (simp, metis (no_types, lifting) crawler.surjective crawler.update_convs(2) crawler.ext_inject)
next
  case (requeue_refused k terminal reason)
  then show ?thesis using send_key_False(1) [OF requeue_refused(3)] by simp
next
  case (finish_active k terminal reason s a)
  have "\<not> is_active (e\<lparr>ne_state := terminal, ne_failure := reason\<rparr>)" for e
    using finish_active assms(3) by (simp add: is_active_def)
  moreover obtain e where "s = update_entry k (\<lambda>e. e\<lparr>ne_state := terminal, ne_failure := reason\<rparr>) (cw_store c)"
    by (rule finish_True [OF finish_active(4)])
  moreover have "k \<in># active_keys (cw_store c)" using finish_active assms by simp
  ultimately have "active_keys (cw_store c) = add_mset k (active_keys s)"
    using active_leave [OF assms(2), of k "\<lambda>e. e\<lparr>ne_state := terminal, ne_failure := reason\<rparr>"]
    by simp
  with finish_active show ?thesis by simp
next
  case (finish_passive k terminal reason r s a)
  then have "k \<in># active_keys (cw_store c)" using assms by simp
  from active_member [OF this assms(2)] finish_False [OF finish_passive(4,5)] show ?thesis by blast
next
  case (finish_count prior s a)
  then show ?thesis using active_map [of "snd (decr_outstanding (cw_store c))"]
    by (auto simp: decr_outstanding_def)
qed simp_all


lemma reserve_entry_outstanding: "ns_outstanding (snd (reserve_entry s)) = ns_outstanding s"
  by (simp add: reserve_entry_def)

lemma frontier_upsert_outstanding: "ns_outstanding (snd (frontier_upsert k ts net thr now s)) = ns_outstanding s"
  using reserve_entry_outstanding [of s]
  by (auto simp: frontier_upsert_def Let_def split: option.splits prod.splits bool.splits)

lemma finish_entry_outstanding:
  "with_entry k f s = (r, s') \<Longrightarrow> ns_outstanding s' = ns_outstanding s"
  by (metis snd_conv update_entry_fields(1) with_entry_snd)

lemma wstep_outstanding:
  assumes "wstep cr st t (c, p) (c', p')" "store_ok (cw_store c)"
    and "held p \<subseteq># active_keys (cw_store c)"
    and "unat (ns_outstanding (cw_store c)) < 2 ^ 64 - 1"
    and "still_counted p \<le> unat (ns_outstanding (cw_store c))"
  shows "unat (ns_outstanding (cw_store c')) + not_yet_counted p' +
      (still_counted p + length (queued (cw_queues c)) + size (held p)) =
    unat (ns_outstanding (cw_store c)) + not_yet_counted p +
      (still_counted p' + length (queued (cw_queues c')) + size (held p'))"
  using assms(1)
proof (cases rule: wstep.cases)
  case (recv_got k q)
  from arg_cong [OF recv_key(1) [OF recv_got(4)], of size] recv_got show ?thesis by simp
next
  case (slot_free k)
  then show ?thesis by (simp add: reserve_slot_fields)
next
  case (slot_none k)
  then show ?thesis by (simp add: reserve_slot_fields)
next
  case (begin_attempt k n)
  then have "c' = on_entry k attempt_begun c" by (simp add: start_attempt_eq)
  with begin_attempt show ?thesis by simp
next
  case (frontier_known a ts net now out s k n)
  then show ?thesis
    using frontier_upsert_outstanding [of a ts net "st_freshness_threshold st" now "cw_store c"] by simp
next
  case (frontier_new a ts net now s k n)
  then show ?thesis
    using frontier_upsert_outstanding [of a ts net "st_freshness_threshold st" now "cw_store c"] by simp
next
  case (count_work k n a)
  then show ?thesis using unat_incr [OF assms(4)] by (simp add: incr_outstanding_def)
next
  case (send_taken a k n)
  have "length (queued (cw_queues c')) = Suc (length (queued (cw_queues c)))"
    using arg_cong [OF send_key_True(4) [OF send_taken(3)], of size] by simp
  moreover have "cw_store c' = cw_store c"
    using arg_cong [OF send_key_True(1) [OF send_taken(3)], of cw_store] by simp
  ultimately show ?thesis using send_taken by simp
next
  case (send_refused a k n)
  then show ?thesis using send_key_False(1) [OF send_refused(3)] by simp
next
  case (uncount k n)
  then show ?thesis using assms(5) unat_decr [of "ns_outstanding (cw_store c)"]
    by (simp add: decr_outstanding_def)
next
  case (requeue_taken k terminal reason)
  have "length (queued (cw_queues c')) = Suc (length (queued (cw_queues c)))"
    using arg_cong [OF send_key_True(4) [OF requeue_taken(3)], of size] by simp
  moreover have "cw_store c' = cw_store c"
    using arg_cong [OF send_key_True(1) [OF requeue_taken(3)], of cw_store] by simp
  ultimately show ?thesis using requeue_taken by simp
next
  case (requeue_refused k terminal reason)
  then show ?thesis using send_key_False(1) [OF requeue_refused(3)] by simp
next
  case (finish_active k terminal reason s a)
  then show ?thesis using finish_entry_outstanding [OF finish_active(4)] by simp
next
  case (finish_passive k terminal reason r s a)
  then have "k \<in># active_keys (cw_store c)" using assms by simp
  from active_member [OF this assms(2)] finish_False [OF finish_passive(4,5)] show ?thesis by blast
next
  case (finish_count prior s a)
  then show ?thesis using assms(5) unat_decr [of "ns_outstanding (cw_store c)"]
    by (auto simp: decr_outstanding_def)
qed simp_all

text \<open>The size of the store, its budget and the queues' capacity.\<close>

lemma wstep_store_ok:
  assumes "wstep cr st t (c, p) (c', p')" "store_ok (cw_store c)"
  shows "store_ok (cw_store c') \<and> ns_max_entries (cw_store c') = ns_max_entries (cw_store c)"
proof -
  have m: "store_ok s' \<and> ns_max_entries s' = ns_max_entries (cw_store c)"
    if "with_entry k f (cw_store c) = (r, s')" for k r s' and f :: "node_entry \<Rightarrow> bool \<times> node_entry"
    using that store_ok_update [OF assms(2)] by (metis snd_conv update_entry_fields(3) with_entry_snd)
  have f: "store_ok s' \<and> ns_max_entries s' = ns_max_entries (cw_store c)"
    if "frontier_upsert a ts net thr now (cw_store c) = (out, s')" for a ts net thr now out s'
    using that store_ok_frontier_upsert [OF assms(2), of a ts net thr now]
      frontier_upsert_max [of a ts net thr now "cw_store c"] by simp
  have s: "cw_store c' = cw_store c" if "send_key u k c = (b, c')" for u k b c'
    using that send_key_True(1) [of u k c c'] send_key_False(1) [of u k c c'] by (cases b) (auto, metis crawler.select_convs(1) crawler.update_convs(2) crawler.surjective)
  have cnt: "store_ok (incr_outstanding (cw_store c))" "store_ok (snd (decr_outstanding (cw_store c)))"
    using assms(2) by (simp_all add: store_ok_def incr_outstanding_def decr_outstanding_def)
  from assms(1) show ?thesis
    by (cases rule: wstep.cases)
      (use assms(2) cnt in \<open>auto simp: store_ok_update start_simps s dest: m f
        simp: incr_outstanding_def decr_outstanding_def\<close>)
qed


lemma wstep_capacity:
  assumes "wstep cr st t (c, p) (c', p')"
  shows "q_capacity (queue_of u (cw_queues c')) = q_capacity (queue_of u (cw_queues c))"
proof -
  have s: "q_capacity (queue_of u (cw_queues c')) = q_capacity (queue_of u (cw_queues c))"
    if "send_key v k c = (b, c')" for v k b
    using that send_key_True(3) [of v k c c' u] send_key_False(1) [of v k c c'] by (cases b) auto
  have l: "q_capacity (queue_close q) = q_capacity q" for q :: "addr_key queue"
    by (simp add: queue_close_def)
  from assms show ?thesis
    by (cases rule: wstep.cases)
      (auto simp: start_simps s l dest: recv_key(3))
qed

text \<open>
  Every active address is in one place: in one queue, or held by one worker; \<open>outstanding\<close>
  counts the active addresses, up to what a worker has just done or is about to count.
\<close>

definition balanced :: "settings \<Rightarrow> crawler \<times> (transport \<times> pc) list \<Rightarrow> bool" where
  "balanced st = (\<lambda>(c, ws).
     store_ok (cw_store c) \<and> ns_max_entries (cw_store c) = st_max_addresses st \<and>
     (\<forall>u. q_capacity (queue_of u (cw_queues c)) = unat (st_max_addresses st)) \<and>
     map fst ws = map fst (spawn_workers st) \<and>
     (\<forall>(t, p) \<in> set ws. terminal_ok p) \<and>
     mset (queued (cw_queues c)) + over_workers held ws = active_keys (cw_store c) \<and>
     unat (ns_outstanding (cw_store c)) + over_workers not_yet_counted ws =
       size (active_keys (cw_store c)) + over_workers still_counted ws)"

text \<open>Settings the crawl can run with: accepted ones, with a budget far from the end of the word.\<close>

definition runnable :: "settings \<Rightarrow> bool" where
  "runnable st \<longleftrightarrow> settings_ok st \<and> st_max_addresses st \<le> 2 ^ 63"

lemma length_workers:
  assumes "settings_ok st"
  shows "length (spawn_workers st) \<le> 12288"
proof -
  have "unat (workers_for st t) \<le> 4096" for t
    using assms by (simp add: settings_ok_def word_le_nat_alt)
  from this [of TransportIp] this [of TransportTor] this [of TransportI2p] show ?thesis
    by (simp add: spawn_workers_def)
qed

lemma held_in_total: "(t, p) \<in> set ws \<Longrightarrow> held p \<subseteq># over_workers held ws"
  using over_workers_member [of t p ws held] by auto

lemma balanced_held:
  "balanced st (c, ws) \<Longrightarrow> (t, p) \<in> set ws \<Longrightarrow> held p \<subseteq># active_keys (cw_store c)"
proof -
  assume b: "balanced st (c, ws)" and m: "(t, p) \<in> set ws"
  from b have q: "mset (queued (cw_queues c)) + over_workers held ws = active_keys (cw_store c)"
    by (simp add: balanced_def)
  have "held p \<subseteq># mset (queued (cw_queues c)) + over_workers held ws"
    using held_in_total [OF m] by (meson mset_subset_eq_add_right subset_mset.order_trans)
  then show ?thesis by (simp only: q)
qed

lemma balanced_entries:
  "balanced st (c, ws) \<Longrightarrow> size (active_keys (cw_store c)) \<le> unat (st_max_addresses st)"
  using active_size [of "cw_store c"] by (auto simp: balanced_def store_ok_def word_le_nat_alt)

lemma not_yet_held: "2 * not_yet_counted p \<le> size (held p)"
  by (cases p) simp_all

lemma over_not_yet: "2 * over_workers not_yet_counted ws \<le> size (over_workers held ws)"
proof (induction ws)
  case Nil
  then show ?case by (simp add: over_workers_def)
next
  case (Cons w ws)
  then show ?case using not_yet_held [of "snd w"] by (cases w) (simp add: over_workers_def)
qed

lemma balanced_not_yet:
  assumes "balanced st (c, ws)"
  shows "2 * over_workers not_yet_counted ws \<le> size (active_keys (cw_store c))"
proof -
  from assms have "active_keys (cw_store c) = mset (queued (cw_queues c)) + over_workers held ws"
    by (simp add: balanced_def)
  then have "size (over_workers held ws) \<le> size (active_keys (cw_store c))" by simp
  with over_not_yet [of ws] show ?thesis by simp
qed

lemma balanced_outstanding:
  assumes "balanced st (c, ws)" "runnable st"
  shows "unat (ns_outstanding (cw_store c)) < 2 ^ 64 - 1"
    "over_workers still_counted ws \<le> unat (ns_outstanding (cw_store c))"
proof -
  have sc: "still_counted p \<le> 1" for p by (cases p) simp_all
  have "over_workers still_counted ws \<le> length ws"
    using over_workers_le [of still_counted "\<lambda>_. 1" ws, OF sc] by (simp only: over_workers_const)
  moreover have "length ws \<le> 12288"
    using assms length_workers [of st] by (auto simp: balanced_def runnable_def dest: map_eq_imp_length_eq)
  moreover have "unat (st_max_addresses st) \<le> 9223372036854775808"
    using assms(2) by (simp add: runnable_def word_le_nat_alt)
  moreover note balanced_entries [OF assms(1)] balanced_not_yet [OF assms(1)]
  moreover have "unat (ns_outstanding (cw_store c)) + over_workers not_yet_counted ws =
      size (active_keys (cw_store c)) + over_workers still_counted ws"
    using assms(1) by (simp add: balanced_def)
  ultimately have "unat (ns_outstanding (cw_store c)) < 18446744073709551615 \<and>
      over_workers still_counted ws \<le> unat (ns_outstanding (cw_store c))" by linarith
  then show "unat (ns_outstanding (cw_store c)) < 2 ^ 64 - 1"
    "over_workers still_counted ws \<le> unat (ns_outstanding (cw_store c))" by simp_all
qed

lemma balanced_worker_step:
  assumes b: "balanced st (c, ws)" and r: "runnable st"
    and i: "i < length ws" "ws ! i = (t, p)" and w: "wstep cr st t (c, p) (c', p')"
  shows "balanced st (c', ws[i := (t, p')])"
proof -
  have m: "(t, p) \<in> set ws" using i nth_mem by force
  have ok: "store_ok (cw_store c)" "terminal_ok p" using b m by (auto simp: balanced_def)
  note h = balanced_held [OF b m] and out = balanced_outstanding [OF b r]
  have sc: "still_counted p \<le> unat (ns_outstanding (cw_store c))"
    using out(2) over_workers_member [OF m, of still_counted] by auto
  note upd = over_workers_update [OF i, of _ p']
  have q: "mset (queued (cw_queues c)) + over_workers held ws = active_keys (cw_store c)"
    using b by (simp add: balanced_def)
  have n: "unat (ns_outstanding (cw_store c)) + over_workers not_yet_counted ws =
      size (active_keys (cw_store c)) + over_workers still_counted ws"
    using b by (simp add: balanced_def)
  note act = wstep_active [OF w ok h]
  have q': "mset (queued (cw_queues c')) + over_workers held (ws[i := (t, p')]) = active_keys (cw_store c')"
  proof -
    have "mset (queued (cw_queues c')) + over_workers held (ws[i := (t, p')]) + (held p + active_keys (cw_store c)) =
        (mset (queued (cw_queues c')) + held p' + active_keys (cw_store c)) + over_workers held ws"
      using upd [of held] by (simp add: ac_simps)
    also have "\<dots> = (mset (queued (cw_queues c)) + over_workers held ws) + held p + active_keys (cw_store c')"
      unfolding act by (simp add: ac_simps)
    also have "\<dots> = active_keys (cw_store c') + (held p + active_keys (cw_store c))"
      unfolding q by (simp add: ac_simps)
    finally show ?thesis by (simp only: add_right_cancel)
  qed
  have n': "unat (ns_outstanding (cw_store c')) + over_workers not_yet_counted (ws[i := (t, p')]) =
      size (active_keys (cw_store c')) + over_workers still_counted (ws[i := (t, p')])"
    using wstep_outstanding [OF w ok(1) h out(1) sc] upd [of not_yet_counted] upd [of still_counted] n
      arg_cong [OF act, of size] by simp
  have f: "map fst (ws[i := (t, p')]) = map fst ws"
    using i by (metis fst_conv list_update_id map_update nth_map)
  have "\<forall>(t, p) \<in> set (ws[i := (t, p')]). terminal_ok p"
    using b wstep_terminal [OF w ok(2)] set_update_subset_insert [of ws i "(t, p')"]
    by (auto simp: balanced_def)
  with q' n' f b wstep_store_ok [OF w ok(1)] wstep_capacity [OF w] show ?thesis
    by (simp add: balanced_def)
qed

lemma balanced_step:
  assumes "crawl_step cr st x y" "balanced st x" "runnable st"
  shows "balanced st y"
  using assms(1)
proof cases
  case (worker_step i ws t p c c' p')
  with balanced_worker_step [of st c ws i t p cr c' p'] assms show ?thesis by simp
qed (use assms in \<open>auto simp: balanced_def queue_close_def side_update_def\<close>)


subsection \<open>What the entries say\<close>

text \<open>
  An entry is of an enabled network, its attempts are within the limit, and its state agrees with what is
  recorded: an address waits only while it has attempts left, a reachable one has its handshake, an
  unreachable one never connected, a stale one was never tried.
\<close>

abbreviation attempts_of :: "node_entry \<Rightarrow> u32" where
  "attempts_of e \<equiv> handshake_attempts (ne_stats e)"

abbreviation max_attempts :: "settings \<Rightarrow> u32" where
  "max_attempts st \<equiv> ns_handshake_attempts (st_node_settings st)"

definition entry_ok :: "settings \<Rightarrow> node_entry \<Rightarrow> bool" where
  "entry_ok st e \<longleftrightarrow>
     is_enabled st (ne_network e) \<and> attempts_of e \<le> max_attempts st \<and>
     (ne_state e = Queued \<longrightarrow> attempts_of e < max_attempts st) \<and>
     (ne_state e = Reachable \<longrightarrow> ne_handshake e \<noteq> None) \<and>
     (ne_state e = Unreachable \<longrightarrow> time_connect_ms (ne_stats e) = None) \<and>
     (ne_state e = StaleDiscarded \<longrightarrow> attempts_of e = 0)"

definition entries_ok :: "settings \<Rightarrow> crawler \<Rightarrow> bool" where
  "entries_ok st c \<longleftrightarrow> (\<forall>k e. lookup (cw_store c) k = Some e \<longrightarrow> entry_ok st e)"

text \<open>What a worker knows of an entry at an address it holds.\<close>

fun knows :: "settings \<Rightarrow> pc \<Rightarrow> addr_key \<Rightarrow> node_entry \<Rightarrow> bool" where
  "knows st (Got k) x e \<longleftrightarrow> ne_state e = Queued"
| "knows st (Slot k) x e \<longleftrightarrow> ne_state e = Queued"
| "knows st (Started k) x e \<longleftrightarrow> ne_state e = Processing \<and> attempts_of e < max_attempts st"
| "knows st (Busy k n) x e \<longleftrightarrow> ne_state e = Processing \<and> attempts_of e = n"
| "knows st (Counting k n a) x e \<longleftrightarrow>
     (if x = a then ne_state e = Queued else ne_state e = Processing \<and> attempts_of e = n)"
| "knows st (Sending k n a) x e \<longleftrightarrow>
     (if x = a then ne_state e = Queued else ne_state e = Processing \<and> attempts_of e = n)"
| "knows st (Refused k n a) x e \<longleftrightarrow>
     (if x = a then ne_state e = Queued else ne_state e = Processing \<and> attempts_of e = n)"
| "knows st (Uncounting k n) x e \<longleftrightarrow> ne_state e = Processing \<and> attempts_of e = n"
| "knows st (Requeueing k terminal reason) x e \<longleftrightarrow>
     ne_state e = Queued \<and> attempts_of e < max_attempts st \<and> verdict_ok terminal e"
| "knows st (Finishing k terminal reason a) x e \<longleftrightarrow> terminal = BudgetDiscarded \<or> verdict_ok terminal e"
| "knows st p x e \<longleftrightarrow> True"

definition informed :: "settings \<Rightarrow> crawler \<Rightarrow> pc \<Rightarrow> bool" where
  "informed st c p \<longleftrightarrow> (\<forall>k \<in># held p. \<forall>e. lookup (cw_store c) k = Some e \<longrightarrow> knows st p k e)"

text \<open>A later observation of an address changes nothing that a worker knows of it.\<close>

lemma verdict_ok_cong:
  "ne_handshake e' = ne_handshake e \<Longrightarrow> time_connect_ms (ne_stats e') = time_connect_ms (ne_stats e) \<Longrightarrow>
     verdict_ok v e' = verdict_ok v e"
  by (cases v) simp_all

lemma knows_freshest [simp]: "knows st p k (e\<lparr>freshest_ts := ts\<rparr>) = knows st p k e"
  by (cases p) (simp_all add: verdict_ok_cong [of "e\<lparr>freshest_ts := ts\<rparr>" e])

lemma entry_ok_freshest [simp]: "entry_ok st (e\<lparr>freshest_ts := ts\<rparr>) = entry_ok st e"
  by (simp add: entry_ok_def)

lemma update_entry_lookup: "lookup (update_entry k f s) k' = (if k' = k then map_option f (lookup s k) else lookup s k')"
  by (rule es.get_upd)

text \<open>The effect of an observation, entry by entry.\<close>

lemma frontier_entries:
  assumes "frontier_upsert a ts net thr now s = (out, s')"
  shows "a' \<noteq> a \<Longrightarrow> lookup s' a' = lookup s a'"
    and "lookup s a = Some e \<Longrightarrow> out \<noteq> Enqueue \<Longrightarrow> \<exists>ts'. lookup s' a = Some (e\<lparr>freshest_ts := ts'\<rparr>)"
    and "lookup s a = Some e \<Longrightarrow> out = Enqueue \<Longrightarrow>
      ne_state e = StaleDiscarded \<and> (\<exists>ts'. lookup s' a = Some (e\<lparr>freshest_ts := ts', ne_state := Queued\<rparr>))"
    and "lookup s a = None \<Longrightarrow> lookup s' a = Some e' \<Longrightarrow>
      e' = node_entry_new net ts Queued \<or> e' = node_entry_new net ts StaleDiscarded"
proof -
  obtain b0 s0 where r0: "reserve_entry s = (b0, s0)" by fastforce
  show "a' \<noteq> a \<Longrightarrow> lookup s' a' = lookup s a'"
    using assms r0 reserve_entry_cases [OF r0]
    by (cases b0) (auto simp: frontier_upsert_def Let_def es.get_ins split: option.splits if_splits)
  show "lookup s a = Some e \<Longrightarrow> out \<noteq> Enqueue \<Longrightarrow> \<exists>ts'. lookup s' a = Some (e\<lparr>freshest_ts := ts'\<rparr>)"
    using assms by (auto simp: frontier_upsert_def Let_def es.get_ins split: if_splits)
  show "lookup s a = Some e \<Longrightarrow> out = Enqueue \<Longrightarrow>
      ne_state e = StaleDiscarded \<and> (\<exists>ts'. lookup s' a = Some (e\<lparr>freshest_ts := ts', ne_state := Queued\<rparr>))"
    using assms by (auto simp: frontier_upsert_def Let_def es.get_ins split: if_splits)
  obtain b s1 where r: "reserve_entry s = (b, s1)" by fastforce
  show "lookup s a = None \<Longrightarrow> lookup s' a = Some e' \<Longrightarrow>
      e' = node_entry_new net ts Queued \<or> e' = node_entry_new net ts StaleDiscarded"
    using assms r reserve_entry_cases [OF r]
    by (cases b) (auto simp: frontier_upsert_def es.get_ins split: if_splits)
qed


text \<open>Waiting addresses are in state \<open>Queued\<close>.\<close>

definition queue_waits :: "crawler \<Rightarrow> bool" where
  "queue_waits c \<longleftrightarrow>
     (\<forall>k \<in> set (queued (cw_queues c)). \<forall>e. lookup (cw_store c) k = Some e \<longrightarrow> ne_state e = Queued)"

text \<open>What a step of a worker does to the entries: those of the addresses it holds are as it knows
  them; an active one of anybody else is at most observed again.\<close>

definition others_keep :: "crawler \<Rightarrow> pc \<Rightarrow> crawler \<Rightarrow> bool" where
  "others_keep c p c' \<longleftrightarrow>
     (\<forall>k e. lookup (cw_store c) k = Some e \<longrightarrow> is_active e \<longrightarrow> k \<notin># held p \<longrightarrow>
        (\<exists>ts. lookup (cw_store c') k = Some (e\<lparr>freshest_ts := ts\<rparr>)))"

lemma keep_same: "\<exists>ts. Some e = Some (e\<lparr>freshest_ts := ts\<rparr>)"
  by (rule exI [of _ "freshest_ts e"]) simp

lemma others_keep_update:
  "ns_map (cw_store c') = ns_map (update_entry k f (cw_store c)) \<Longrightarrow> k \<in># held p \<Longrightarrow> others_keep c p c'"
  using keep_same by (auto simp: others_keep_def update_entry_lookup)

lemma others_keep_same: "ns_map (cw_store c') = ns_map (cw_store c) \<Longrightarrow> others_keep c p c'"
  using keep_same by (auto simp: others_keep_def)

lemma others_keep_frontier:
  assumes "frontier_upsert a ts net thr now (cw_store c) = (out, s)"
  shows "others_keep c p (c\<lparr>cw_store := s\<rparr>)"
  unfolding others_keep_def
proof (intro allI impI)
  fix k e
  assume k: "lookup (cw_store c) k = Some e" "is_active e"
  show "\<exists>ts. lookup (cw_store (c\<lparr>cw_store := s\<rparr>)) k = Some (e\<lparr>freshest_ts := ts\<rparr>)"
  proof (cases "k = a")
    case False
    then show ?thesis using frontier_entries(1) [OF assms] k keep_same [of e] by simp
  next
    case True
    with k have "lookup (cw_store c) a = Some e" "ne_state e \<noteq> StaleDiscarded" by (auto simp: is_active_def)
    then show ?thesis using frontier_entries(2,3) [OF assms] True by fastforce
  qed
qed

lemma send_key_store: "send_key u k c = (b, c') \<Longrightarrow> cw_store c' = cw_store c"
  by (auto simp: send_key_def split: prod.splits)

lemma with_finish_map:
  "with_entry k (finish_entry terminal reason) s = (r, s') \<Longrightarrow>
     s' = update_entry k (\<lambda>e. snd (finish_entry terminal reason e)) s"
  by (metis snd_conv with_entry_snd)

lemma wstep_others:
  assumes "wstep cr st t (c, p) (c', p')"
  shows "others_keep c p c'"
  using assms
  by (cases rule: wstep.cases)
    (auto simp: start_attempt_eq reserve_slot_fields send_key_store incr_outstanding_def decr_outstanding_def
      dest!: with_finish_map
      intro: others_keep_frontier others_keep_same others_keep_update)


lemma entries_ok_update:
  assumes "entries_ok st c" "cw_store c' = update_entry k f (cw_store c)"
    "\<And>e. lookup (cw_store c) k = Some e \<Longrightarrow> entry_ok st e \<Longrightarrow> entry_ok st (f e)"
  shows "entries_ok st c'"
  using assms unfolding entries_ok_def by (auto simp: update_entry_lookup split: if_splits)

lemma entries_ok_map: "entries_ok st c \<Longrightarrow> ns_map (cw_store c') = ns_map (cw_store c) \<Longrightarrow> entries_ok st c'"
  by (simp add: entries_ok_def)

lemma entries_ok_frontier:
  assumes "entries_ok st c" "is_enabled st net" "settings_ok st"
    and f: "frontier_upsert a ts net thr now (cw_store c) = (out, s)"
  shows "entries_ok st (c\<lparr>cw_store := s\<rparr>)"
  unfolding entries_ok_def
proof (intro allI impI)
  fix k e
  assume k: "lookup (cw_store (c\<lparr>cw_store := s\<rparr>)) k = Some e"
  have pos: "0 < max_attempts st" using assms(3) by (simp add: settings_ok_def)
  show "entry_ok st e"
  proof (cases "k = a")
    case False
    with k frontier_entries(1) [OF f] assms(1) show ?thesis by (auto simp: entries_ok_def)
  next
    case True
    show ?thesis
    proof (cases "lookup (cw_store c) a")
      case None
      with k True frontier_entries(4) [OF f] assms(2) pos show ?thesis
        by (auto simp: entry_ok_def node_entry_new_def stats_default_def)
    next
      case (Some e0)
      with assms(1) have ok: "entry_ok st e0" by (auto simp: entries_ok_def)
      show ?thesis
      proof (cases "out = Enqueue")
        case True
        with k \<open>k = a\<close> Some frontier_entries(3) [OF f] ok pos show ?thesis
          by (fastforce simp: entry_ok_def)
      next
        case False
        with k \<open>k = a\<close> Some frontier_entries(2) [OF f] ok show ?thesis by fastforce
      qed
    qed
  qed
qed

lemma informedD:
  "informed st c p \<Longrightarrow> k \<in># held p \<Longrightarrow> lookup (cw_store c) k = Some e \<Longrightarrow> knows st p k e"
  by (simp add: informed_def)

lemma entry_ok_local: "entry_local f \<Longrightarrow> ne_state e = Processing \<Longrightarrow> entry_ok st e \<Longrightarrow> entry_ok st (f e)"
  by (simp add: entry_ok_def entry_local_def)

lemma entry_ok_finish:
  assumes "entry_ok st e" "terminal = BudgetDiscarded \<or> verdict_ok terminal e"
  shows "entry_ok st (snd (finish_entry terminal reason e))"
  using assms by (cases terminal) (auto simp: finish_entry_def entry_ok_def)

lemma entry_ok_begun:
  "entry_ok st e \<Longrightarrow> ne_state e = Processing \<Longrightarrow> attempts_of e < max_attempts st \<Longrightarrow> entry_ok st (attempt_begun e)"
  by (simp add: entry_ok_def inc_le)

lemma wstep_entries:
  assumes w: "wstep cr st t (c, p) (c', p')" and e: "entries_ok st c" and i: "informed st c p"
    and s: "settings_ok st"
  shows "entries_ok st c'"
  using w
proof (cases rule: wstep.cases)
  case (begin_node k)
  then show ?thesis
    by (intro entries_ok_update [OF e, where k = k and f = "set_state Processing"])
      (auto simp: entry_ok_def set_state_def)
next
  case (begin_attempt k n)
  then show ?thesis
    using informedD [OF i]
    by (intro entries_ok_update [OF e, where k = k and f = attempt_begun])
      (auto simp: start_attempt_eq intro!: entry_ok_begun)
next
  case (local_entry f k n)
  have "entry_ok st (f x)" if "lookup (cw_store c) k = Some x" "entry_ok st x" for x
    using entry_ok_local [OF local_entry(4) _ that(2)] informedD [OF i _ that(1)] local_entry by simp
  with local_entry show ?thesis by (intro entries_ok_update [OF e, where k = k and f = f]) simp_all
next
  case (frontier_known a ts net now out s k n)
  then show ?thesis using entries_ok_frontier [OF e _ assms(4)] by blast
next
  case (frontier_new a ts net now s k n)
  then show ?thesis using entries_ok_frontier [OF e _ assms(4)] by blast
next
  case (discard_key k n a)
  then show ?thesis
    by (intro entries_ok_update [OF e, where k = a and f = "set_state BudgetDiscarded"])
      (auto simp: entry_ok_def set_state_def)
next
  case (retry n terminal k reason)
  then show ?thesis
    using informedD [OF i]
    by (intro entries_ok_update [OF e, where k = k and f = "set_state Queued"])
      (auto simp: entry_ok_def set_state_def)
next
  case (finish_active k terminal reason s a)
  then show ?thesis
    using informedD [OF i] with_finish_map [OF finish_active(4)]
    by (intro entries_ok_update [OF e, where k = k and f = "\<lambda>e. snd (finish_entry terminal reason e)"])
      (auto intro!: entry_ok_finish)
next
  case (finish_passive k terminal reason r s a)
  then show ?thesis
    using informedD [OF i] with_finish_map [OF finish_passive(4)]
    by (intro entries_ok_update [OF e, where k = k and f = "\<lambda>e. snd (finish_entry terminal reason e)"])
      (auto intro!: entry_ok_finish)
qed (auto simp: reserve_slot_fields send_key_store incr_outstanding_def decr_outstanding_def
    intro!: entries_ok_map [OF e])


text \<open>The addresses of the queues and of one worker are all different.\<close>

definition apart :: "crawler \<Rightarrow> pc \<Rightarrow> bool" where
  "apart c p \<longleftrightarrow>
     (\<forall>k. count (mset (queued (cw_queues c)) + held p) k \<le> 1) \<and>
     set_mset (held p) \<union> set (queued (cw_queues c)) \<subseteq> set_mset (active_keys (cw_store c))"

lemma apart_two: "apart c p \<Longrightarrow> held p = {#k, a#} \<Longrightarrow> k \<noteq> a"
  unfolding apart_def by (auto dest: spec [of _ a])

lemma apart_queue:
  assumes "apart c p" "k \<in># held p"
  shows "k \<notin> set (queued (cw_queues c))"
proof
  assume "k \<in> set (queued (cw_queues c))"
  then have "1 \<le> count (mset (queued (cw_queues c))) k" by (simp only: count_greater_eq_one_iff set_mset_mset)
  moreover have "1 \<le> count (held p) k" using assms(2) by (simp only: count_greater_eq_one_iff)
  moreover have "count (mset (queued (cw_queues c))) k + count (held p) k \<le> 1"
    using assms(1) unfolding apart_def count_union by blast
  ultimately show False by linarith
qed

lemma update_entry_Some:
  "lookup (update_entry a f s) k = Some e \<longleftrightarrow>
     (if k = a then \<exists>e0. lookup s k = Some e0 \<and> e = f e0 else lookup s k = Some e)"
  by (auto simp: update_entry_lookup)

lemma frontier_active:
  assumes "frontier_upsert a ts net thr now s = (out, s')" "lookup s k = Some e" "is_active e"
    "lookup s' k = Some e'"
  shows "\<exists>ts. e' = e\<lparr>freshest_ts := ts\<rparr>" "out = Enqueue \<longrightarrow> k \<noteq> a"
proof -
  show "out = Enqueue \<longrightarrow> k \<noteq> a"
    using frontier_entries(3) [OF assms(1)] assms(2,3) by (auto simp: is_active_def)
  then show "\<exists>ts. e' = e\<lparr>freshest_ts := ts\<rparr>"
    using frontier_entries(1,2) [OF assms(1)] assms(2,4) keep_same [of e]
    by (cases "k = a"; cases "out = Enqueue") fastforce+
qed

lemma frontier_new_state:
  assumes "frontier_upsert a ts net thr now s = (Enqueue, s')" "lookup s' a = Some e'"
  shows "ne_state e' = Queued"
proof -
  obtain b s1 where r: "reserve_entry s = (b, s1)" by fastforce
  show ?thesis
    using assms r reserve_entry_cases [OF r]
    by (cases b) (auto simp: frontier_upsert_def Let_def es.get_ins node_entry_new_def
        split: option.splits if_splits)
qed


lemma informed_map:
  "informed st c p \<Longrightarrow> ns_map (cw_store c') = ns_map (cw_store c) \<Longrightarrow> held p' \<subseteq># held p \<Longrightarrow>
     (\<And>k e. k \<in># held p' \<Longrightarrow> knows st p k e \<Longrightarrow> knows st p' k e) \<Longrightarrow> informed st c' p'"
  by (auto simp: informed_def dest: mset_subset_eqD)

lemma wstep_informed:
  assumes w: "wstep cr st t (c, p) (c', p')" and e: "entries_ok st c" and i: "informed st c p"
    and q: "queue_waits c" and ap: "apart c p" and so: "store_ok (cw_store c)"
  shows "informed st c' p'"
proof -
  have act: "\<exists>e. lookup (cw_store c) k = Some e \<and> is_active e" if "k \<in># held p" for k
    using ap that active_member [OF _ so] by (auto simp: apart_def)
  from w show ?thesis
  proof (cases rule: wstep.cases)
    case (recv_got k z)
    from arg_cong [OF recv_key(1) [OF recv_got(4)], of set_mset]
    have "k \<in> set (queued (cw_queues c))" by simp
    with q recv_got show ?thesis by (auto simp: queue_waits_def informed_def)
  next
    case (begin_node k)
    with informedD [OF i] e show ?thesis
      by (auto simp: informed_def update_entry_Some set_state_def entries_ok_def entry_ok_def)
  next
    case (begin_attempt k n)
    with act [of k] informedD [OF i] show ?thesis
      by (auto simp: informed_def update_entry_Some start_attempt_eq)
  next
    case (local_entry f k n)
    with informedD [OF i] show ?thesis
      by (auto simp: informed_def update_entry_Some entry_local_def)
  next
    case (frontier_known a ts net now out s k n)
    from act [of k] frontier_known obtain e0 where e0: "lookup (cw_store c) k = Some e0" "is_active e0"
      by auto
    from informedD [OF i _ e0(1)] frontier_known frontier_active(1) [OF frontier_known(4) e0]
    show ?thesis by (fastforce simp: informed_def)
  next
    case (frontier_new a ts net now s k n)
    from act [of k] frontier_new obtain e0 where e0: "lookup (cw_store c) k = Some e0" "is_active e0"
      by auto
    have "k \<noteq> a" using frontier_entries(3) [OF frontier_new(4), of e0] e0 by (auto simp: is_active_def)
    moreover have "lookup s k = Some e0" using frontier_entries(1) [OF frontier_new(4) \<open>k \<noteq> a\<close>] e0 by simp
    ultimately show ?thesis
      using informedD [OF i _ e0(1)] frontier_new frontier_new_state [OF frontier_new(4)] e0
      by (auto simp: informed_def)
  next
    case (send_taken a k n)
    with informedD [OF i, of k] apart_two [OF ap, of k a] send_key_store [OF send_taken(3)] show ?thesis
      by (auto simp: informed_def)
  next
    case (send_refused a k n)
    with i send_key_store [OF send_refused(3)] show ?thesis by (auto simp: informed_def)
  next
    case (discard_key k n a)
    with informedD [OF i, of k] apart_two [OF ap, of k a] show ?thesis
      by (auto simp: informed_def update_entry_Some)
  next
    case (retry n terminal k reason)
    with informedD [OF i] act [of k] show ?thesis
      by (auto simp: informed_def update_entry_Some set_state_def verdict_entry
          verdict_ok_cong [of "_\<lparr>ne_state := Queued\<rparr>"])
  next
    case (requeue_refused k terminal reason)
    with informedD [OF i] send_key_store [OF requeue_refused(3)] show ?thesis by (auto simp: informed_def)
  next
    case (give_verdict k terminal n reason)
    then show ?thesis by (auto simp: informed_def verdict_entry)
  qed (use i in \<open>auto simp: informed_def reserve_slot_fields incr_outstanding_def decr_outstanding_def\<close>)
qed

lemma queue_waits_keep:
  assumes q: "queue_waits c" and ap: "apart c p" and so: "store_ok (cw_store c)"
    and k: "others_keep c p c'"
    and new: "\<And>a e. a \<in> set (queued (cw_queues c')) \<Longrightarrow> a \<notin> set (queued (cw_queues c)) \<Longrightarrow>
        lookup (cw_store c') a = Some e \<Longrightarrow> ne_state e = Queued"
  shows "queue_waits c'"
  unfolding queue_waits_def
proof (intro ballI allI impI)
  fix a e
  assume a: "a \<in> set (queued (cw_queues c'))" "lookup (cw_store c') a = Some e"
  show "ne_state e = Queued"
  proof (cases "a \<in> set (queued (cw_queues c))")
    case False
    with new a show ?thesis by blast
  next
    case True
    with ap have "a \<in># active_keys (cw_store c)" "a \<notin># held p"
      using apart_queue [OF ap] by (auto simp: apart_def)
    moreover from active_member [OF this(1) so] obtain e0
      where "lookup (cw_store c) a = Some e0" "is_active e0" by blast
    moreover from this True q have "ne_state e0 = Queued" by (auto simp: queue_waits_def)
    ultimately show ?thesis using k a(2) unfolding others_keep_def by fastforce
  qed
qed

lemma wstep_queue_waits:
  assumes w: "wstep cr st t (c, p) (c', p')" and i: "informed st c p"
    and q: "queue_waits c" and ap: "apart c p" and so: "store_ok (cw_store c)"
  shows "queue_waits c'"
proof (rule queue_waits_keep [OF q ap so wstep_others [OF w]])
  fix a e
  assume a: "a \<in> set (queued (cw_queues c'))" "a \<notin> set (queued (cw_queues c))"
    "lookup (cw_store c') a = Some e"
  from w show "ne_state e = Queued"
  proof (cases rule: wstep.cases)
    case (recv_got k z)
    from arg_cong [OF recv_key(1) [OF recv_got(4)], of set_mset] recv_got a show ?thesis by auto
  next
    case (send_taken a' k n)
    from arg_cong [OF send_key_True(4) [OF send_taken(3)], of set_mset] a have "a = a'" by auto
    with informedD [OF i, of a'] a(3) send_taken send_key_store [OF send_taken(3)] show ?thesis by auto
  next
    case (send_refused a' k n)
    with a send_key_False(1) [OF send_refused(3)] show ?thesis by simp
  next
    case (requeue_taken k terminal reason)
    from arg_cong [OF send_key_True(4) [OF requeue_taken(3)], of set_mset] a have "a = k" by auto
    with informedD [OF i, of k] a(3) requeue_taken send_key_store [OF requeue_taken(3)] show ?thesis by auto
  next
    case (requeue_refused k terminal reason)
    with a send_key_False(1) [OF requeue_refused(3)] show ?thesis by simp
  qed (use a in \<open>auto simp: start_simps\<close>)
qed


subsection \<open>Entries of a running crawl\<close>

definition consistent :: "settings \<Rightarrow> crawler \<times> (transport \<times> pc) list \<Rightarrow> bool" where
  "consistent st = (\<lambda>(c, ws).
     entries_ok st c \<and> queue_waits c \<and> (\<forall>(t, p) \<in> set ws. informed st c p))"

lemma held_split:
  "i < length ws \<Longrightarrow> ws ! i = (t, p) \<Longrightarrow> j < length ws \<Longrightarrow> ws ! j = (u, r) \<Longrightarrow> i \<noteq> j \<Longrightarrow>
     held p + held r \<subseteq># over_workers held ws"
proof -
  assume i: "i < length ws" "ws ! i = (t, p)" and j: "j < length ws" "ws ! j = (u, r)" and ij: "i \<noteq> j"
  have "over_workers held (ws[i := (t, AtLoop)]) + held p = over_workers held ws"
    using over_workers_update [OF i, of held AtLoop] by simp
  moreover have "(u, r) \<in> set (ws[i := (t, AtLoop)])"
    using i j ij by (metis length_list_update nth_list_update_neq nth_mem)
  from held_in_total [OF this] have "held r \<subseteq># over_workers held (ws[i := (t, AtLoop)])" .
  ultimately show ?thesis by (metis add.commute mset_subset_eq_mono_add_left_cancel)
qed

lemma balanced_apart:
  assumes "balanced st (c, ws)" "(t, p) \<in> set ws"
  shows "apart c p"
proof -
  from assms(1) have q: "mset (queued (cw_queues c)) + over_workers held ws = active_keys (cw_store c)"
    and so: "store_ok (cw_store c)" by (simp_all add: balanced_def)
  have sub: "mset (queued (cw_queues c)) + held p \<subseteq># active_keys (cw_store c)"
    using held_in_total [OF assms(2)] unfolding q [symmetric] by simp
  have "count (mset (queued (cw_queues c)) + held p) k \<le> 1" for k
    using mset_subset_eq_count [OF sub, of k] active_distinct [OF so, of k] by linarith
  moreover from set_mset_mono [OF sub]
  have "set_mset (held p) \<union> set (queued (cw_queues c)) \<subseteq> set_mset (active_keys (cw_store c))" by simp
  ultimately show ?thesis unfolding apart_def by blast
qed

lemma balanced_disjoint:
  assumes b: "balanced st (c, ws)"
    and ij: "i < length ws" "ws ! i = (t, p)" "j < length ws" "ws ! j = (u, r)" "i \<noteq> j"
    and k: "k \<in># held r"
  shows "k \<notin># held p"
proof
  assume "k \<in># held p"
  with k have "2 \<le> count (held p + held r) k" by (simp add: Suc_leI add_mono flip: count_greater_zero_iff)
  also have "\<dots> \<le> count (active_keys (cw_store c)) k"
  proof (rule mset_subset_eq_count)
    have "mset (queued (cw_queues c)) + over_workers held ws = active_keys (cw_store c)"
      using b by (simp add: balanced_def)
    then have "over_workers held ws \<subseteq># active_keys (cw_store c)"
      by (metis mset_subset_eq_add_right)
    with held_split [OF ij] show "held p + held r \<subseteq># active_keys (cw_store c)" by (rule subset_mset.order_trans)
  qed
  also have "\<dots> \<le> 1" using b active_distinct by (simp add: balanced_def)
  finally show False by simp
qed

lemma informed_keep:
  assumes "others_keep c p c'" "informed st c r" "\<And>k. k \<in># held r \<Longrightarrow> k \<notin># held p"
    and act: "\<And>k. k \<in># held r \<Longrightarrow> \<exists>e. lookup (cw_store c) k = Some e \<and> is_active e"
  shows "informed st c' r"
  unfolding informed_def
proof (intro ballI allI impI)
  fix k e
  assume k: "k \<in># held r" and e: "lookup (cw_store c') k = Some e"
  from act [OF k] obtain e0 where e0: "lookup (cw_store c) k = Some e0" "is_active e0" by blast
  with assms(1) assms(3) [OF k] obtain ts where "lookup (cw_store c') k = Some (e0\<lparr>freshest_ts := ts\<rparr>)"
    by (auto simp: others_keep_def)
  with e have "e = e0\<lparr>freshest_ts := ts\<rparr>" by simp
  with informedD [OF assms(2) k e0(1)] show "knows st r k e" by (metis knows_freshest)
qed

lemma consistent_worker_step:
  assumes b: "balanced st (c, ws)" and con: "consistent st (c, ws)" and r: "runnable st"
    and i: "i < length ws" "ws ! i = (t, p)" and w: "wstep cr st t (c, p) (c', p')"
  shows "consistent st (c', ws[i := (t, p')])"
proof -
  have m: "(t, p) \<in> set ws" using i nth_mem by force
  have so: "store_ok (cw_store c)" using b by (simp add: balanced_def)
  have e: "entries_ok st c" "queue_waits c" "informed st c p" using con m by (auto simp: consistent_def)
  note ap = balanced_apart [OF b m]
  have s: "settings_ok st" using r by (simp add: runnable_def)
  have "informed st c' r" if ur: "(u, r) \<in> set (ws[i := (t, p')])" for u r
  proof -
    from ur obtain j where j: "j < length ws" "ws[i := (t, p')] ! j = (u, r)"
      by (metis in_set_conv_nth length_list_update)
    show ?thesis
    proof (cases "j = i")
      case True
      with j i have "r = p'" by simp
      with wstep_informed [OF w e(1,3,2) ap so] show ?thesis by simp
    next
      case False
      with j have wj: "ws ! j = (u, r)" by simp
      then have mj: "(u, r) \<in> set ws" using j(1) nth_mem by force
      show ?thesis
      proof (rule informed_keep [OF wstep_others [OF w]])
        show "informed st c r" using con mj by (auto simp: consistent_def)
      next
        fix k assume k: "k \<in># held r"
        from balanced_disjoint [OF b i j(1) wj _ k] False show "k \<notin># held p" by simp
        have "k \<in># active_keys (cw_store c)" using balanced_held [OF b mj] k by (rule mset_subset_eqD)
        from active_member [OF this so] show "\<exists>e. lookup (cw_store c) k = Some e \<and> is_active e" .
      qed
    qed
  qed
  with wstep_entries [OF w e(1,3) s] wstep_queue_waits [OF w e(3,2) ap so] show ?thesis
    by (auto simp: consistent_def)
qed

lemma consistent_map:
  "consistent st (c, ws) \<Longrightarrow> ns_map (cw_store c') = ns_map (cw_store c) \<Longrightarrow>
     queued (cw_queues c') = queued (cw_queues c) \<Longrightarrow> consistent st (c', ws)"
  by (auto simp: consistent_def entries_ok_def queue_waits_def informed_def)

lemma consistent_step:
  assumes "crawl_step cr st x y" "balanced st x" "consistent st x" "runnable st"
  shows "consistent st y"
  using assms(1)
proof cases
  case (worker_step i ws t p c c' p')
  with consistent_worker_step [of st c ws i t p cr c' p'] assms show ?thesis by simp
next
  case (signal_flag c ws)
  with assms show ?thesis by (auto intro: consistent_map)
next
  case (signal_close c ws)
  with assms show ?thesis by (auto intro: consistent_map)
next
  case (checkpoint_flush c ws)
  with assms show ?thesis by (auto intro: consistent_map simp: side_update_def)
qed

end
