(* ===== verification/Crawl_Live.thy ===== *)
theory Crawl_Live
  imports Crawl_Steps
begin

section \<open>Shutdown, completion and termination of the crawl\<close>

text \<open>
  The queues are closed only when nothing is active or the crawl ends early; a crawl whose workers
  have all returned without an early end has taken every address to a verdict; no worker waits for
  ever on an empty queue; and in every run the workers move only finitely often.
\<close>

subsection \<open>When the queues are closed\<close>

definition closed :: "crawler \<Rightarrow> bool" where
  "closed c \<longleftrightarrow> q_closed (qs_ip (cw_queues c))"

definition closed_together :: "crawler \<Rightarrow> bool" where
  "closed_together c \<longleftrightarrow> (\<forall>t. q_closed (queue_of t (cw_queues c)) = closed c)"

fun ends_early :: "pc \<Rightarrow> bool" where
  "ends_early (Finishing k terminal reason a) \<longleftrightarrow> a \<noteq> GoOn"
| "ends_early (Finished a) \<longleftrightarrow> a \<noteq> GoOn"
| "ends_early (LastDone a) \<longleftrightarrow> a \<noteq> GoOn"
| "ends_early (Closing ends) \<longleftrightarrow> True"
| "ends_early _ \<longleftrightarrow> False"

fun is_last :: "pc \<Rightarrow> bool" where
  "is_last (LastDone a) \<longleftrightarrow> True"
| "is_last _ \<longleftrightarrow> False"

abbreviation idle :: "crawler \<Rightarrow> bool" where
  "idle c \<equiv> active_keys (cw_store c) = {#}"

text \<open>The part that speaks of one worker, and the part that speaks of all.\<close>

definition worker_closing :: "crawler \<Rightarrow> pc \<Rightarrow> bool" where
  "worker_closing c p \<longleftrightarrow>
     (ends_early p \<longrightarrow> terminated_early c) \<and> (is_last p \<longrightarrow> terminated_early c \<or> idle c) \<and>
     (p = Exited \<longrightarrow> cw_shutdown c \<or> closed c)"

definition well_closed :: "crawler \<times> (transport \<times> pc) list \<Rightarrow> bool" where
  "well_closed = (\<lambda>(c, ws).
     closed_together c \<and> (closed c \<longrightarrow> terminated_early c \<or> idle c) \<and>
     (\<forall>(t, p) \<in> set ws. worker_closing c p) \<and>
     (idle c \<and> over_workers still_counted ws = 0 \<longrightarrow> closed c \<or> (\<exists>(t, p) \<in> set ws. is_last p)))"

lemma closed_queue: "closed_together c \<Longrightarrow> q_closed (queue_of t (cw_queues c)) = closed c"
  by (simp add: closed_together_def)

lemma closed_together_close_queues [simp]: "closed_together (close_queues c)" "closed (close_queues c)"
proof -
  show c: "closed (close_queues c)" by (simp add: closed_def queue_close_def close_all_def)
  show "closed_together (close_queues c)" using c by (simp add: closed_together_def queue_close_def)
qed

lemma closed_together_cong:
  "(\<And>t. q_closed (queue_of t (cw_queues c')) = q_closed (queue_of t (cw_queues c))) \<Longrightarrow>
     closed_together c' = closed_together c \<and> closed c' = closed c"
  using queue_of.simps(1) unfolding closed_together_def closed_def by metis

text \<open>What a step of a worker does to the closing of the queues.\<close>

lemma wstep_closed:
  assumes "wstep cr st t (c, p) (c', p')" "closed_together c"
  shows "closed_together c' \<and>
    closed c' = (closed c \<or> is_last p \<or> (\<exists>ends. p = Closing ends))"
proof -
  have s: "closed_together c' = closed_together c \<and> closed c' = closed c"
    if "send_key v k c = (b, c')" for v k b
    using that send_key_True(3) [of v k c c'] send_key_False(1) [of v k c c']
    by (intro closed_together_cong) (cases b, auto)
  have q: "closed_together c' = closed_together c \<and> closed c' = closed c"
    if "cw_queues c' = cw_queues c"
    using that by (intro closed_together_cong) simp
  from assms(1) show ?thesis
  proof (cases rule: wstep.cases)
    case (recv_got k z)
    then have "closed_together c' = closed_together c \<and> closed c' = closed c"
      using recv_key(2) [OF recv_got(4)] by (intro closed_together_cong) auto
    with recv_got assms(2) show ?thesis by simp
  qed (use assms(2) s q in \<open>auto simp: start_simps\<close>)
qed

lemma wstep_early:
  assumes "wstep cr st t (c, p) (c', p')"
  shows "(terminated_early c \<longrightarrow> terminated_early c') \<and> (cw_shutdown c \<longrightarrow> cw_shutdown c')"
  using assms
  by (cases rule: wstep.cases)
    (auto simp: terminated_early_def start_simps send_key_def split: prod.splits)


text \<open>What it does to the active addresses when it empties them.\<close>

lemma idle_worker:
  assumes "balanced st (c, ws)" "(t, p) \<in> set ws" "idle c"
  shows "held p = {#}" "queued (cw_queues c) = []"
proof -
  from assms(1) have q: "mset (queued (cw_queues c)) + over_workers held ws = {#}"
    using assms(3) by (simp add: balanced_def)
  then show "queued (cw_queues c) = []" by simp
  from q held_in_total [OF assms(2)] show "held p = {#}" by simp
qed

lemma wstep_idle:
  assumes "wstep cr st t (c, p) (c', p')" "held p = {#}"
  shows "active_keys (cw_store c') = active_keys (cw_store c)"
  using assms by (cases rule: wstep.cases) (auto simp: decr_outstanding_def active_keys_def)

lemma wstep_becomes_idle:
  assumes "wstep cr st t (c, p) (c', p')" "held p' = {#}"
  shows "active_keys (cw_store c') = active_keys (cw_store c) \<or> still_counted p' = 1 \<or>
    (\<exists>k terminal reason a. p = Finishing k terminal reason a \<and> p' = after_pc a)"
  using assms
  by (cases rule: wstep.cases) (auto simp: decr_outstanding_def active_keys_def send_key_store)

lemma no_passive_finish:
  assumes "wstep cr st t (c, Finishing k terminal reason a) (c', p')" "apart c (Finishing k terminal reason a)"
    "store_ok (cw_store c)"
  shows "p' = Finished a"
  using assms(1)
proof cases
  case (finish_passive r s)
  have "k \<in># active_keys (cw_store c)" using assms(2) by (simp add: apart_def)
  from active_member [OF this assms(3)] finish_False [OF finish_passive(3,4)] show ?thesis by blast
qed simp

lemma wstep_worker_closing:
  assumes w: "wstep cr st t (c, p) (c', p')" and wc: "worker_closing c p" and ct: "closed_together c"
    and last: "\<And>a. p = Finished a \<Longrightarrow> ns_outstanding (cw_store c) = 1 \<Longrightarrow> idle c"
  shows "worker_closing c' p'"
  using w
proof (cases rule: wstep.cases)
  case (recv_closed z)
  then have "q_closed (queue_of t (cw_queues c))" by (auto simp: queue_recv_def split: list.splits if_splits)
  with recv_closed ct show ?thesis by (simp add: worker_closing_def closed_queue)
next
  case (slot_none k)
  then show ?thesis by (simp add: worker_closing_def terminated_early_def reserve_slot_fields)
next
  case (finish_passive k terminal reason r s a)
  with wc show ?thesis by (cases a) (auto simp: worker_closing_def terminated_early_def)
next
  case (finish_active k terminal reason s a)
  with wc show ?thesis by (cases a) (auto simp: worker_closing_def terminated_early_def)
next
  case (finish_count prior s a)
  have "idle c" if "prior = 1" using last [of a] finish_count that by (simp add: decr_outstanding_def)
  moreover have "ns_map s = ns_map (cw_store c)" using finish_count by (auto simp: decr_outstanding_def)
  ultimately show ?thesis using wc finish_count
    by (cases a) (auto simp: worker_closing_def terminated_early_def active_map [of s "cw_store c"])
next
  case (finish_last a)
  with wc show ?thesis by (cases a) (auto simp: worker_closing_def terminated_early_def)
qed (use wc in \<open>auto simp: worker_closing_def terminated_early_def\<close>)


text \<open>The last piece of work really is the last: the counter says so only when nothing is active.\<close>

lemma last_is_last:
  assumes b: "balanced st (c, ws)" and m: "(t, p) \<in> set ws" "still_counted p = 1"
    and out: "ns_outstanding (cw_store c) = 1"
  shows "idle c" "over_workers still_counted ws = 1"
proof -
  have "1 \<le> over_workers still_counted ws"
    using over_workers_member [OF m(1), of still_counted] m(2) by auto
  moreover have "1 + over_workers not_yet_counted ws =
      size (active_keys (cw_store c)) + over_workers still_counted ws"
    using b out by (simp add: balanced_def)
  moreover note balanced_not_yet [OF b]
  ultimately have "size (active_keys (cw_store c)) = 0 \<and> over_workers still_counted ws = 1" by linarith
  then show "idle c" "over_workers still_counted ws = 1" by simp_all
qed

lemma terminated_mono: "wstep cr st t (c, p) (c', p') \<Longrightarrow> terminated_early c \<Longrightarrow> terminated_early c'"
  using wstep_early by blast

lemma well_closed_worker_step:
  assumes b: "balanced st (c, ws)" and wc: "well_closed (c, ws)" and r: "runnable st"
    and i: "i < length ws" "ws ! i = (t, p)" and w: "wstep cr st t (c, p) (c', p')"
  shows "well_closed (c', ws[i := (t, p')])"
proof -
  have m: "(t, p) \<in> set ws" using i nth_mem by force
  have so: "store_ok (cw_store c)" using b by (simp add: balanced_def)
  have ct: "closed_together c" using wc by (simp add: well_closed_def)
  note b' = balanced_worker_step [OF b r i w]
  have m': "(t, p') \<in> set (ws[i := (t, p')])" using i by (simp add: set_update_memI)
  have stays: "idle c'" if "idle c"
    using wstep_idle [OF w] idle_worker(1) [OF b m that] that by simp
  note cl = wstep_closed [OF w ct]
  have pc: "worker_closing c p" using wc m by (auto simp: well_closed_def)
  have own: "worker_closing c' p'"
    using last_is_last(1) [OF b m] by (intro wstep_worker_closing [OF w pc ct]) auto
  have others: "worker_closing c' u" if "worker_closing c u" for u
    using that terminated_mono [OF w] wstep_early [OF w] stays cl by (auto simp: worker_closing_def)
  have "\<forall>(v, u) \<in> set ws. worker_closing c u" using wc by (simp add: well_closed_def)
  then have all: "\<forall>(v, u) \<in> set (ws[i := (t, p')]). worker_closing c' u"
    using own others set_update_subset_insert [of ws i "(t, p')"] by blast
  have "terminated_early c' \<or> idle c'" if "closed c'"
  proof -
    from that cl consider "closed c" | "is_last p" | "\<exists>ends. p = Closing ends" by blast
    then have "terminated_early c \<or> idle c"
      by cases (use wc pc in \<open>auto simp: well_closed_def worker_closing_def\<close>)
    then show ?thesis using terminated_mono [OF w] stays by blast
  qed
  moreover have "closed c' \<or> (\<exists>(v, u) \<in> set (ws[i := (t, p')]). is_last u)"
    if ic: "idle c'" and sc: "over_workers still_counted (ws[i := (t, p')]) = 0"
  proof (cases "idle c")
    case False
    have "held p' = {#}" using idle_worker(1) [OF b' m' ic] .
    moreover have "still_counted p' = 0"
      using sc over_workers_member [OF m', of still_counted] by auto
    ultimately obtain k terminal reason a where p: "p = Finishing k terminal reason a" "p' = after_pc a"
      using wstep_becomes_idle [OF w] False ic by auto
    with no_passive_finish [of cr st t c k terminal reason a c' p'] w balanced_apart [OF b m] so
    have "p' = Finished a" by simp
    with p have False by (cases a) auto
    then show ?thesis ..
  next
    case idle: True
    show ?thesis
    proof (cases "over_workers still_counted ws = 0")
      case True
      with wc idle consider "closed c" | v u where "(v, u) \<in> set ws" "is_last u"
        by (auto simp: well_closed_def)
      then show ?thesis
      proof cases
        case 1
        with cl show ?thesis by blast
      next
        case 2
        then obtain j where j: "j < length ws" "ws ! j = (v, u)" by (meson in_set_conv_nth)
        show ?thesis
        proof (cases "j = i")
          case True
          with j i 2 cl show ?thesis by auto
        next
          case False
          with j have "(v, u) \<in> set (ws[i := (t, p')])"
            by (metis length_list_update nth_list_update_neq nth_mem)
          with 2 show ?thesis by blast
        qed
      qed
    next
      case False
      then have "still_counted p = over_workers still_counted ws"
        using over_workers_update [OF i, of still_counted p'] sc
          over_workers_member [OF m', of still_counted] by auto
      then have "still_counted p \<noteq> 0" using False by simp
      moreover have "held p = {#}" using idle_worker(1) [OF b m idle] .
      ultimately obtain a where p: "p = Finished a" by (cases p) auto
      have "ns_outstanding (cw_store c) = 1"
      proof -
        have "over_workers still_counted ws = 1"
          using \<open>still_counted p = over_workers still_counted ws\<close> p by simp
        moreover have "over_workers not_yet_counted ws = 0"
          using balanced_not_yet [OF b] idle by simp
        ultimately have "unat (ns_outstanding (cw_store c)) = 1" using b idle by (simp add: balanced_def)
        then show ?thesis by (intro unsigned_word_eqI [where ?'a = nat]) simp
      qed
      with w p have "p' = LastDone a" by (auto simp: decr_outstanding_def elim: counting_cases)
      with m' show ?thesis by force
    qed
  qed
  ultimately show ?thesis using all cl by (auto simp: well_closed_def)
qed

lemma well_closed_step:
  assumes "crawl_step cr st x y" "balanced st x" "well_closed x" "runnable st"
  shows "well_closed y"
  using assms(1)
proof cases
  case (worker_step i ws t p c c' p')
  with well_closed_worker_step [of st c ws i t p cr c' p'] assms show ?thesis by simp
next
  case (signal_flag c ws)
  have "closed_together (c\<lparr>cw_shutdown := True\<rparr>) = closed_together c \<and> closed (c\<lparr>cw_shutdown := True\<rparr>) = closed c"
    by (rule closed_together_cong) simp
  with signal_flag assms show ?thesis
    by (auto simp: well_closed_def worker_closing_def terminated_early_def)
next
  case (signal_close c ws)
  with assms show ?thesis by (auto simp: well_closed_def worker_closing_def terminated_early_def)
next
  case (checkpoint_flush c ws log failed)
  let ?c = "side_update (cw_sam c) log failed c"
  have "closed_together ?c = closed_together c \<and> closed ?c = closed c"
    by (rule closed_together_cong) (simp add: side_update_def)
  with checkpoint_flush assms show ?thesis
    by (auto simp: well_closed_def worker_closing_def terminated_early_def side_update_def)
qed


subsection \<open>The start of the crawl\<close>

text \<open>
  Before the workers start, every address is queued once, in the queue of its network's transport. That
  holds for any seeds; the crawl takes only those of enabled networks, whose queues have workers.
\<close>

definition seed_entry :: "node_entry \<Rightarrow> bool" where
  "seed_entry e \<longleftrightarrow> e = node_entry_new (ne_network e) (freshest_ts e) Queued"

definition seeds_placed :: "settings \<Rightarrow> crawler \<Rightarrow> bool" where
  "seeds_placed st c \<longleftrightarrow>
     store_ok (cw_store c) \<and> ns_max_entries (cw_store c) = st_max_addresses st \<and>
     (\<forall>u. q_capacity (queue_of u (cw_queues c)) = unat (st_max_addresses st) \<and>
          \<not> q_closed (queue_of u (cw_queues c))) \<and>
     mset (queued (cw_queues c)) = active_keys (cw_store c) \<and>
     ns_outstanding (cw_store c) = word_of_nat (length (queued (cw_queues c))) \<and>
     (\<forall>k e. lookup (cw_store c) k = Some e \<longrightarrow>
        seed_entry e \<and> k \<in> set (q_items (queue_of (network_transport (ne_network e)) (cw_queues c)))) \<and>
     \<not> terminated_early c \<and> cw_num_processed c = 0"

definition seeds_ok :: "settings \<Rightarrow> crawler \<Rightarrow> bool" where
  "seeds_ok st c \<longleftrightarrow>
     seeds_placed st c \<and> (\<forall>k e. lookup (cw_store c) k = Some e \<longrightarrow> is_enabled st (ne_network e)) \<and>
     (\<forall>u. q_items (queue_of u (cw_queues c)) \<noteq> [] \<longrightarrow> 0 < workers_for st u)"

lemma seed_entry_new [simp]: "seed_entry (node_entry_new net now Queued)"
  by (simp add: seed_entry_def node_entry_new_def)

lemma seed_entry_fields:
  assumes "seed_entry e"
  shows "ne_state e = Queued" "ne_handshake e = None" "ne_stats e = stats_default" "seed_entry (e\<lparr>freshest_ts := ts\<rparr>)"
proof -
  obtain net now where e: "e = node_entry_new net now Queued" using assms seed_entry_def by blast
  show "ne_state e = Queued" "ne_handshake e = None" "ne_stats e = stats_default" "seed_entry (e\<lparr>freshest_ts := ts\<rparr>)"
    unfolding e by (simp_all add: node_entry_new_def seed_entry_def)
qed

lemma queue_of_length: "length (q_items (queue_of u qs)) \<le> length (queued qs)"
  by (cases u) (simp_all add: queued_def)

lemma seeds_placed_new: "seeds_placed st (crawler_new (with_limit (st_max_addresses st)) st log)"
proof -
  have "active_keys (with_limit n) = {#}" for n by (simp add: active_keys_def with_limit_def)
  moreover have "queued (queues_new n) = ([] :: addr_key list)" for n
    by (simp add: queued_def queues_new_def queue_bounded_def)
  ultimately show ?thesis using store_ok_with_limit [of "st_max_addresses st"]
    by (simp add: seeds_placed_def crawler_new_def queue_bounded_def terminated_early_def)
      (simp add: with_limit_def)
qed

text \<open>A new seed is put at the end of its queue.\<close>

lemma seeds_placed_enqueue:
  fixes now :: int and net :: network_type and cr :: crates
  assumes ok: "seeds_placed st c" and k: "lookup (cw_store c) key = None"
    and r: "reserve_entry (cw_store c) = (True, s1)"
  defines "s \<equiv> insert_entry key (node_entry_new net now Queued) s1"
  defines "c' \<equiv> enqueue cr key (c\<lparr>cw_store := s\<rparr>)"
  shows "seeds_placed st c'"
    and "lookup (cw_store c') x = (if x = key then Some (node_entry_new net now Queued) else lookup (cw_store c) x)"
    and "q_items (queue_of u (cw_queues c')) =
      q_items (queue_of u (cw_queues c)) @ (if u = network_transport net then [key] else [])"
    and "length (ns_map (cw_store c')) = Suc (length (ns_map (cw_store c)))"
proof -
  have so: "store_ok (cw_store c)" using ok by (simp add: seeds_placed_def)
  let ?e = "node_entry_new net now Queued" and ?t = "network_transport net"
  have s1: "store_ok s" "ns_map s1 = ns_map (cw_store c)" "ns_outstanding s1 = ns_outstanding (cw_store c)"
    "ns_max_entries s = ns_max_entries (cw_store c)"
    using reserve_entry_True [OF r so k, of ?e] reserve_entry_max [of "cw_store c"] r
    by (simp_all add: s_def)
  have look: "lookup s x = (if x = key then Some ?e else lookup (cw_store c) x)" for x
    using s1(2) by (simp add: s_def es.get_ins)
  have act: "active_keys s = add_mset key (active_keys (cw_store c))"
    using active_insert_new [of s1 key ?e] k s1(2) active_map [OF s1(2)]
    by (simp add: s_def is_active_def node_entry_new_def)
  have mx: "ns_max_entries s = st_max_addresses st" using s1(4) ok by (simp add: seeds_placed_def)
  have len: "Suc (length (queued (cw_queues c))) \<le> unat (st_max_addresses st)"
  proof -
    have "mset (queued (cw_queues c)) = active_keys (cw_store c)" using ok by (simp add: seeds_placed_def)
    then have "length (queued (cw_queues c)) = size (active_keys (cw_store c))" by (metis size_mset)
    then have "Suc (length (queued (cw_queues c))) = size (active_keys s)" using act by simp
    also have "\<dots> \<le> length (ns_map s)" by (rule active_size)
    also have "\<dots> \<le> unat (st_max_addresses st)"
      using s1(1) mx by (simp add: store_ok_def word_le_nat_alt)
    finally show ?thesis .
  qed
  let ?c = "c\<lparr>cw_store := incr_outstanding s\<rparr>"
  have net: "key_network cr (c\<lparr>cw_store := s\<rparr>) key = net"
    by (simp add: key_network_def network_of_def look node_entry_new_def)
  obtain b d where snd: "send_key ?t key ?c = (b, d)" by fastforce
  have cap: "q_capacity (queue_of ?t (cw_queues c)) = unat (st_max_addresses st)"
    "\<not> q_closed (queue_of ?t (cw_queues c))" using ok by (simp_all add: seeds_placed_def)
  have b: "b"
    using send_key_False(2) [of ?t key ?c d] snd cap len queue_of_length [of ?t "cw_queues c"]
    by (cases b) auto
  with snd have snd: "send_key ?t key ?c = (True, d)" by simp
  then have e: "c' = d" by (simp add: c'_def enqueue_def net)
  have st: "cw_store c' = incr_outstanding s" using send_key_store [OF snd] e by simp
  note sq = send_key_True(3,4) [OF snd, folded e]
  have early: "terminated_early c' = terminated_early c" "cw_num_processed c' = cw_num_processed c"
    using arg_cong [OF send_key_True(1) [OF snd], of terminated_early]
      arg_cong [OF send_key_True(1) [OF snd], of cw_num_processed]
    by (simp_all add: terminated_early_def e)
  have so': "store_ok (incr_outstanding s)" using s1(1) by (simp add: store_ok_def incr_outstanding_def)
  have act': "active_keys (incr_outstanding s) = active_keys s" by (rule active_map) simp
  have qm: "mset (queued (cw_queues c')) = active_keys (incr_outstanding s)"
    unfolding act' using sq(2) act ok by (simp add: seeds_placed_def)
  have ql: "length (queued (cw_queues c')) = Suc (length (queued (cw_queues c)))"
    using arg_cong [OF sq(2), of size] by simp
  have out: "ns_outstanding (incr_outstanding s) = word_of_nat (length (queued (cw_queues c')))"
    using ok s1(3) ql by (simp add: incr_outstanding_def s_def seeds_placed_def)
  have items: "q_items (queue_of u (cw_queues c')) =
      q_items (queue_of u (cw_queues c)) @ (if u = ?t then [key] else [])" for u
    by (simp add: sq(1))
  have se: "seed_entry e \<and> k \<in> set (q_items (queue_of (network_transport (ne_network e)) (cw_queues c')))"
    if "lookup s k = Some e" for k e
    using that ok look items by (auto simp: seed_entry_def node_entry_new_def seeds_placed_def split: if_splits)
  have caps: "q_capacity (queue_of u (cw_queues c')) = unat (st_max_addresses st) \<and>
      \<not> q_closed (queue_of u (cw_queues c'))" for u
    using ok by (simp add: sq(1) seeds_placed_def)
  show "seeds_placed st c'"
    unfolding seeds_placed_def st
    using so' mx caps qm out se early ok by (simp add: incr_outstanding_def seeds_placed_def)
  show "lookup (cw_store c') x = (if x = key then Some ?e else lookup (cw_store c) x)"
    unfolding st using look by (simp add: incr_outstanding_def)
  show "q_items (queue_of u (cw_queues c')) =
      q_items (queue_of u (cw_queues c)) @ (if u = ?t then [key] else [])"
    by (rule items)
  show "length (ns_map (cw_store c')) = Suc (length (ns_map (cw_store c)))"
    unfolding st s_def using s1(2) k by (simp add: incr_outstanding_def insert_entry_def length_update_new)
qed

text \<open>What seeding one address does: it is known already, it is new and queued, or the budget is spent.\<close>

lemma seed_key_placed:
  fixes now :: int and cr :: crates and key :: addr_key
  assumes ok: "seeds_placed st c"
  defines "c' \<equiv> seed_key cr now key c" and "net \<equiv> classify cr (ak_host key)"
  shows "seeds_placed st c' \<and>
    ((\<exists>e. lookup (cw_store c) key = Some e \<and> cw_queues c' = cw_queues c \<and>
        lookup (cw_store c') = (lookup (cw_store c))(key \<mapsto> e\<lparr>freshest_ts := max (freshest_ts e) now\<rparr>) \<and>
        length (ns_map (cw_store c')) = length (ns_map (cw_store c))) \<or>
     (lookup (cw_store c) key = None \<and>
        lookup (cw_store c') = (lookup (cw_store c))(key \<mapsto> node_entry_new net now Queued) \<and>
        (\<forall>u. q_items (queue_of u (cw_queues c')) =
           q_items (queue_of u (cw_queues c)) @ (if u = network_transport net then [key] else [])) \<and>
        length (ns_map (cw_store c')) = Suc (length (ns_map (cw_store c)))) \<or>
     (lookup (cw_store c) key = None \<and> length (ns_map (cw_store c)) = unat (st_max_addresses st) \<and>
        cw_queues c' = cw_queues c \<and> ns_map (cw_store c') = ns_map (cw_store c)))"
proof (cases "lookup (cw_store c) key")
  case (Some e)
  let ?e = "e\<lparr>freshest_ts := max (freshest_ts e) now\<rparr>"
  have so: "store_ok (cw_store c)" and se: "seed_entry e" using ok Some by (auto simp: seeds_placed_def)
  have "active_keys (insert_entry key ?e (cw_store c)) = active_keys (cw_store c)"
    using active_insert_old [OF Some, of ?e] by (simp add: is_active_def split: if_splits)
  moreover have "seed_entry ?e" by (rule seed_entry_fields(4) [OF se])
  moreover have "length (ns_map (insert_entry key ?e (cw_store c))) = length (ns_map (cw_store c))"
    using Some by (simp add: insert_entry_def length_update_old)
  moreover have "c' = c\<lparr>cw_store := insert_entry key ?e (cw_store c)\<rparr>"
    by (simp add: c'_def seed_key_def observe_seed_def Some)
  moreover have "lookup (insert_entry key ?e (cw_store c)) = (lookup (cw_store c))(key \<mapsto> ?e)"
    by (rule ext) (simp add: es.get_ins)
  ultimately show ?thesis
    using ok store_ok_insert_old [OF so Some, of ?e] Some
    by (auto simp: seeds_placed_def terminated_early_def split: if_splits)
next
  case None
  obtain b s1 where r: "reserve_entry (cw_store c) = (b, s1)" by fastforce
  show ?thesis
  proof (cases b)
    case True
    with r have r': "reserve_entry (cw_store c) = (True, s1)" by simp
    have c': "c' = enqueue cr key (c\<lparr>cw_store := insert_entry key (node_entry_new net now Queued) s1\<rparr>)"
      by (simp add: c'_def net_def seed_key_def observe_seed_def r' None enqueue_seed_def Let_def)
    note enq = seeds_placed_enqueue [OF ok None r', where net = net and now = now and cr = cr, folded c']
    have "lookup (cw_store c') = (lookup (cw_store c))(key \<mapsto> node_entry_new net now Queued)"
      using enq(2) by auto
    with enq None show ?thesis by simp
  next
    case False
    with r have r': "reserve_entry (cw_store c) = (False, s1)" by simp
    note f = reserve_entry_False [OF r']
    have c': "c' = c\<lparr>cw_store := s1\<rparr>"
      by (simp add: c'_def seed_key_def observe_seed_def r' None Let_def)
    have act: "active_keys s1 = active_keys (cw_store c)" using f by (intro active_map) simp
    have full: "length (ns_map (cw_store c)) = unat (st_max_addresses st)"
      using r' ok by (auto simp: reserve_entry_def seeds_placed_def store_ok_def word_less_nat_alt word_le_nat_alt
          split: if_splits)
    moreover have "store_ok (cw_store c)" using ok by (simp add: seeds_placed_def)
    then have "store_ok s1" using f by (auto simp: store_ok_def)
    ultimately have "seeds_placed st c'" "cw_queues c' = cw_queues c" "ns_map (cw_store c') = ns_map (cw_store c)"
      using ok f act by (simp_all add: c' seeds_placed_def terminated_early_def)
    with None full show ?thesis by blast
  qed
qed

lemma seeds_ok_new: "seeds_ok st (crawler_new (with_limit (st_max_addresses st)) st log)"
  using seeds_placed_new by (simp add: seeds_ok_def crawler_new_def queue_bounded_def)
    (simp add: with_limit_def)

lemma seeds_ok_seed:
  assumes ok: "seeds_ok st c" and run: "runnable st" and en: "is_enabled st (classify cr (ak_host key))"
  shows "seeds_ok st (seed_key cr now key c)"
proof -
  let ?c' = "seed_key cr now key c" and ?t = "network_transport (classify cr (ak_host key))"
  have pl: "seeds_placed st c" using ok by (simp add: seeds_ok_def)
  note sk = seed_key_placed [OF pl, of cr now key]
  have "q_items (queue_of u (cw_queues ?c')) = q_items (queue_of u (cw_queues c)) \<or> u = ?t" for u
    using sk by (cases "u = ?t"; elim conjE disjE exE; simp)
  moreover have "0 < workers_for st ?t" using run en by (simp add: runnable_def settings_ok_def)
  ultimately have "0 < workers_for st u" if "q_items (queue_of u (cw_queues ?c')) \<noteq> []" for u
    using that ok unfolding seeds_ok_def by metis
  moreover have "is_enabled st (ne_network e)" if "lookup (cw_store ?c') k = Some e" for k e
    using sk that ok en by (auto simp: seeds_ok_def node_entry_new_def split: if_splits)
  ultimately show ?thesis using sk by (simp add: seeds_ok_def)
qed

lemma seeded_ok: "seeded cr st c \<Longrightarrow> runnable st \<Longrightarrow> seeds_ok st c"
  by (induction rule: seeded.induct) (simp_all add: seeds_ok_new seeds_ok_seed)


subsection \<open>Reachable states\<close>

text \<open>Every queue that has addresses has workers.\<close>

definition staffed :: "settings \<Rightarrow> crawler \<Rightarrow> bool" where
  "staffed st c \<longleftrightarrow> (\<forall>u. q_items (queue_of u (cw_queues c)) \<noteq> [] \<longrightarrow> 0 < workers_for st u)"

lemma spawned: "t \<in> set (map fst (spawn_workers st)) \<longleftrightarrow> 0 < workers_for st t"
  by (cases t) (auto simp: spawn_workers_def word_less_nat_alt)

lemma spawn_at_loop: "(t, p) \<in> set (spawn_workers st) \<Longrightarrow> p = AtLoop"
  by (auto simp: spawn_workers_def)

lemma over_workers_zero: "(\<And>p. p \<in> snd ` set ws \<Longrightarrow> g p = 0) \<Longrightarrow> over_workers g ws = 0"
  by (induction ws) (auto simp: over_workers_def)

lemma over_spawn: "g AtLoop = 0 \<Longrightarrow> over_workers g (spawn_workers st) = 0"
  by (rule over_workers_zero) (auto dest: spawn_at_loop)

lemma wstep_staffed:
  assumes w: "wstep cr st t (c, p) (c', p')" and s: "staffed st c" and t: "0 < workers_for st t"
    and e: "entries_ok st c" and ap: "apart c p" and so: "store_ok (cw_store c)" and run: "settings_ok st"
  shows "staffed st c'"
  using w
proof (cases rule: wstep.cases)
  case (recv_got k z)
  then have "q_items (queue_of t (cw_queues c)) \<noteq> []" by (auto simp: queue_recv_def split: list.splits if_splits)
  with recv_got s show ?thesis by (auto simp: staffed_def)
next
  case (send_taken a k n)
  then have "a \<in># active_keys (cw_store c)" using ap by (simp add: apart_def)
  from active_member [OF this so] obtain x where "lookup (cw_store c) a = Some x" by blast
  then have "is_enabled st (key_network cr c a)"
    using e by (auto simp: entries_ok_def entry_ok_def key_network_def network_of_def)
  with run have "0 < workers_for st (network_transport (key_network cr c a))" by (simp add: settings_ok_def)
  with s send_key_True(3) [OF send_taken(3)] show ?thesis by (auto simp: staffed_def)
next
  case (send_refused a k n)
  with s send_key_False(1) [OF send_refused(3)] show ?thesis by simp
next
  case (requeue_taken k terminal reason)
  with s t send_key_True(3) [OF requeue_taken(3)] show ?thesis by (auto simp: staffed_def)
next
  case (requeue_refused k terminal reason)
  with s send_key_False(1) [OF requeue_refused(3)] show ?thesis by simp
qed (use s in \<open>auto simp: staffed_def start_simps queue_close_def\<close>)

definition crawl_inv :: "settings \<Rightarrow> crawler \<times> (transport \<times> pc) list \<Rightarrow> bool" where
  "crawl_inv st x \<longleftrightarrow> balanced st x \<and> consistent st x \<and> well_closed x \<and> staffed st (fst x)"

text \<open>Any seeds that are placed make a balanced start, which is closed only if there are none.\<close>

lemma placed_init:
  assumes ok: "seeds_placed st c"
  shows "balanced st (run_start c, spawn_workers st)" "well_closed (run_start c, spawn_workers st)"
proof -
  have so: "store_ok (cw_store c)" and mx: "ns_max_entries (cw_store c) = st_max_addresses st"
    and q: "mset (queued (cw_queues c)) = active_keys (cw_store c)"
    and out: "ns_outstanding (cw_store c) = word_of_nat (length (queued (cw_queues c)))"
    using ok by (auto simp: seeds_placed_def)
  have f: "cw_store (run_start c) = cw_store c" "queued (cw_queues (run_start c)) = queued (cw_queues c)"
    by (simp_all add: run_start_def)
  have len: "length (queued (cw_queues c)) = size (active_keys (cw_store c))" using q by (metis size_mset)
  have "length (queued (cw_queues c)) \<le> unat (st_max_addresses st)"
    using len active_size [of "cw_store c"] so mx by (simp add: store_ok_def word_le_nat_alt)
  then have "length (queued (cw_queues c)) < 2 ^ 64"
    using unsigned_less [of "st_max_addresses st", where ?'a = nat] by simp
  then have uo: "unat (ns_outstanding (cw_store c)) = size (active_keys (cw_store c))"
    unfolding out len [symmetric] by (simp add: unat_of_nat)
  show "balanced st (run_start c, spawn_workers st)"
    using ok uo f
    by (auto simp: balanced_def seeds_placed_def over_spawn run_start_def queue_close_def dest!: spawn_at_loop)
  have opn: "\<not> q_closed (queue_of u (cw_queues c))" for u using ok by (simp add: seeds_placed_def)
  have z: "ns_outstanding (cw_store c) = 0 \<longleftrightarrow> idle c"
    using uo by (metis size_eq_0_iff_empty unsigned_0 unsigned_eq_0_iff)
  show "well_closed (run_start c, spawn_workers st)"
  proof (cases "idle c")
    case True
    with z have "run_start c = close_queues c" by (simp add: run_start_def)
    with True show ?thesis by (auto simp: well_closed_def worker_closing_def dest!: spawn_at_loop)
  next
    case False
    with z have "run_start c = c" by (simp add: run_start_def)
    moreover have "closed_together c" "\<not> closed c"
      using opn [of TransportIp] opn by (simp_all add: closed_together_def closed_def)
    ultimately show ?thesis
      using False by (auto simp: well_closed_def worker_closing_def dest!: spawn_at_loop)
  qed
qed

lemma crawl_inv_init:
  assumes ok: "seeds_ok st c" and run: "runnable st"
  shows "crawl_inv st (run_start c, spawn_workers st)"
proof -
  have placed: "seeds_placed st c" using ok by (simp add: seeds_ok_def)
  have se: "seed_entry e \<and> is_enabled st (ne_network e)" if "lookup (cw_store c) k = Some e" for k e
    using that ok by (auto simp: seeds_ok_def seeds_placed_def)
  have f: "cw_store (run_start c) = cw_store c" "queued (cw_queues (run_start c)) = queued (cw_queues c)"
    by (simp_all add: run_start_def)
  have pos: "0 < max_attempts st" using run by (simp add: runnable_def settings_ok_def)
  have "entry_ok st e" if "lookup (cw_store c) k = Some e" for k e
    using se [OF that] pos seed_entry_fields [of e] by (auto simp: entry_ok_def stats_default_def)
  moreover have "ne_state e = Queued" if "lookup (cw_store c) k = Some e" for k e
    using se [OF that] seed_entry_fields(1) by blast
  ultimately have "consistent st (run_start c, spawn_workers st)"
    using f by (auto simp: consistent_def entries_ok_def queue_waits_def informed_def dest!: spawn_at_loop)
  moreover have "staffed st (run_start c)"
    using ok by (auto simp: staffed_def seeds_ok_def run_start_def queue_close_def)
  ultimately show ?thesis using placed_init [OF placed] by (simp add: crawl_inv_def)
qed

lemma crawl_inv_step:
  assumes "crawl_step cr st x y" "crawl_inv st x" "runnable st"
  shows "crawl_inv st y"
proof -
  have "staffed st (fst y)"
    using assms(1)
  proof cases
    case (worker_step i ws t p c c' p')
    then have m: "(t, p) \<in> set ws" using nth_mem by force
    have b: "balanced st (c, ws)" using assms(2) worker_step by (simp add: crawl_inv_def)
    then have "map fst ws = map fst (spawn_workers st)" by (simp add: balanced_def)
    with m have "t \<in> set (map fst (spawn_workers st))" by (metis fst_conv imageI list.set_map)
    then have "0 < workers_for st t" by (simp only: spawned)
    with wstep_staffed [OF worker_step(5)] assms(2,3) worker_step balanced_apart [OF b m] b show ?thesis
      by (auto simp: crawl_inv_def consistent_def balanced_def runnable_def)
  qed (use assms in \<open>auto simp: crawl_inv_def staffed_def queue_close_def side_update_def\<close>)
  with balanced_step [OF assms(1)] consistent_step [OF assms(1)] well_closed_step [OF assms(1)] assms(2,3)
  show ?thesis by (simp add: crawl_inv_def)
qed

lemma crawl_reach_inv: "crawl_reach cr st x \<Longrightarrow> runnable st \<Longrightarrow> crawl_inv st x"
  by (erule crawl_runs.invariant [where I = "crawl_inv st"]) (auto simp: crawl_start_def intro: crawl_inv_init seeded_ok crawl_inv_step)


subsection \<open>No address is dropped\<close>

fun drops :: "pc \<Rightarrow> bool" where
  "drops (Refused k n a) \<longleftrightarrow> True"
| "drops (Finishing k terminal reason a) \<longleftrightarrow> terminal = BudgetDiscarded"
| "drops _ \<longleftrightarrow> False"

definition none_dropped :: "crawler \<times> (transport \<times> pc) list \<Rightarrow> bool" where
  "none_dropped = (\<lambda>(c, ws).
     \<not> terminated_early c \<longrightarrow>
       (\<forall>k e. lookup (cw_store c) k = Some e \<longrightarrow> ne_state e \<noteq> BudgetDiscarded) \<and>
       (\<forall>(t, p) \<in> set ws. \<not> drops p))"

text \<open>A send of an address that a worker holds is refused only when the crawl ends early: the queues are
  large enough for every entry, and are not closed while anything is active.\<close>

lemma send_refused_early:
  assumes inv: "crawl_inv st (c, ws)" and m: "(t, p) \<in> set ws" "held p \<noteq> {#}"
    and f: "send_key u k c = (False, c')"
  shows "terminated_early c"
proof -
  have b: "balanced st (c, ws)" and wc: "well_closed (c, ws)" using inv by (auto simp: crawl_inv_def)
  have q: "mset (queued (cw_queues c)) + over_workers held ws = active_keys (cw_store c)"
    using b by (simp add: balanced_def)
  obtain r where "over_workers held ws = held p + r" using over_workers_member [OF m(1)] by blast
  then have "0 < size (over_workers held ws)" using m(2) by (simp add: nonempty_has_size)
  with arg_cong [OF q, of size] have "length (queued (cw_queues c)) < size (active_keys (cw_store c))"
    by simp
  also have "\<dots> \<le> unat (st_max_addresses st)" by (rule balanced_entries [OF b])
  finally have "length (q_items (queue_of u (cw_queues c))) < q_capacity (queue_of u (cw_queues c))"
    using queue_of_length [of u "cw_queues c"] b by (simp add: balanced_def)
  with send_key_False(2) [OF f] have "q_closed (queue_of u (cw_queues c))" by simp
  then have "closed c" using wc by (simp add: well_closed_def closed_queue)
  moreover have "\<not> idle c" using idle_worker(1) [OF b m(1)] m(2) by blast
  ultimately show ?thesis using wc by (simp add: well_closed_def)
qed

lemma wstep_keeps_budget:
  assumes w: "wstep cr st t (c, p) (c', p')" and i: "informed st c p" and d: "\<not> drops p"
    and none: "\<forall>k e. lookup (cw_store c) k = Some e \<longrightarrow> ne_state e \<noteq> BudgetDiscarded"
  shows "lookup (cw_store c') k = Some e \<Longrightarrow> ne_state e \<noteq> BudgetDiscarded"
  using w
proof (cases rule: wstep.cases)
  case (frontier_known a ts net now out s k' n)
  assume "lookup (cw_store c') k = Some e"
  with frontier_known have k: "lookup s k = Some e" by simp
  show ?thesis
  proof (cases "k = a")
    case False
    with frontier_entries(1) [OF frontier_known(4)] k none show ?thesis by auto
  next
    case True
    with k frontier_entries(2,4) [OF frontier_known(4)] none frontier_known(6) show ?thesis
      by (cases "lookup (cw_store c) a") (fastforce simp: node_entry_new_def)+
  qed
next
  case (frontier_new a ts net now s k' n)
  assume "lookup (cw_store c') k = Some e"
  with frontier_new have k: "lookup s k = Some e" by simp
  show ?thesis
  proof (cases "k = a")
    case False
    with frontier_entries(1) [OF frontier_new(4)] k none show ?thesis by auto
  next
    case True
    with k frontier_new_state [OF frontier_new(4)] show ?thesis by auto
  qed
next
  case (finish_active k' terminal reason s a)
  assume "lookup (cw_store c') k = Some e"
  with finish_active with_finish_map [OF finish_active(4)] none d show ?thesis
    by (auto simp: update_entry_Some finish_entry_def split: if_splits)
next
  case (finish_passive k' terminal reason r s a)
  assume "lookup (cw_store c') k = Some e"
  with finish_passive with_finish_map [OF finish_passive(4)] none d show ?thesis
    by (auto simp: update_entry_Some finish_entry_def split: if_splits)
next
  case (local_entry f k' n)
  assume "lookup (cw_store c') k = Some e"
  with local_entry none show ?thesis by (auto simp: update_entry_Some entry_local_def split: if_splits)
qed (use none d in \<open>auto simp: update_entry_Some set_state_def start_simps
    send_key_store incr_outstanding_def decr_outstanding_def split: if_splits\<close>)

lemma wstep_drops:
  assumes inv: "crawl_inv st (c, ws)" and m: "(t, p) \<in> set ws"
    and w: "wstep cr st t (c, p) (c', p')" and early: "\<not> terminated_early c'" and d: "\<not> drops p"
  shows "\<not> drops p'"
proof -
  have i: "informed st c p" using inv m by (auto simp: crawl_inv_def consistent_def)
  have so: "store_ok (cw_store c)" and b: "balanced st (c, ws)" using inv by (auto simp: crawl_inv_def balanced_def)
  have ne: "\<not> terminated_early c" using early terminated_mono [OF w] by blast
  from w show ?thesis
  proof (cases rule: wstep.cases)
    case (slot_none k)
    then show ?thesis using early by (simp add: terminated_early_def reserve_slot_fields)
  next
    case (send_refused a k n)
    then show ?thesis using send_refused_early [OF inv m] ne by force
  next
    case (requeue_refused k terminal reason)
    then show ?thesis using send_refused_early [OF inv m] ne by force
  next
    case (give_verdict k terminal n reason)
    then show ?thesis by (auto simp: verdict_entry)
  next
    case (finish_passive k terminal reason r s a)
    then show ?thesis by (cases a) simp_all
  next
    case (finish_count prior s a)
    then show ?thesis by (cases a) simp_all
  next
    case (finish_last a)
    then show ?thesis by (cases a) simp_all
  qed simp_all
qed

lemma none_dropped_step:
  assumes "crawl_step cr st x y" "crawl_inv st x" "none_dropped x"
  shows "none_dropped y"
  using assms(1)
proof cases
  case (worker_step i ws t p c c' p')
  then have m: "(t, p) \<in> set ws" using nth_mem by force
  have inv: "crawl_inv st (c, ws)" using assms(2) worker_step by simp
  have i: "informed st c p" using inv m by (auto simp: crawl_inv_def consistent_def)
  show ?thesis
    unfolding worker_step(2) none_dropped_def prod.case
  proof (intro impI conjI)
    assume ne': "\<not> terminated_early c'"
    then have ne: "\<not> terminated_early c" using terminated_mono [OF worker_step(5)] by blast
    with assms(3) worker_step have st: "\<forall>k e. lookup (cw_store c) k = Some e \<longrightarrow> ne_state e \<noteq> BudgetDiscarded"
      and dr: "\<forall>(t, p) \<in> set ws. \<not> drops p" by (auto simp: none_dropped_def)
    then have d: "\<not> drops p" using m by blast
    show "\<forall>k e. lookup (cw_store c') k = Some e \<longrightarrow> ne_state e \<noteq> BudgetDiscarded"
      using wstep_keeps_budget [OF worker_step(5) i d st] by blast
    show "\<forall>(t, p) \<in> set (ws[i := (t, p')]). \<not> drops p"
      using wstep_drops [OF inv m worker_step(5) ne' d] dr set_update_subset_insert [of ws i "(t, p')"] by blast
  qed
qed (use assms in \<open>auto simp: none_dropped_def terminated_early_def side_update_def\<close>)

lemma none_dropped_init:
  assumes "seeds_ok st c"
  shows "none_dropped (run_start c, spawn_workers st)"
proof -
  have "ne_state e = Queued" if "lookup (cw_store c) k = Some e" for k e
    using assms that seed_entry_fields(1) unfolding seeds_ok_def seeds_placed_def by blast
  then show ?thesis by (auto simp: none_dropped_def run_start_def dest!: spawn_at_loop)
qed

lemma crawl_reach_none_dropped: "crawl_reach cr st x \<Longrightarrow> runnable st \<Longrightarrow> none_dropped x"
  by (erule crawl_runs.invariant_under [where I = none_dropped and J = "crawl_inv st", OF _ crawl_reach_inv])
    (auto simp: crawl_start_def intro: none_dropped_init seeded_ok none_dropped_step)


subsection \<open>Processing turns\<close>

text \<open>The turns of the crawl: the attempts recorded in the entries, and those just reserved.\<close>

definition total_attempts :: "node_store \<Rightarrow> nat" where
  "total_attempts s = (\<Sum>(k, e)\<leftarrow>ns_map s. unat (attempts_of e))"

fun pending :: "pc \<Rightarrow> nat" where
  "pending (Slot k) = 1"
| "pending (Started k) = 1"
| "pending _ = 0"

definition turns :: "crawler \<Rightarrow> (transport \<times> pc) list \<Rightarrow> nat" where
  "turns c ws = total_attempts (cw_store c) + over_workers pending ws"

definition max_turns :: "settings \<Rightarrow> nat" where
  "max_turns st = unat (st_max_addresses st) * unat (max_attempts st)"

lemma sum_update_old:
  "map_of xs k = Some e0 \<Longrightarrow>
     (\<Sum>(k, e)\<leftarrow>AList.update k e xs. g e) + g e0 = (\<Sum>(k, e)\<leftarrow>xs. g e) + (g e :: nat)"
  by (induction xs) (auto split: if_splits)

lemma sum_update_new:
  "map_of xs k = None \<Longrightarrow> (\<Sum>(k, e)\<leftarrow>AList.update k e xs. g e) = (\<Sum>(k, e)\<leftarrow>xs. g e) + (g e :: nat)"
  by (induction xs) (auto split: if_splits)

lemma total_update:
  assumes "lookup s k = Some e"
  shows "total_attempts (update_entry k f s) + unat (attempts_of e) = total_attempts s + unat (attempts_of (f e))"
  using sum_update_old [OF assms, of "\<lambda>e. unat (attempts_of e)" "f e"] assms
  by (simp add: total_attempts_def update_entry_eq)

lemma total_update_same:
  assumes "\<And>e. lookup s k = Some e \<Longrightarrow> attempts_of (f e) = attempts_of e"
  shows "total_attempts (update_entry k f s) = total_attempts s"
proof (cases "lookup s k")
  case None
  then show ?thesis by (simp add: es.upd_absent)
next
  case (Some e)
  from total_update [OF this, of f] assms [OF Some] show ?thesis by simp
qed

lemma total_frontier:
  assumes "frontier_upsert a ts net thr now s = (out, s')"
  shows "total_attempts s' = total_attempts s"
proof (cases "lookup s a")
  case (Some e)
  have i: "total_attempts (insert_entry a x s) = total_attempts s" if "attempts_of x = attempts_of e" for x
    using sum_update_old [OF Some, of "\<lambda>e. unat (attempts_of e)" x] that
    by (simp add: total_attempts_def insert_entry_def)
  from assms Some show ?thesis by (auto simp: frontier_upsert_def Let_def i split: if_splits)
next
  case None
  obtain b s1 where r: "reserve_entry s = (b, s1)" by fastforce
  have m: "ns_map s1 = ns_map s" using reserve_entry_cases [OF r] by simp
  have i: "total_attempts (insert_entry a x s1) = total_attempts s" if "attempts_of x = 0" for x
    using sum_update_new [of "ns_map s" a "\<lambda>e. unat (attempts_of e)" x] None m that
    by (simp add: total_attempts_def insert_entry_def)
  have "total_attempts s1 = total_attempts s" using m by (simp add: total_attempts_def)
  with assms None r show ?thesis
    by (cases b) (auto simp: frontier_upsert_def i node_entry_new_def stats_default_def split: if_splits)
qed

lemma unat_succ: "(n :: u32) < m \<Longrightarrow> unat (n + 1) = unat n + 1"
  using unsigned_less [of m, where ?'a = nat] by (simp add: unat_word_ariths word_less_nat_alt)

text \<open>A step counts a turn exactly when it reserves a slot.\<close>

lemma wstep_turns:
  assumes w: "wstep cr st t (c, p) (c', p')" and e: "entries_ok st c" and i: "informed st c p"
    and ap: "apart c p" and so: "store_ok (cw_store c)"
  shows "total_attempts (cw_store c') + pending p' =
    total_attempts (cw_store c) + pending p + of_bool (\<exists>k. p' = Slot k \<and> p = Got k)"
    "cw_num_processed c' = cw_num_processed c + of_bool (\<exists>k. p' = Slot k \<and> p = Got k)"
proof -
  have cnt: "total_attempts (incr_outstanding s) = total_attempts s"
    "total_attempts (snd (decr_outstanding s)) = total_attempts s" for s
    by (simp_all add: total_attempts_def)
  have fin: "total_attempts s' = total_attempts (cw_store c)"
    if "with_entry k (finish_entry terminal reason) (cw_store c) = (r, s')" for k terminal reason r s'
    unfolding with_finish_map [OF that] by (rule total_update_same) (simp add: finish_entry_def)
  from w show "total_attempts (cw_store c') + pending p' =
    total_attempts (cw_store c) + pending p + of_bool (\<exists>k. p' = Slot k \<and> p = Got k)"
  proof (cases rule: wstep.cases)
    case (begin_attempt k n)
    then have "k \<in># active_keys (cw_store c)" using ap by (simp add: apart_def)
    from active_member [OF this so] obtain x where x: "lookup (cw_store c) k = Some x" by blast
    have "attempts_of x < max_attempts st" using informedD [OF i _ x] begin_attempt by simp
    then have "unat (attempts_of x + 1) = unat (attempts_of x) + 1"
      by (rule unat_succ)
    then show ?thesis using total_update [OF x, of attempt_begun] begin_attempt
      by (auto simp: start_attempt_eq)
  next
    case (local_entry f k n)
    then show ?thesis using total_update_same [of "cw_store c" k f] by (simp add: entry_local_def)
  next
    case (finish_passive k terminal reason r s a)
    then show ?thesis using fin by (cases a) auto
  next
    case (finish_count prior s a)
    then show ?thesis using cnt(2) [of "cw_store c"] by (cases a) auto
  next
    case (finish_last a)
    then show ?thesis by (cases a) simp_all
  qed (auto simp: total_update_same set_state_def reserve_slot_fields send_key_store cnt total_frontier fin)
  from w show "cw_num_processed c' = cw_num_processed c + of_bool (\<exists>k. p' = Slot k \<and> p = Got k)"
    by (cases rule: wstep.cases) (auto simp: start_simps send_key_def split: prod.splits)
qed


text \<open>The attempts an address has left.\<close>

definition spare :: "settings \<Rightarrow> node_store \<Rightarrow> addr_key \<Rightarrow> nat" where
  "spare st s k =
     (case lookup s k of Some e \<Rightarrow> unat (max_attempts st) - unat (attempts_of e) | None \<Rightarrow> 0)"

lemma pending_spare:
  assumes e: "entries_ok st c" and i: "informed st c p" and ap: "apart c p" and so: "store_ok (cw_store c)"
  shows "pending p \<le> (\<Sum>k \<in># held p. spare st (cw_store c) k)"
proof -
  have "1 \<le> spare st (cw_store c) k" if "k \<in># held p" "p = Slot k \<or> p = Started k" for k
  proof -
    from ap that(1) have "k \<in># active_keys (cw_store c)" by (auto simp: apart_def)
    from active_member [OF this so] obtain x where x: "lookup (cw_store c) k = Some x" by blast
    have "attempts_of x < max_attempts st"
      using that(2) informedD [OF i that(1) x] e x by (auto simp: entries_ok_def entry_ok_def)
    with x show ?thesis by (simp add: spare_def word_less_nat_alt)
  qed
  then show ?thesis by (cases p) auto
qed

lemma sum_pending_spare:
  assumes "\<forall>(t, p) \<in> set ws. pending p \<le> (\<Sum>k \<in># held p. g k)"
  shows "over_workers pending ws \<le> (\<Sum>k \<in># over_workers held ws. g k)"
  using assms by (induction ws) (auto simp: over_workers_def intro: add_mono)

lemma sum_spare_active:
  assumes "store_ok s"
  shows "(\<Sum>k \<in># active_keys s. spare st s k) \<le> (\<Sum>(k, e)\<leftarrow>ns_map s. unat (max_attempts st) - unat (attempts_of e))"
proof -
  have l: "spare st s k = unat (max_attempts st) - unat (attempts_of e)" if "(k, e) \<in> set (ns_map s)" for k e
    using that assms by (simp add: spare_def store_ok_def)
  have "(\<Sum>k \<in># active_keys s. spare st s k) =
      (\<Sum>(k, e)\<leftarrow>filter (\<lambda>(k, e). is_active e) (ns_map s). spare st s k)"
    by (simp add: active_keys_def split_def comp_def flip: sum_mset_sum_list mset_map mset_filter)
  also have "\<dots> = (\<Sum>(k, e)\<leftarrow>filter (\<lambda>(k, e). is_active e) (ns_map s). unat (max_attempts st) - unat (attempts_of e))"
    using l by (intro arg_cong [of _ _ sum_list] map_cong) auto
  also have "\<dots> \<le> (\<Sum>(k, e)\<leftarrow>ns_map s. unat (max_attempts st) - unat (attempts_of e))"
    by (rule sum_list_filter_le_nat)
  finally show ?thesis .
qed

lemma sum_spare_total:
  assumes "entries_ok st c" "store_ok (cw_store c)"
  shows "total_attempts (cw_store c) +
      (\<Sum>(k, e)\<leftarrow>ns_map (cw_store c). unat (max_attempts st) - unat (attempts_of e)) =
    length (ns_map (cw_store c)) * unat (max_attempts st)"
proof -
  have "attempts_of e \<le> max_attempts st" if "(k, e) \<in> set (ns_map (cw_store c))" for k e
    using that assms by (auto simp: entries_ok_def entry_ok_def store_ok_def)
  then have "\<forall>(k, e) \<in> set (ns_map (cw_store c)). unat (attempts_of e) \<le> unat (max_attempts st)"
    by (auto simp: word_le_nat_alt)
  moreover have "(\<Sum>(k, e)\<leftarrow>xs. unat (attempts_of e)) + (\<Sum>(k, e)\<leftarrow>xs. m - unat (attempts_of e)) = length xs * m"
    if "\<forall>(k, e) \<in> set xs. unat (attempts_of e) \<le> m" for xs :: "(addr_key \<times> node_entry) list" and m
    using that by (induction xs) auto
  ultimately show ?thesis unfolding total_attempts_def by blast
qed

lemma turns_bound:
  assumes inv: "crawl_inv st (c, ws)"
  shows "turns c ws \<le> max_turns st"
proof -
  have b: "balanced st (c, ws)" and e: "entries_ok st c" and i: "\<forall>(t, p) \<in> set ws. informed st c p"
    using inv by (auto simp: crawl_inv_def consistent_def)
  have so: "store_ok (cw_store c)" and mx: "ns_max_entries (cw_store c) = st_max_addresses st"
    using b by (auto simp: balanced_def)
  let ?g = "spare st (cw_store c)"
  have "over_workers pending ws \<le> (\<Sum>k \<in># over_workers held ws. ?g k)"
    using pending_spare [OF e _ balanced_apart [OF b] so] i by (intro sum_pending_spare) blast
  also have "\<dots> \<le> (\<Sum>k \<in># active_keys (cw_store c). ?g k)"
  proof -
    have q: "active_keys (cw_store c) = mset (queued (cw_queues c)) + over_workers held ws"
      using b by (simp add: balanced_def)
    show ?thesis unfolding q by simp
  qed
  also note sum_spare_active [OF so, of st]
  finally have "turns c ws \<le> length (ns_map (cw_store c)) * unat (max_attempts st)"
    using sum_spare_total [OF e so] by (simp add: turns_def)
  also have "\<dots> \<le> max_turns st"
    using so mx by (simp add: max_turns_def store_ok_def word_le_nat_alt)
  finally show ?thesis .
qed


subsection \<open>A measure of the work left\<close>

text \<open>
  Lexicographically: the turns left, the addresses that may still be queued for the first time, the
  active addresses, and how far the workers are from the end of their loop, where a queued address
  counts like the wait for it.
\<close>

definition room :: "node_store \<Rightarrow> nat" where
  "room s = unat (ns_max_entries s) - length (ns_map s) + count_state s StaleDiscarded"

fun rank :: "pc \<Rightarrow> nat" where
  "rank Exited = 0"
| "rank AtRecv = 1"
| "rank AtLoop = 2"
| "rank (Closing ends) = 3"
| "rank (LastDone a) = 4"
| "rank (Finished a) = 5"
| "rank (Finishing k terminal reason a) = 6"
| "rank (Got k) = 7"
| "rank (Requeueing k terminal reason) = 10"
| "rank (Busy k n) = 11"
| "rank (Started k) = 12"
| "rank (Slot k) = 13"
| "rank (Uncounting k n) = 12"
| "rank (Refused k n a) = 18"
| "rank (Sending k n a) = 19"
| "rank (Counting k n a) = 20"

lemma room_update:
  assumes "\<And>e. lookup s k = Some e \<Longrightarrow> (ne_state (f e) = StaleDiscarded) = (ne_state e = StaleDiscarded)"
  shows "room (update_entry k f s) = room s"
proof -
  have "length (ns_map (update_entry k f s)) = length (ns_map s)"
    by (auto simp: update_entry_eq length_update_old split: option.splits)
  moreover have "count_state (update_entry k f s) StaleDiscarded = count_state s StaleDiscarded"
    using assms by (simp add: count_state_entries es.cnt_upd_same)
  ultimately show ?thesis by (simp add: room_def)
qed

lemma room_insert_old:
  assumes "lookup s k = Some e0"
  shows "room (insert_entry k e s) + of_bool (ne_state e0 = StaleDiscarded) = room s + of_bool (ne_state e = StaleDiscarded)"
  using es.cnt_ins_old [OF assms, of "\<lambda>_ e. ne_state e = StaleDiscarded" e] assms
  by (simp add: room_def count_state_entries insert_entry_def length_update_old)

lemma room_insert_new:
  assumes r: "reserve_entry s = (True, s1)" and so: "store_ok s" and k: "lookup s k = None"
  shows "room (insert_entry k e s1) + 1 = room s + of_bool (ne_state e = StaleDiscarded)"
proof -
  from r have lt: "ns_entries s < ns_max_entries s" and m: "ns_map s1 = ns_map s" "ns_max_entries s1 = ns_max_entries s"
    by (auto simp: reserve_entry_def split: if_splits)
  have "length (ns_map s) < unat (ns_max_entries s)" using so lt by (simp add: store_ok_def word_less_nat_alt)
  moreover have "count_state (insert_entry k e s1) StaleDiscarded = count_state s StaleDiscarded + of_bool (ne_state e = StaleDiscarded)"
    using es.cnt_ins_new [of s1 k "\<lambda>_ e. ne_state e = StaleDiscarded" e] k m
    by (simp add: count_state_entries count_entries_def)
  moreover have "length (ns_map (insert_entry k e s1)) = Suc (length (ns_map s))"
    using k m by (simp add: insert_entry_def length_update_new)
  ultimately show ?thesis using m(2) by (simp add: room_def)
qed

lemma room_frontier:
  assumes "frontier_upsert a ts net thr now s = (out, s')" "store_ok s"
  shows "room s' + of_bool (out = Enqueue) = room s"
proof (cases "lookup s a")
  case (Some e)
  with assms(1) show ?thesis
    by (auto simp: frontier_upsert_def Let_def split: if_splits dest: room_insert_old
        [of s a e "e\<lparr>freshest_ts := max (freshest_ts e) ts\<rparr>"] room_insert_old
        [of s a e "e\<lparr>freshest_ts := max (freshest_ts e) ts, ne_state := Queued\<rparr>"])
next
  case None
  obtain b s1 where r: "reserve_entry s = (b, s1)" by fastforce
  show ?thesis
  proof (cases b)
    case True
    with r have "reserve_entry s = (True, s1)" by simp
    from room_insert_new [OF this assms(2) None, of "node_entry_new net ts StaleDiscarded"]
      room_insert_new [OF this assms(2) None, of "node_entry_new net ts Queued"] assms(1) None this show ?thesis
      by (auto simp: frontier_upsert_def node_entry_new_def split: if_splits)
  next
    case False
    with r have r': "reserve_entry s = (False, s1)" by simp
    from reserve_entry_False [OF r'] have "room s1 = room s" by (simp add: room_def count_state_def)
    with assms(1) None r' show ?thesis by (auto simp: frontier_upsert_def split: if_splits)
  qed
qed

lemma wstep_room:
  assumes w: "wstep cr st t (c, p) (c', p')" and tk: "terminal_ok p" and ap: "apart c p"
    and so: "store_ok (cw_store c)"
  shows "room (cw_store c') + of_bool (\<exists>k n a. p = Busy k n \<and> p' = Counting k n a) = room (cw_store c)"
proof -
  have act: "ne_state e \<noteq> StaleDiscarded" if "k \<in># held p" "lookup (cw_store c) k = Some e" for k e
    using that ap active_member [OF _ so, of k] by (force simp: apart_def is_active_def)
  have cnt: "room (incr_outstanding s) = room s" "room (snd (decr_outstanding s)) = room s" for s
    by (simp_all add: room_def count_state_def incr_outstanding_def decr_outstanding_def)
  have fin: "room s' = room (cw_store c)"
    if "with_entry k (finish_entry terminal reason) (cw_store c) = (r, s')" "k \<in># held p"
      "terminal \<noteq> StaleDiscarded" for k terminal reason r s'
    unfolding with_finish_map [OF that(1)]
    using act that(2,3) by (intro room_update) (auto simp: finish_entry_def)
  from w show ?thesis
  proof (cases rule: wstep.cases)
    case (local_entry f k n)
    then show ?thesis using room_update [of "cw_store c" k f] by (simp add: entry_local_def)
  next
    case (frontier_known a ts net now out s k n)
    then show ?thesis using room_frontier [OF frontier_known(4) so] by simp
  next
    case (frontier_new a ts net now s k n)
    then show ?thesis using room_frontier [OF frontier_new(4) so] by simp
  next
    case (discard_key k n a)
    then show ?thesis using room_update [of "cw_store c" a "set_state BudgetDiscarded"] act [of a]
      by (simp add: set_state_def)
  next
    case (finish_active k terminal reason s a)
    then show ?thesis using fin [OF finish_active(4)] tk by simp
  next
    case (finish_passive k terminal reason r s a)
    then show ?thesis using fin [OF finish_passive(4)] tk by simp
  next
    case (finish_count prior s a)
    then show ?thesis using cnt(2) [of "cw_store c"] by auto
  qed (use act in \<open>auto simp: room_update set_state_def start_simps send_key_store cnt\<close>)
qed


lemma rank_after: "rank (after_pc a) < 4" "size (held (after_pc a)) = 0"
  by (cases a; simp)+

lemma length_send: "send_key u k c = (b, c') \<Longrightarrow>
    length (queued (cw_queues c')) = length (queued (cw_queues c)) + of_bool b"
  using arg_cong [OF send_key_True(4), of u k c c' size] send_key_False(1) [of u k c c'] by (cases b) auto

lemma wstep_rank:
  assumes w: "wstep cr st t (c, p) (c', p')" and tk: "terminal_ok p" and so: "store_ok (cw_store c)"
    and h: "held p \<subseteq># active_keys (cw_store c)"
  defines "n \<equiv> length (queued (cw_queues c))" and "n' \<equiv> length (queued (cw_queues c'))"
    and "m \<equiv> size (active_keys (cw_store c))" and "m' \<equiv> size (active_keys (cw_store c'))"
  shows "(p' = p \<and> m' = m \<and> n' = n) \<or>
    (\<exists>k. p = Got k \<and> p' = Slot k) \<or> (\<exists>k n a. p = Busy k n \<and> p' = Counting k n a) \<or>
    m' < m \<or> (m' = m \<and> 7 * n' + rank p' < 7 * n + rank p)"
proof -
  have q: "n' + size (held p') + m = n + size (held p) + m'"
    using arg_cong [OF wstep_active [OF w so tk h], of size] by (simp add: n_def n'_def m_def m'_def)
  have r: "queue_recv (queue_of t (cw_queues c)) = (Received k, z) \<Longrightarrow>
      length (queued (cw_queues c)) = Suc (length (queued (set_queue t z (cw_queues c))))" for k z
    using arg_cong [OF recv_key(1), of t c k z size] by simp
  from w show ?thesis
  proof (cases rule: wstep.cases)
    case (recv_got k z)
    with r [OF recv_got(4)] q show ?thesis by (simp add: n_def n'_def)
  next
    case (send_taken a k x)
    with length_send [OF send_taken(3)] q show ?thesis by (simp add: n_def n'_def)
  next
    case (send_refused a k x)
    with length_send [OF send_refused(3)] q show ?thesis by (simp add: n_def n'_def)
  next
    case (requeue_taken k terminal reason)
    with length_send [OF requeue_taken(3)] q show ?thesis by (simp add: n_def n'_def)
  next
    case (requeue_refused k terminal reason)
    with length_send [OF requeue_refused(3)] q show ?thesis by (simp add: n_def n'_def)
  next
    case (finish_passive k terminal reason rr s a)
    with q rank_after [of a] show ?thesis by (simp add: n_def n'_def)
  next
    case (finish_count prior s a)
    with q rank_after [of a] show ?thesis by (auto simp: n_def n'_def)
  next
    case (finish_last a)
    with q rank_after [of a] show ?thesis by (simp add: n_def n'_def)
  qed (use q in \<open>auto simp: n_def n'_def start_simps\<close>)
qed

definition work :: "settings \<Rightarrow> crawler \<times> (transport \<times> pc) list \<Rightarrow> nat \<times> nat \<times> nat \<times> nat" where
  "work st = (\<lambda>(c, ws). (max_turns st - turns c ws, room (cw_store c), size (active_keys (cw_store c)),
     7 * length (queued (cw_queues c)) + over_workers rank ws))"

abbreviation less_work :: "((nat \<times> nat \<times> nat \<times> nat) \<times> (nat \<times> nat \<times> nat \<times> nat)) set" where
  "less_work \<equiv> less_than <*lex*> less_than <*lex*> less_than <*lex*> less_than"

lemma less_work_wf: "wf less_work"
  by (intro wf_lex_prod wf_less_than)

text \<open>A step that moves a worker leaves less work, and no step leaves more.\<close>

lemma worker_step_work:
  assumes inv: "crawl_inv st (c, ws)" and run: "runnable st"
    and i: "i < length ws" "ws ! i = (t, p)" and w: "wstep cr st t (c, p) (c', p')"
  shows "(p' = p \<and> work st (c', ws[i := (t, p')]) = work st (c, ws)) \<or>
    (work st (c', ws[i := (t, p')]), work st (c, ws)) \<in> less_work"
proof -
  have m: "(t, p) \<in> set ws" using i nth_mem by force
  have b: "balanced st (c, ws)" and e: "entries_ok st c" and inf: "informed st c p"
    using inv m by (auto simp: crawl_inv_def consistent_def)
  have so: "store_ok (cw_store c)" and tk: "terminal_ok p" using b m by (auto simp: balanced_def)
  note ap = balanced_apart [OF b m] and h = balanced_held [OF b m]
  have inv': "crawl_inv st (c', ws[i := (t, p')])"
    using crawl_inv_step [OF worker_step [OF i w] inv run] .
  note bound = turns_bound [OF inv']
  have tn: "turns c' (ws[i := (t, p')]) = turns c ws + of_bool (\<exists>k. p' = Slot k \<and> p = Got k)"
    using wstep_turns(1) [OF w e inf ap so] over_workers_update [OF i, of pending p']
    by (simp add: turns_def)
  note rm = wstep_room [OF w tk ap so]
  have rk: "over_workers rank (ws[i := (t, p')]) + rank p = over_workers rank ws + rank p'"
    using over_workers_update [OF i, of rank p'] .
  from wstep_rank [OF w tk so h] consider
      "p' = p" "size (active_keys (cw_store c')) = size (active_keys (cw_store c))"
        "length (queued (cw_queues c')) = length (queued (cw_queues c))"
    | k where "p = Got k" "p' = Slot k"
    | k n a where "p = Busy k n" "p' = Counting k n a"
    | "size (active_keys (cw_store c')) < size (active_keys (cw_store c))"
    | "size (active_keys (cw_store c')) = size (active_keys (cw_store c))"
        "7 * length (queued (cw_queues c')) + rank p' < 7 * length (queued (cw_queues c)) + rank p"
    by blast
  then show ?thesis
  proof cases
    case 1
    then have "work st (c', ws[i := (t, p')]) = work st (c, ws)"
      using tn rm rk by (cases p) (auto simp: work_def)
    with 1 show ?thesis by blast
  next
    case 2
    then have "max_turns st - turns c' (ws[i := (t, p')]) < max_turns st - turns c ws"
      using tn bound by simp
    then show ?thesis by (simp add: work_def)
  next
    case 3
    then have "room (cw_store c') < room (cw_store c)" "turns c' (ws[i := (t, p')]) = turns c ws"
      using tn rm by auto
    then show ?thesis by (simp add: work_def)
  next
    case 4
    then show ?thesis using tn rm bound by (auto simp: work_def)
  next
    case 5
    then have "7 * length (queued (cw_queues c')) + over_workers rank (ws[i := (t, p')]) <
        7 * length (queued (cw_queues c)) + over_workers rank ws"
      using rk by linarith
    with 5 show ?thesis using tn rm bound by (auto simp: work_def)
  qed
qed

lemma crawl_step_work:
  assumes "crawl_step cr st x y" "crawl_inv st x" "runnable st"
  shows "(work st y, work st x) \<in> less_work \<or> (work st y = work st x \<and> snd y = snd x)"
  using assms(1)
proof cases
  case (worker_step i ws t p c c' p')
  have "ws[i := (t, p)] = ws" using worker_step(3,4) by (metis list_update_id)
  with worker_step_work [OF _ assms(3) worker_step(3,4,5)] assms(2) worker_step(1,2) show ?thesis by auto
qed (simp_all add: work_def turns_def side_update_def)

text \<open>A sequence that never leaves more and strictly less when it changes is constant from some point on.\<close>

lemma eventually_constant:
  assumes wf: "wf r" and step: "\<And>i :: nat. (f (Suc i), f i) \<in> r \<or> (f (Suc i) = f i \<and> g (Suc i) = g i)"
  shows "\<exists>N. \<forall>i \<ge> N. g i = g N"
proof -
  obtain z where z: "z \<in> range f" "\<And>y. (y, z) \<in> r \<Longrightarrow> y \<notin> range f"
    using wfE_min [OF wf, of "f 0" "range f"] by blast
  then obtain N where N: "z = f N" by blast
  have "f i = z \<and> g i = g N" if "i \<ge> N" for i
    using that
  proof (induction rule: dec_induct)
    case base
    then show ?case using N by simp
  next
    case (step i)
    with z(2) assms(2) [of i] show ?case by (metis rangeI)
  qed
  then show ?thesis by blast
qed


subsection \<open>The counter of processed nodes\<close>

definition counted :: "settings \<Rightarrow> crawler \<times> (transport \<times> pc) list \<Rightarrow> bool" where
  "counted st = (\<lambda>(c, ws). cw_num_processed c = word_of_nat (turns c ws) \<and>
     (\<forall>m. st_max_nodes st = Some m \<longrightarrow> cw_num_processed c \<le> m))"

lemma reserve_within:
  assumes "reserve_node_slot st c = (b, c')" "st_max_nodes st = Some m" "cw_num_processed c \<le> m"
  shows "cw_num_processed c' \<le> m"
  using assms by (auto simp: reserve_node_slot_def inc_le split: if_splits)

lemma wstep_within:
  assumes w: "wstep cr st t (c, p) (c', p')" and "st_max_nodes st = Some m" "cw_num_processed c \<le> m"
  shows "cw_num_processed c' \<le> m"
  using w
proof (cases rule: wstep.cases)
  case (slot_free k)
  then show ?thesis using reserve_within assms(2,3) by blast
next
  case (slot_none k)
  then show ?thesis using reserve_within assms(2,3) by blast
qed (use assms(3) in \<open>auto simp: start_attempt_eq send_key_def split: prod.splits\<close>)

lemma counted_step:
  assumes "crawl_step cr st x y" "crawl_inv st x" "counted st x"
  shows "counted st y"
  using assms(1)
proof cases
  case (worker_step i ws t p c c' p')
  then have m: "(t, p) \<in> set ws" using nth_mem by force
  have inv: "crawl_inv st (c, ws)" using assms(2) worker_step by simp
  have b: "balanced st (c, ws)" and e: "entries_ok st c" and i: "informed st c p"
    using inv m by (auto simp: crawl_inv_def consistent_def)
  have so: "store_ok (cw_store c)" using b by (simp add: balanced_def)
  note wt = wstep_turns [OF worker_step(5) e i balanced_apart [OF b m] so]
  have "turns c' (ws[i := (t, p')]) = turns c ws + of_bool (\<exists>k. p' = Slot k \<and> p = Got k)"
    using wt(1) over_workers_update [OF worker_step(3,4), of pending p'] by (simp add: turns_def)
  with wt(2) assms(3) worker_step wstep_within [OF worker_step(5)] show ?thesis
    by (auto simp: counted_def)
qed (use assms in \<open>auto simp: counted_def turns_def side_update_def\<close>)

lemma counted_init: "seeds_ok st c \<Longrightarrow> counted st (run_start c, spawn_workers st)"
proof -
  assume ok: "seeds_ok st c"
  have "attempts_of e = 0" if "(k, e) \<in> set (ns_map (cw_store c))" for k e
  proof -
    have "lookup (cw_store c) k = Some e" using that ok by (simp add: seeds_ok_def seeds_placed_def store_ok_def)
    with ok have "seed_entry e" unfolding seeds_ok_def seeds_placed_def by blast
    then show ?thesis by (simp add: seed_entry_fields stats_default_def)
  qed
  then have "total_attempts (cw_store c) = 0" by (auto simp: total_attempts_def)
  with ok show ?thesis by (simp add: counted_def turns_def over_spawn run_start_def seeds_ok_def seeds_placed_def)
qed

lemma crawl_reach_counted: "crawl_reach cr st x \<Longrightarrow> runnable st \<Longrightarrow> counted st x"
  by (erule crawl_runs.invariant_under [where I = "counted st" and J = "crawl_inv st", OF _ crawl_reach_inv])
    (auto simp: crawl_start_def intro: counted_init seeded_ok counted_step)

subsection \<open>Which workers can move\<close>

lemma wstep_enabled:
  assumes no: "\<nexists>c' p'. wstep cr st t (c, p) (c', p')"
  shows "p = Exited \<or> (p = AtRecv \<and> \<not> q_closed (queue_of t (cw_queues c)) \<and> q_items (queue_of t (cw_queues c)) = [])"
proof (cases p)
  case AtLoop
  with no loop_exit loop_recv show ?thesis by metis
next
  case AtRecv
  let ?q = "queue_of t (cw_queues c)"
  have r: "queue_recv ?q \<noteq> (Received k, q)" for k q using no AtRecv recv_got by metis
  have cl: "queue_recv ?q \<noteq> (QueueClosed, q)" for q using no AtRecv recv_closed by metis
  show ?thesis
  proof (cases "q_items ?q")
    case Nil
    with cl [of ?q] AtRecv show ?thesis by (auto simp: queue_recv_def)
  next
    case (Cons a as)
    with r [of a "?q\<lparr>q_items := as\<rparr>"] show ?thesis by (simp add: queue_recv_def)
  qed
next
  case (Got k)
  obtain b c' where "reserve_node_slot st c = (b, c')" by fastforce
  with no Got slot_free slot_none show ?thesis by (metis (full_types))
next
  case (Started k)
  obtain n c' where "start_attempt k c = (n, c')" by fastforce
  with no Started begin_attempt show ?thesis by metis
next
  case (Sending k n a)
  obtain b c' where "send_key (network_transport (key_network cr c a)) a c = (b, c')" by fastforce
  with no Sending send_taken send_refused show ?thesis by (metis (full_types))
next
  case (Requeueing k terminal reason)
  obtain b c' where "send_key t k c = (b, c')" by fastforce
  with no Requeueing requeue_taken requeue_refused show ?thesis by (metis (full_types))
next
  case (Finishing k terminal reason a)
  obtain r s where "with_entry k (finish_entry terminal reason) (cw_store c) = (r, s)" by fastforce
  with no Finishing finish_active finish_passive show ?thesis by metis
next
  case (Finished a)
  obtain prior s where "decr_outstanding (cw_store c) = (prior, s)" by fastforce
  with no Finished finish_count show ?thesis by metis
qed (use no begin_node local_side count_work discard_key uncount finish_last close_work in \<open>metis\<close>)+

end
