(* ===== verification/Crawl_Props.thy ===== *)
theory Crawl_Props
  imports Crawl_Live
begin

section \<open>Properties of the crawl, for every interleaving of its workers\<close>

text \<open>
  The invariants of the step relation, stated for reachable states, with a small crawl as their witness:
  one worker, one seed, one attempt.
\<close>

subsection \<open>A crawl of one address\<close>

definition solo_settings :: settings where
  "solo_settings =
     \<lparr>st_version_info = \<lparr>vi_version = PKG_VERSION, vi_extra = None\<rparr>, st_delay_start = 0,
      st_max_nodes = Some 1, st_max_addresses = 1,
      st_enabled_networks = \<lparr>en_ipv4 = True, en_ipv6 = False, en_tor = False, en_i2p = False, en_cjdns = False\<rparr>,
      st_strict_networks = False, st_freshness_threshold = 0, st_record_addr_responses = False,
      st_concurrency = \<lparr>cc_ip = 1, cc_tor = 0, cc_i2p = 0\<rparr>,
      st_node_settings =
        \<lparr>ns_timeouts = \<lparr>ts_ip = ca_ip_timeouts common_defaults, ts_tor = ca_tor_timeouts common_defaults,
           ts_i2p = ca_i2p_timeouts common_defaults, ts_cjdns = ca_cjdns_timeouts common_defaults\<rparr>,
         ns_handshake_attempts = 1,
         ns_endpoints = \<lparr>tor_proxy_host = [], tor_proxy_port = 0, i2p_sam_host = [], i2p_sam_port = 0\<rparr>\<rparr>,
      st_result_settings =
        \<lparr>rs_path = [], rs_timestamp = [], rs_reachable_nodes = [], rs_handshake_failed_nodes = [],
         rs_unreachable_nodes = [], rs_crawler_stats = [], rs_addr_responses = []\<rparr>,
      st_dry_run = False, st_log_level = [], st_store_debug_log = False, st_retry_on_timeout = False,
      st_checkpoint_interval = 0, st_probe_mode = False\<rparr>"

lemma solo_runnable: "runnable solo_settings"
proof -
  have "workers_for solo_settings t \<le> 4096" for t
    by (cases t) (simp_all add: solo_settings_def workers_for_def)
  moreover have "0 < workers_for solo_settings (network_transport net)" if "is_enabled solo_settings net" for net
    using that by (cases net) (simp_all add: solo_settings_def workers_for_def is_enabled_def)
  moreover have "st_max_addresses solo_settings = 1" "ns_handshake_attempts (st_node_settings solo_settings) = 1"
    by (simp_all add: solo_settings_def)
  moreover have "(1 :: usize) \<le> 2 ^ 63" by code_simp
  ultimately show ?thesis unfolding runnable_def settings_ok_def by simp
qed

definition solo_key :: addr_key where
  "solo_key = \<lparr>ak_host = ''1.2.3.4'', ak_port = 8333\<rparr>"

lemma solo_classify: "classify rfc4648_crates (ak_host solo_key) = Ipv4"
proof -
  have "strip_suffix ''.onion'' ''1.2.3.4'' = None" "strip_suffix ''.b32.i2p'' ''1.2.3.4'' = None"
    by code_simp+
  moreover have "is_ipv4_dotted ''1.2.3.4''"
    by (simp add: is_ipv4_dotted_def is_ipv4_part_def is_ascii_digit_def digit_of_def parse_unsigned_def)
  ultimately show ?thesis by (simp add: classify_def solo_key_def)
qed

definition solo_entry :: "node_state \<Rightarrow> node_entry" where
  "solo_entry state = node_entry_new Ipv4 5 state"

text \<open>The states of the one worker's run.\<close>

definition solo :: "node_entry \<Rightarrow> bool \<Rightarrow> usize \<Rightarrow> usize \<Rightarrow> bool \<Rightarrow> crawler" where
  "solo e waiting outstanding processed over =
     \<lparr>cw_store = \<lparr>ns_map = [(solo_key, e)], ns_outstanding = outstanding, ns_entries = 1, ns_max_entries = 1,
        ns_budget_rejected = 0\<rparr>,
      cw_queues = \<lparr>qs_ip = \<lparr>q_items = (if waiting then [solo_key] else []), q_capacity = 1, q_closed = over\<rparr>,
        qs_tor = \<lparr>q_items = [], q_capacity = 1, q_closed = over\<rparr>,
        qs_i2p = \<lparr>q_items = [], q_capacity = 1, q_closed = over\<rparr>\<rparr>,
      cw_num_processed = processed, cw_sam = None, cw_addr_log = None, cw_shutdown = False,
      cw_node_limit_reached = False, cw_worker_failed = False, cw_output_failed = False\<rparr>"

lemma solo_seeded: "seeded rfc4648_crates solo_settings (solo (solo_entry Queued) True 1 0 False)"
proof -
  let ?c = "crawler_new (with_limit (st_max_addresses solo_settings)) solo_settings None"
  have "seeded rfc4648_crates solo_settings (seed_key rfc4648_crates 5 solo_key ?c)"
    by (intro seed_one seed_none) (simp add: solo_classify, simp add: solo_settings_def is_enabled_def)
  moreover have "seed_key rfc4648_crates 5 solo_key ?c = solo (solo_entry Queued) True 1 0 False"
    by (simp add: seed_key_def observe_seed_def crawler_new_def with_limit_def solo_settings_def
        reserve_entry_def insert_entry_def solo_classify enqueue_seed_def enqueue_def key_network_def
        network_of_def node_entry_new_def send_key_def incr_outstanding_def queues_new_def queue_bounded_def
        try_send_def solo_def solo_entry_def Let_def)
  ultimately show ?thesis by simp
qed

lemma solo_spawn: "spawn_workers solo_settings = [(TransportIp, AtLoop)]"
  by (simp add: spawn_workers_def solo_settings_def workers_for_def)

lemma solo_start:
  "crawl_reach rfc4648_crates solo_settings (solo (solo_entry Queued) True 1 0 False, [(TransportIp, AtLoop)])"
proof -
  have "run_start (solo (solo_entry Queued) True 1 0 False) = solo (solo_entry Queued) True 1 0 False"
    by (simp add: run_start_def solo_def)
  with reach_init [OF solo_seeded] show ?thesis by (simp add: solo_spawn)
qed

lemma solo_step:
  "crawl_reach cr st (c, [(t, p)]) \<Longrightarrow> wstep cr st t (c, p) (c', p') \<Longrightarrow> crawl_reach cr st (c', [(t, p')])"
  using reach_step [of cr st "(c, [(t, p)])" "(c', [(t, p')])"] worker_step [of 0 "[(t, p)]" t p cr st c c' p']
  by simp

definition solo_busy :: node_entry where
  "solo_busy = attempt_begun (solo_entry Processing)"

definition solo_failed :: node_entry where
  "solo_failed = solo_busy\<lparr>ne_state := HandshakeFailed, ne_failure := Some HandshakeTimeout\<rparr>"

lemma solo_reach_busy:
  "crawl_reach rfc4648_crates solo_settings (solo solo_busy False 1 1 False, [(TransportIp, Busy solo_key 1)])"
proof -
  have "crawl_reach rfc4648_crates solo_settings (solo (solo_entry Queued) True 1 0 False, [(TransportIp, AtRecv)])"
    by (rule solo_step [OF solo_start loop_recv]) (simp add: solo_def)
  moreover have "wstep rfc4648_crates solo_settings TransportIp (solo (solo_entry Queued) True 1 0 False, AtRecv)
      (solo (solo_entry Queued) False 1 0 False, Got solo_key)"
    using recv_got [of TransportIp "solo (solo_entry Queued) True 1 0 False"]
    by (simp add: solo_def queue_recv_def)
  ultimately have "crawl_reach rfc4648_crates solo_settings
      (solo (solo_entry Queued) False 1 0 False, [(TransportIp, Got solo_key)])"
    by (rule solo_step)
  then have "crawl_reach rfc4648_crates solo_settings
      (solo (solo_entry Queued) False 1 1 False, [(TransportIp, Slot solo_key)])"
    by (rule solo_step) (rule slot_free, simp add: reserve_node_slot_def solo_settings_def solo_def)
  moreover have "on_entry solo_key (set_state Processing) (solo (solo_entry Queued) False 1 1 False) =
      solo (solo_entry Processing) False 1 1 False"
    by (simp add: on_entry_def update_entry_eq solo_def set_state_def solo_entry_def node_entry_new_def)
  ultimately have "crawl_reach rfc4648_crates solo_settings
      (solo (solo_entry Processing) False 1 1 False, [(TransportIp, Started solo_key)])"
    by (metis solo_step begin_node)
  then show ?thesis
    by (rule solo_step) (rule begin_attempt, simp add: start_attempt_eq on_entry_def update_entry_eq solo_def
        solo_busy_def solo_entry_def node_entry_new_def stats_default_def)
qed

lemma solo_reach_end:
  "crawl_reach rfc4648_crates solo_settings (solo solo_failed False 0 1 True, [(TransportIp, Exited)])"
proof -
  let ?r = "Some HandshakeTimeout"
  have "crawl_reach rfc4648_crates solo_settings
      (solo solo_busy False 1 1 False, [(TransportIp, Finishing solo_key HandshakeFailed ?r GoOn)])"
    by (rule solo_step [OF solo_reach_busy give_verdict]) (simp add: verdict_entry solo_def)
  moreover have "wstep rfc4648_crates solo_settings TransportIp
      (solo solo_busy False 1 1 False, Finishing solo_key HandshakeFailed ?r GoOn)
      (solo solo_failed False 1 1 False, Finished GoOn)"
  proof -
    have "with_entry solo_key (finish_entry HandshakeFailed ?r) (cw_store (solo solo_busy False 1 1 False)) =
        (Some True, cw_store (solo solo_failed False 1 1 False))"
      by (simp add: with_entry_def finish_entry_def is_active_def solo_def solo_failed_def solo_busy_def
          solo_entry_def node_entry_new_def)
    from finish_active [OF this] show ?thesis by (simp add: solo_def)
  qed
  ultimately have "crawl_reach rfc4648_crates solo_settings
      (solo solo_failed False 1 1 False, [(TransportIp, Finished GoOn)])"
    by (rule solo_step)
  moreover have "wstep rfc4648_crates solo_settings TransportIp
      (solo solo_failed False 1 1 False, Finished GoOn) (solo solo_failed False 0 1 False, LastDone GoOn)"
    using finish_count [of "solo solo_failed False 1 1 False"] by (simp add: solo_def decr_outstanding_def)
  ultimately have "crawl_reach rfc4648_crates solo_settings
      (solo solo_failed False 0 1 False, [(TransportIp, LastDone GoOn)])"
    by (rule solo_step)
  moreover have "wstep rfc4648_crates solo_settings TransportIp
      (solo solo_failed False 0 1 False, LastDone GoOn) (solo solo_failed False 0 1 True, AtLoop)"
    using finish_last [of _ _ _ "solo solo_failed False 0 1 False" GoOn]
    by (simp add: solo_def close_queues_def close_all_def queue_close_def)
  ultimately have "crawl_reach rfc4648_crates solo_settings
      (solo solo_failed False 0 1 True, [(TransportIp, AtLoop)])"
    by (rule solo_step)
  then have "crawl_reach rfc4648_crates solo_settings
      (solo solo_failed False 0 1 True, [(TransportIp, AtRecv)])"
    by (rule solo_step) (rule loop_recv, simp add: solo_def)
  then show ?thesis
    by (rule solo_step) (rule recv_closed, simp add: solo_def queue_recv_def)
qed

subsection \<open>The properties\<close>

text \<open>C2: In every reachable state, each address with work left is in exactly one place, a queue or a
  worker, no other address is queued or held, and \<open>outstanding\<close> is the number of these addresses,
  up to what the workers are just counting.\<close>

theorem one_place_per_address:
  assumes "crawl_reach cr st (c, ws)" "runnable st"
  shows "(\<forall>k. count (mset (queued (cw_queues c)) + over_workers held ws) k =
        of_bool (\<exists>e. lookup (cw_store c) k = Some e \<and> is_active e)) \<and>
    unat (ns_outstanding (cw_store c)) + over_workers not_yet_counted ws =
      length (filter (\<lambda>(k, e). is_active e) (snapshot (cw_store c))) + over_workers still_counted ws"
proof -
  have b: "balanced st (c, ws)" using crawl_reach_inv [OF assms] by (simp add: crawl_inv_def)
  then have so: "store_ok (cw_store c)"
    and q: "mset (queued (cw_queues c)) + over_workers held ws = active_keys (cw_store c)"
    and n: "unat (ns_outstanding (cw_store c)) + over_workers not_yet_counted ws =
      size (active_keys (cw_store c)) + over_workers still_counted ws"
    by (simp_all add: balanced_def)
  have "count (active_keys (cw_store c)) k = of_bool (\<exists>e. lookup (cw_store c) k = Some e \<and> is_active e)" for k
  proof (cases "\<exists>e. lookup (cw_store c) k = Some e \<and> is_active e")
    case True
    then obtain e where e: "lookup (cw_store c) k = Some e" "is_active e" by blast
    have "0 < count (active_keys (cw_store c)) k"
      using es.cnt_pos [OF e(1), of "\<lambda>x e. x = k \<and> is_active e"] e(2) by (simp add: count_active_keys)
    with active_distinct [OF so, of k] have "count (active_keys (cw_store c)) k = 1" by linarith
    with True show ?thesis by simp
  next
    case False
    with active_member [OF _ so, of k] have "k \<notin># active_keys (cw_store c)" by blast
    with False show ?thesis by (simp add: not_in_iff)
  qed
  moreover have "size (active_keys (cw_store c)) = length (filter (\<lambda>(k, e). is_active e) (snapshot (cw_store c)))"
    by (simp add: active_keys_def snapshot_def flip: mset_filter)
  ultimately show ?thesis using q n by simp
qed

lemma one_place_per_address_witness:
  "count (mset (queued (cw_queues (solo solo_busy False 1 1 False))) + over_workers held [(TransportIp, Busy solo_key 1)])
     solo_key = of_bool (\<exists>e. lookup (cw_store (solo solo_busy False 1 1 False)) solo_key = Some e \<and> is_active e)"
  using one_place_per_address [OF solo_reach_busy solo_runnable, THEN conjunct1] by blast

text \<open>C10: The queues are closed only when no address has work left, or the crawl ends early because of
  Ctrl+C, the node limit or a failed worker: no work is lost because the last piece of it was miscounted.\<close>

theorem queues_close_when_done:
  assumes "crawl_reach cr st (c, ws)" "runnable st" "q_closed (queue_of t (cw_queues c))"
  shows "terminated_early c \<or> (\<forall>k e. lookup (cw_store c) k = Some e \<longrightarrow> \<not> is_active e)"
proof -
  have wc: "well_closed (c, ws)" using crawl_reach_inv [OF assms(1,2)] by (simp add: crawl_inv_def)
  then have "closed c" using assms(3) by (simp add: well_closed_def closed_queue)
  moreover have "\<not> is_active e" if "lookup (cw_store c) k = Some e" "idle c" for k e
    using es.cnt_pos [OF that(1), of "\<lambda>x e. x = k \<and> is_active e"] that(2)
    by (auto simp: count_active_keys [symmetric])
  ultimately show ?thesis using wc by (auto simp: well_closed_def)
qed

lemma queues_close_when_done_witness:
  "q_closed (queue_of TransportIp (cw_queues (solo solo_failed False 0 1 True))) \<and>
   \<not> terminated_early (solo solo_failed False 0 1 True) \<and> \<not> is_active solo_failed"
proof -
  have c: "q_closed (queue_of TransportIp (cw_queues (solo solo_failed False 0 1 True)))"
    "\<not> terminated_early (solo solo_failed False 0 1 True)"
    "lookup (cw_store (solo solo_failed False 0 1 True)) solo_key = Some solo_failed"
    by (simp_all add: solo_def terminated_early_def)
  with queues_close_when_done [OF solo_reach_end solo_runnable c(1)] show ?thesis by blast
qed

text \<open>What a finished address says: it was reached and its handshake recorded, or it connected or was tried
  and failed, or never connected, or was too old to be tried.\<close>

definition settled :: "node_entry \<Rightarrow> bool" where
  "settled e \<longleftrightarrow>
     (case ne_state e of
        Reachable \<Rightarrow> ne_handshake e \<noteq> None
      | HandshakeFailed \<Rightarrow> True
      | Unreachable \<Rightarrow> time_connect_ms (ne_stats e) = None
      | StaleDiscarded \<Rightarrow> attempts_of e = 0
      | _ \<Rightarrow> False)"

lemma settled_when_over:
  assumes "crawl_reach cr st (c, ws)" "runnable st" "\<forall>(t, p) \<in> set ws. p = Exited" "\<not> terminated_early c"
  shows "ns_outstanding (cw_store c) = 0 \<and> queued (cw_queues c) = [] \<and>
    (\<forall>k e. lookup (cw_store c) k = Some e \<longrightarrow> settled e)"
proof -
  have inv: "crawl_inv st (c, ws)" by (rule crawl_reach_inv [OF assms(1,2)])
  then have b: "balanced st (c, ws)" and wc: "well_closed (c, ws)" and e: "entries_ok st c" and sf: "staffed st c"
    by (auto simp: crawl_inv_def consistent_def)
  have nd: "ne_state e \<noteq> BudgetDiscarded" if "lookup (cw_store c) k = Some e" for k e
    using crawl_reach_none_dropped [OF assms(1,2)] that assms(4) by (auto simp: none_dropped_def)
  have z: "over_workers g ws = 0" if "g Exited = 0" for g :: "pc \<Rightarrow> 'x::comm_monoid_add"
    using that assms(3) by (intro over_workers_zero) auto
  have q: "mset (queued (cw_queues c)) = active_keys (cw_store c)"
    and n: "unat (ns_outstanding (cw_store c)) = size (active_keys (cw_store c))"
    using b z [of held] z [of still_counted] z [of not_yet_counted] by (simp_all add: balanced_def)
  have idle: "idle c"
  proof (cases ws)
    case Nil
    have "q_items (queue_of t (cw_queues c)) = []" for t
      using sf Nil b spawned [of t st] by (force simp: staffed_def balanced_def)
    from this [of TransportIp] this [of TransportTor] this [of TransportI2p]
    have "queued (cw_queues c) = []" by (simp add: queued_def)
    with q show ?thesis by simp
  next
    case (Cons w ws')
    then obtain t where "(t, Exited) \<in> set ws" using assms(3) by (cases w) auto
    with wc assms(4) have "closed c" by (force simp: well_closed_def worker_closing_def terminated_early_def)
    with wc assms(4) show ?thesis by (simp add: well_closed_def)
  qed
  have "settled x" if x: "lookup (cw_store c) k = Some x" for k x
  proof -
    have "\<not> is_active x"
      using es.cnt_pos [OF x, of "\<lambda>y e. y = k \<and> is_active e"] idle
      by (auto simp: count_active_keys [symmetric])
    with nd [OF x] e x show ?thesis
      by (auto simp: settled_def is_active_def entries_ok_def entry_ok_def split: node_state.splits)
  qed
  moreover have "ns_outstanding (cw_store c) = 0"
    using n idle by (simp add: unsigned_eq_0_iff)
  ultimately show ?thesis using q idle by simp
qed

text \<open>C1: When all workers have returned and the crawl did not end early, the work is done: nothing is
  outstanding, no queue holds an address, and every address the store knows has its verdict; none was
  dropped for want of room in a queue.\<close>

theorem crawl_completes:
  assumes "crawl_reach cr st (c, ws)" "runnable st" "\<forall>(t, p) \<in> set ws. p = Exited" "\<not> terminated_early c"
  shows "ns_outstanding (cw_store c) = 0 \<and> queued (cw_queues c) = [] \<and>
    (\<forall>k e. lookup (cw_store c) k = Some e \<longrightarrow> settled e)"
  using settled_when_over [OF assms] .

lemma crawl_completes_witness: "settled solo_failed \<and> ns_outstanding (cw_store (solo solo_failed False 0 1 True)) = 0"
proof -
  have "\<not> terminated_early (solo solo_failed False 0 1 True)"
    "lookup (cw_store (solo solo_failed False 0 1 True)) solo_key = Some solo_failed"
    by (simp_all add: solo_def terminated_early_def)
  with crawl_completes [OF solo_reach_end solo_runnable] show ?thesis by simp
qed


text \<open>C11: Entries are well typed: in every reachable state an address the store knows is of an enabled network
  and within its attempts, and its state says what its data are. A queued one has an attempt left, a
  reachable one has the peer's handshake, an unreachable one has never connected, a stale one was never
  tried, and none is dropped for want of room unless the crawl ends early.\<close>

theorem entries_well_typed:
  assumes "crawl_reach cr st (c, ws)" "runnable st" "lookup (cw_store c) k = Some e"
  shows "is_enabled st (ne_network e) \<and> attempts_of e \<le> max_attempts st \<and>
    (case ne_state e of
       Queued \<Rightarrow> attempts_of e < max_attempts st
     | Reachable \<Rightarrow> ne_handshake e \<noteq> None
     | Unreachable \<Rightarrow> time_connect_ms (ne_stats e) = None
     | StaleDiscarded \<Rightarrow> attempts_of e = 0
     | BudgetDiscarded \<Rightarrow> terminated_early c
     | _ \<Rightarrow> True)"
proof -
  have "entry_ok st e"
    using crawl_reach_inv [OF assms(1,2)] assms(3) by (auto simp: crawl_inv_def consistent_def entries_ok_def)
  moreover have "ne_state e \<noteq> BudgetDiscarded \<or> terminated_early c"
    using crawl_reach_none_dropped [OF assms(1,2)] assms(3) by (auto simp: none_dropped_def)
  ultimately show ?thesis by (auto simp: entry_ok_def split: node_state.splits)
qed

lemma entries_well_typed_witness:
  "is_enabled solo_settings (ne_network solo_failed) \<and> attempts_of solo_failed \<le> max_attempts solo_settings \<and>
     lookup (cw_store (solo solo_failed False 0 1 True)) solo_key = Some solo_failed"
proof -
  have look: "lookup (cw_store (solo solo_failed False 0 1 True)) solo_key = Some solo_failed"
    by (simp add: solo_def)
  from entries_well_typed [OF solo_reach_end solo_runnable this] look show ?thesis by blast
qed

text \<open>C9: No worker waits for ever: in a reachable state in which no worker can take a step, with Ctrl+C
  handled if there was one, every worker has returned. A worker that waits on an empty open
  queue is always waiting for another one that can move.\<close>

theorem no_worker_waits_for_ever:
  assumes "crawl_reach cr st (c, ws)" "runnable st"
    and stuck: "\<forall>(t, p) \<in> set ws. \<nexists>c' p'. wstep cr st t (c, p) (c', p')"
    and signal: "cw_shutdown c \<longrightarrow> q_closed (queue_of TransportIp (cw_queues c))"
  shows "\<forall>(t, p) \<in> set ws. p = Exited"
proof (rule ccontr)
  assume "\<not> ?thesis"
  then obtain t p where m: "(t, p) \<in> set ws" "p \<noteq> Exited" by blast
  have inv: "crawl_inv st (c, ws)" by (rule crawl_reach_inv [OF assms(1,2)])
  then have b: "balanced st (c, ws)" and wc: "well_closed (c, ws)" and sf: "staffed st c"
    by (auto simp: crawl_inv_def)
  have pc: "u = Exited \<or> (u = AtRecv \<and> \<not> closed c \<and> q_items (queue_of v (cw_queues c)) = [])"
    if "(v, u) \<in> set ws" for v u
    using wstep_enabled [of cr st v c u] stuck that wc by (auto simp: well_closed_def closed_queue)
  have open_q: "\<not> closed c" using pc [OF m(1)] m(2) by blast
  then have live: "\<not> cw_shutdown c" using signal by (simp add: closed_def)
  have z: "over_workers g ws = 0" if "g Exited = 0" "g AtRecv = 0" for g :: "pc \<Rightarrow> 'x::comm_monoid_add"
    using that pc by (intro over_workers_zero) fastforce
  have "\<not> is_last u" if "(v, u) \<in> set ws" for v u using pc [OF that] by auto
  then have "\<not> idle c" using wc open_q z [of still_counted] by (auto simp: well_closed_def)
  moreover have "mset (queued (cw_queues c)) = active_keys (cw_store c)"
    using b z [of held] by (simp add: balanced_def)
  ultimately have "queued (cw_queues c) \<noteq> []" by auto
  then obtain v where v: "q_items (queue_of v (cw_queues c)) \<noteq> []"
    unfolding queued_def by (metis append_is_Nil_conv queue_of.simps)
  with sf have "0 < workers_for st v" by (simp add: staffed_def)
  then have "v \<in> set (map fst ws)" using b by (simp only: balanced_def prod.case spawned)
  then obtain u where u: "(v, u) \<in> set ws" by auto
  with pc v have "u = Exited" by blast
  moreover have "worker_closing c u" using wc u by (auto simp: well_closed_def)
  ultimately show False using live open_q by (simp add: worker_closing_def)
qed

lemma no_worker_waits_for_ever_witness:
  "\<exists>ws. crawl_reach rfc4648_crates solo_settings (solo solo_failed False 0 1 True, ws) \<and>
     map fst ws = [TransportIp] \<and> map snd ws = [Exited]"
proof -
  have "\<nexists>c' p'. wstep rfc4648_crates solo_settings TransportIp (solo solo_failed False 0 1 True, Exited) (c', p')"
    by (simp add: exited_step)
  moreover have "\<not> cw_shutdown (solo solo_failed False 0 1 True)" by (simp add: solo_def)
  ultimately have "\<forall>(t, p) \<in> set [(TransportIp, Exited)]. p = Exited"
    by (intro no_worker_waits_for_ever [OF solo_reach_end solo_runnable]) auto
  then show ?thesis using solo_reach_end by (intro exI [of _ "[(TransportIp, Exited)]"]) simp
qed

text \<open>C7: The crawl settles: in every run, however long, there is a point after which no worker moves
  any more. Only the conversations with the nodes that are being processed then can still go on; each
  of them is bounded by its deadlines.\<close>

theorem crawl_settles:
  assumes "crawl_reach cr st (run 0)" "runnable st"
    and run: "\<forall>i :: nat. crawl_step cr st (run i) (run (Suc i))"
  shows "\<exists>N. \<forall>i \<ge> N. snd (run i) = snd (run N)"
proof -
  have "crawl_reach cr st (run i)" for i
    by (induction i) (use assms(1) run in \<open>auto intro: reach_step\<close>)
  then have inv: "crawl_inv st (run i)" for i using crawl_reach_inv assms(2) by blast
  show ?thesis
  proof (rule eventually_constant [OF less_work_wf])
    fix i
    show "(work st (run (Suc i)), work st (run i)) \<in> less_work \<or>
        (work st (run (Suc i)) = work st (run i) \<and> snd (run (Suc i)) = snd (run i))"
      using crawl_step_work [OF _ inv assms(2), of cr i "run (Suc i)"] run by blast
  qed
qed

lemma crawl_settles_witness:
  "\<exists>run N. crawl_reach rfc4648_crates solo_settings (run (0 :: nat)) \<and>
     crawl_step rfc4648_crates solo_settings (run N) (run (Suc N)) \<and> snd (run (Suc N)) = snd (run N)"
proof -
  let ?c = "solo solo_busy False 1 1 False" and ?ws = "[(TransportIp, Busy solo_key 1)]"
  have "wstep rfc4648_crates solo_settings TransportIp (?c, Busy solo_key 1) (?c, Busy solo_key 1)"
    using local_side [of rfc4648_crates solo_settings TransportIp ?c solo_key 1 None None False]
    by (simp add: side_update_def solo_def)
  then have step: "\<forall>i :: nat. crawl_step rfc4648_crates solo_settings (?c, ?ws) (?c, ?ws)"
    using worker_step [of 0 ?ws TransportIp "Busy solo_key 1"] by fastforce
  define run where "run = (\<lambda>_ :: nat. (?c, ?ws))"
  have r: "crawl_reach rfc4648_crates solo_settings (run 0)"
    "\<forall>i :: nat. crawl_step rfc4648_crates solo_settings (run i) (run (Suc i))"
    using solo_reach_busy step by (simp_all add: run_def)
  from crawl_settles [OF r(1) solo_runnable r(2)] obtain N where "snd (run (Suc N)) = snd (run N)"
    by (meson le_SucI le_refl)
  with r show ?thesis by blast
qed

text \<open>C12: The crawl processes at most \<open>max_addresses\<close> times \<open>handshake_attempts\<close> nodes, counting every
  attempt, and with \<open>max_nodes\<close> set never more than that; no address is tried more often
  than the limit.\<close>

theorem processing_bounded:
  assumes "crawl_reach cr st (c, ws)" "runnable st"
  shows "(\<exists>n \<le> unat (st_max_addresses st) * unat (max_attempts st). cw_num_processed c = word_of_nat n) \<and>
    (\<forall>m. st_max_nodes st = Some m \<longrightarrow> cw_num_processed c \<le> m) \<and>
    (\<forall>k e. lookup (cw_store c) k = Some e \<longrightarrow> attempts_of e \<le> max_attempts st)"
proof -
  have inv: "crawl_inv st (c, ws)" by (rule crawl_reach_inv [OF assms])
  have "entries_ok st c" using inv by (simp add: crawl_inv_def consistent_def)
  with crawl_reach_counted [OF assms] turns_bound [OF inv] show ?thesis
    by (auto simp: counted_def max_turns_def entries_ok_def entry_ok_def)
qed

lemma processing_bounded_witness:
  "cw_num_processed (solo solo_busy False 1 1 False) \<le> 1 \<and> attempts_of solo_busy \<le> 1"
proof -
  have "st_max_nodes solo_settings = Some 1" "max_attempts solo_settings = 1"
    "lookup (cw_store (solo solo_busy False 1 1 False)) solo_key = Some solo_busy"
    by (simp_all add: solo_settings_def solo_def)
  with processing_bounded [OF solo_reach_busy solo_runnable] show ?thesis by metis
qed

end
