(* ===== verification/Conversation.thy ===== *)
theory Conversation
  imports Crawl_Props
begin

section \<open>Every conversation ends (recv_matching, handshake, getaddr and process of src/crawler.rs)\<close>

text \<open>
  The processing of a node returns, in the time its timeouts and its waits give. The code sets no
  timeout for writes, nor for what the workers share: the mutex of the SAM session, the observation barrier,
  the address log. It is assumed that no write blocks for ever and that each of these waits ends; the time
  they take is added to the bound. The measure of the receive loops is the bytes still to come and then
  the time left to the deadline.
\<close>

subsection \<open>The writes of a stream\<close>

text \<open>The time the writes of a script can take, and whether all of them complete or fail.\<close>

fun write_delay :: "write_result \<Rightarrow> nat" where
  "write_delay (WriteOk d) = d"
| "write_delay _ = 0"

definition write_wait :: "tcp_stream \<Rightarrow> nat" where
  "write_wait s = sum_list (map write_delay (ts_writes s))"

definition writes_answered :: "tcp_stream \<Rightarrow> bool" where
  "writes_answered s \<longleftrightarrow> WriteBlocked \<notin> set (ts_writes s)"

abbreviation conn_wait :: "connection \<Rightarrow> nat" where
  "conn_wait c \<equiv> write_wait (conn_stream c)"

abbreviation answered :: "connection \<Rightarrow> bool" where
  "answered c \<equiv> writes_answered (conn_stream c)"

text \<open>The time by which everything written has been accepted, if nothing else takes time.\<close>

abbreviation horizon :: "connection \<Rightarrow> nat" where
  "horizon c \<equiv> conn_now c + conn_wait c"

lemma write_all_answered:
  assumes "write_all bs s = (r, s')" "writes_answered s"
  shows "r \<noteq> None \<and> writes_answered s' \<and> ts_clock s' + write_wait s' \<le> ts_clock s + write_wait s \<and>
    write_wait s' \<le> write_wait s"
  using assms by (auto simp: write_all_def writes_answered_def write_wait_def split: list.splits write_result.splits)

lemma conn_send_answered:
  assumes "conn_send cr cmd p c = (r, c')" "answered c"
  shows "r \<noteq> None \<and> answered c' \<and> horizon c' \<le> horizon c \<and> conn_wait c' \<le> conn_wait c \<and> conn_now c \<le> conn_now c' \<and>
    flow c' = flow c"
proof -
  have "conn_now c \<le> conn_now c' \<and> flow c' = flow c" using conn_send_flow [OF assms(1)] by blast
  with assms show ?thesis
    by (auto simp: conn_send_def dest!: write_all_answered split: sum.splits prod.splits)
qed

lemma answer_ping_answered:
  assumes "answer_ping cr p v c = (r, c')" "answered c"
  shows "r \<noteq> None \<and> answered c' \<and> horizon c' \<le> horizon c \<and> conn_wait c' \<le> conn_wait c \<and> conn_now c \<le> conn_now c' \<and>
    flow c' = flow c"
  using assms by (auto simp: answer_ping_def Let_def dest!: conn_send_answered split: sum.splits if_splits)

subsection \<open>The waits for what the workers share\<close>

text \<open>No worker waits longer than \<open>L\<close> for the SAM session, the barrier or the log.\<close>

definition waits_within :: "env \<Rightarrow> nat \<Rightarrow> bool" where
  "waits_within ev L \<longleftrightarrow> (\<forall>x now. ev_wait ev x now \<le> L)"

lemma conn_pause_answered [simp]:
  "answered (conn_pause d conn) = answered conn" "conn_wait (conn_pause d conn) = conn_wait conn"
  by (simp_all add: writes_answered_def write_wait_def)

lemma observed_pause:
  assumes "waits_within ev L"
  shows "conn_now conn \<le> conn_now (log_pause ev c (barrier_pause ev conn))"
    and "conn_now (log_pause ev c (barrier_pause ev conn)) \<le> conn_now conn + 2 * L"
    and "answered (log_pause ev c (barrier_pause ev conn)) = answered conn"
    and "conn_wait (log_pause ev c (barrier_pause ev conn)) = conn_wait conn"
proof -
  have w: "ev_wait ev x t \<le> L" for x t using assms by (simp add: waits_within_def)
  from w [of ObservationBarrier "conn_now conn"]
    w [of LogWriter "conn_now conn + ev_wait ev ObservationBarrier (conn_now conn)"]
  show "conn_now conn \<le> conn_now (log_pause ev c (barrier_pause ev conn))"
    "conn_now (log_pause ev c (barrier_pause ev conn)) \<le> conn_now conn + 2 * L"
    by (simp_all add: log_pause_def barrier_pause_def)
qed (simp_all add: log_pause_def barrier_pause_def)

subsection \<open>Receiving\<close>

lemma timed_read_writes: "timed_read w n s = (r, s') \<Longrightarrow> ts_writes s' = ts_writes s"
  by (auto simp: timed_read_def stream_read_def split: list.splits prod.splits if_splits read_result.splits)

lemma recv_loop_writes: "ts_writes (conn_stream (snd (recv_loop cr d c))) = ts_writes (conn_stream c)"
proof (induction cr d c rule: recv_loop.induct)
  case (1 cr d c)
  show ?case
    using 1 by (subst recv_loop.simps)
      (auto simp: Let_def recv_push_def dest: timed_read_writes split: sum.splits prod.splits option.splits)
qed

lemma recv_one_answered:
  assumes "recv_one cr w c = (r, c')"
  shows "conn_wait c' = conn_wait c" "answered c' = answered c"
  using recv_loop_writes [of cr "conn_now c + w" c] assms
  by (simp_all add: recv_one_def write_wait_def writes_answered_def)

text \<open>A receive that times out has taken time, and has lost no byte.\<close>

lemma recv_loop_quiet:
  "recv_loop cr d c = (Inr None, c') \<Longrightarrow> conn_now c < d \<Longrightarrow> conn_now c < conn_now c'"
proof (induction c rule: measure_induct_rule [where f = conn_weight])
  case (less c)
  from less.prems(1) show ?case
  proof (cases rule: recv_loop_cases)
    case (quiet w s)
    with timed_read_incoming [OF quiet(3)] show ?thesis by simp
  next
    case (more chunk w s)
    have le: "conn_now c \<le> conn_now (recv_push chunk s c)" using recv_push_time [OF more(2)] by blast
    show ?thesis
    proof (cases "conn_now (recv_push chunk s c) < d")
      case True
      with less.IH [OF more(8,7)] le show ?thesis by simp
    next
      case False
      moreover have "conn_now (recv_push chunk s c) \<le> d"
        using recv_push_time [OF more(2)] more(4) less.prems(2) by linarith
      ultimately show ?thesis using recv_loop_time [OF more(7)] less.prems(2) by simp
    qed
  qed (use less.prems in simp_all)
qed

lemma recv_one_quiet:
  assumes "recv_one cr w c = (Inr None, c')" "0 < w"
  shows "flow c' = flow c" "conn_now c < conn_now c'"
  using recv_loop_flow [of cr "conn_now c + w" c None c'] recv_loop_quiet [of cr "conn_now c + w" c c'] assms
  by (simp_all add: recv_one_def)

text \<open>\<open>recv_matching\<close> returns: a message takes bytes, a quiet receive takes time.\<close>

definition returns_by :: "nat \<Rightarrow> connection \<Rightarrow> ('a \<times> connection) option \<Rightarrow> bool" where
  "returns_by limit c x \<longleftrightarrow>
     (\<exists>r c'. x = Some (r, c') \<and> answered c' \<and> conn_now c \<le> conn_now c' \<and> conn_wait c' \<le> conn_wait c \<and>
        horizon c' \<le> limit)"

lemma returns_byI [intro]:
  "x = Some (r, c') \<Longrightarrow> answered c' \<Longrightarrow> conn_now c \<le> conn_now c' \<Longrightarrow> conn_wait c' \<le> conn_wait c \<Longrightarrow>
     horizon c' \<le> limit \<Longrightarrow> returns_by limit c x"
  by (auto simp: returns_by_def)

lemma returns_by_later:
  "returns_by limit' c' x \<Longrightarrow> conn_now c \<le> conn_now c' \<Longrightarrow> conn_wait c' \<le> conn_wait c \<Longrightarrow> limit' \<le> limit \<Longrightarrow>
     returns_by limit c x"
  by (fastforce simp: returns_by_def)

lemma recv_matching_returns:
  assumes "answered c" "0 < per \<or> deadline \<le> conn_now c"
  shows "returns_by (max (conn_now c) deadline + conn_wait c) c (recv_matching cr ex deadline per pv c)"
  using assms
proof (induction c rule: wf_induct_rule [OF wf_measures [of "[\<lambda>c. length (flow c), \<lambda>c. deadline - conn_now c]"]])
  case (1 c)
  show ?case
  proof (cases "deadline \<le> conn_now c")
    case True
    then show ?thesis using "1.prems" by (subst recv_matching.simps) auto
  next
    case False
    then have per: "0 < per" using "1.prems" by simp
    let ?w = "min (deadline - conn_now c) per"
    obtain r c1 where r: "recv_one cr ?w c = (r, c1)" by fastforce
    have t: "conn_now c \<le> conn_now c1" "conn_now c1 \<le> deadline"
      using recv_one_time [OF r] False by (auto simp: min_def split: if_splits)
    note w = recv_one_answered [OF r]
    have a1: "answered c1" using w "1.prems" by simp
    have next_turn: "returns_by (deadline + conn_wait c) c
        (recv_matching cr ex deadline per pv c2)"
      if "length (flow c2) < length (flow c) \<or>
          length (flow c2) = length (flow c) \<and> conn_now c < conn_now c2"
        "answered c2" "conn_now c1 \<le> conn_now c2" "conn_wait c2 \<le> conn_wait c1" "horizon c2 \<le> horizon c1" for c2
    proof (rule returns_by_later)
      show "returns_by (max (conn_now c2) deadline + conn_wait c2) c2 (recv_matching cr ex deadline per pv c2)"
        using that False per by (intro "1.IH") auto
    qed (use that t w(1) in auto)
    show ?thesis
    proof (cases r)
      case (Inl e)
      then show ?thesis using False r a1 t w(1) by (subst recv_matching.simps) auto
    next
      case (Inr m)
      show ?thesis
      proof (cases m)
        case None
        with recv_one_quiet [of cr ?w c c1] r Inr False per a1
        show ?thesis by (subst recv_matching.simps) (simp add: next_turn)
      next
        case (Some env)
        then have less: "length (flow c1) < length (flow c)" using recv_one_message_flow r Inr by blast
        show ?thesis
        proof (cases "env_command env \<in> set ex")
          case True
          then show ?thesis using False r Inr Some a1 t w(1) by (subst recv_matching.simps) auto
        next
          case unmatched: False
          show ?thesis
          proof (cases "env_command env = ''ping'' \<and> pv \<noteq> None")
            case True
            obtain x c2 where x: "answer_ping cr (env_payload env) (the pv) c1 = (x, c2)" by fastforce
            note ping = answer_ping_answered [OF x a1]
            then obtain y where y: "x = Some y" by auto
            show ?thesis
            proof (cases y)
              case (Inl e)
              with True False unmatched r \<open>r = Inr m\<close> Some x y ping t w(1) show ?thesis
                by (subst recv_matching.simps) auto
            next
              case (Inr u)
              with True False unmatched r \<open>r = Inr m\<close> Some x y ping less show ?thesis
                by (subst recv_matching.simps) (simp add: next_turn)
            qed
          next
            case no_ping: False
            with False unmatched r Inr Some
            have "recv_matching cr ex deadline per pv c = recv_matching cr ex deadline per pv c1"
              by (subst recv_matching.simps) auto
            with next_turn [of c1] a1 less False show ?thesis by simp
          qed
        qed
      qed
    qed
  qed
qed

text \<open>
  The loop of \<open>getaddr\<close> ends, too: it looks at its deadline before each receive, so it passes it by the
  waits of one message at most.
\<close>

lemma getaddr_loop_returns:
  assumes "answered conn" "waits_within ev L"
  shows "\<exists>o' conn' c'. getaddr_loop cr ev st key hs d i v conn c = Some (o', conn', c') \<and> answered conn' \<and>
    conn_now conn \<le> conn_now conn' \<and> horizon conn' \<le> max (conn_now conn) (d + 2 * L) + conn_wait conn"
  using assms(1)
proof (induction conn arbitrary: v c rule: measure_induct_rule [where f = "\<lambda>conn. length (flow conn)"])
  case (less conn)
  show ?case
  proof (cases "d \<le> conn_now conn")
    case True
    then show ?thesis using less.prems by (subst getaddr_loop.simps) auto
  next
    case False
    let ?w = "min (d - conn_now conn) i" and ?lim = "max (conn_now conn) (d + 2 * L) + conn_wait conn"
    obtain r conn1 where r: "recv_one cr ?w conn = (r, conn1)" by fastforce
    have t: "conn_now conn \<le> conn_now conn1" "conn_now conn1 \<le> d"
      using recv_one_time [OF r] False by (auto simp: min_def split: if_splits)
    note w = recv_one_answered [OF r]
    have a1: "answered conn1" using w less.prems by simp
    have ok: "horizon conn2 \<le> ?lim" if "conn_now conn2 \<le> d + 2 * L" "conn_wait conn2 \<le> conn_wait conn" for conn2
      using that by linarith
    have next_turn: "\<exists>o' conn' c'. getaddr_loop cr ev st key hs d i v' conn2 c2 = Some (o', conn', c') \<and>
        answered conn' \<and> conn_now conn \<le> conn_now conn' \<and> horizon conn' \<le> ?lim"
      if "r = Inr (Some env)" "flow conn2 = flow conn1" "answered conn2" "conn_now conn1 \<le> conn_now conn2"
        "conn_wait conn2 \<le> conn_wait conn1" "horizon conn2 \<le> conn_now conn1 + 2 * L + conn_wait conn1"
      for env conn2 v' c2
    proof -
      have "length (flow conn2) < length (flow conn)"
        using recv_one_message_flow r that(1,2) by metis
      from less.IH [OF this that(3), of v' c2] obtain o' conn' c' where
        "getaddr_loop cr ev st key hs d i v' conn2 c2 = Some (o', conn', c')" "answered conn'"
        "conn_now conn2 \<le> conn_now conn'" "horizon conn' \<le> max (conn_now conn2) (d + 2 * L) + conn_wait conn2"
        by blast
      moreover have "max (conn_now conn2) (d + 2 * L) + conn_wait conn2 \<le> ?lim"
        using that(5,6) t w(1) by linarith
      ultimately show ?thesis using that(4) t(1) by (meson le_trans)
    qed
    have base: "answered conn1 \<and> conn_now conn \<le> conn_now conn1 \<and> horizon conn1 \<le> ?lim"
      using a1 t ok [of conn1] w(1) by simp
    show ?thesis
    proof (cases "\<exists>env. r = Inr (Some env)")
      case no: False
      then show ?thesis using False r base
        by (cases r; cases "projr r") (subst getaddr_loop.simps, auto)+
    next
      case True
      then obtain env where env: "r = Inr (Some env)" by blast
      consider (addr) "env_command env = ''addr'' \<or> env_command env = ''addrv2''"
        | (ping) "env_command env = ''ping''" "env_command env \<noteq> ''addr''" "env_command env \<noteq> ''addrv2''"
        | (other) "env_command env \<noteq> ''ping''" "env_command env \<noteq> ''addr''" "env_command env \<noteq> ''addrv2''"
        by blast
      then show ?thesis
      proof cases
        case addr
        let ?conn2 = "log_pause ev c (barrier_pause ev conn1)"
        note p = observed_pause [OF assms(2), where conn = conn1 and c = c]
        have ended: "answered ?conn2 \<and> conn_now conn \<le> conn_now ?conn2 \<and> horizon ?conn2 \<le> ?lim"
          using p a1 t w(1) ok [of ?conn2] by simp
        have go: "\<exists>o' conn' c'. getaddr_loop cr ev st key hs d i v' ?conn2 c2 = Some (o', conn', c') \<and>
            answered conn' \<and> conn_now conn \<le> conn_now conn' \<and> horizon conn' \<le> ?lim" for v' c2
          using p a1 by (intro next_turn [OF env]) simp_all
        show ?thesis using addr False r env ended go
          by (subst getaddr_loop.simps) (auto simp: Let_def split: sum.splits prod.splits bool.splits)
      next
        case ping
        obtain x conn2 where x: "answer_ping cr (env_payload env) (hd_version hs) conn1 = (x, conn2)" by fastforce
        note pong = answer_ping_answered [OF x a1]
        then have ended: "answered conn2 \<and> conn_now conn \<le> conn_now conn2 \<and> horizon conn2 \<le> ?lim"
          using base by (meson le_trans)
        have go: "\<exists>o' conn' c'. getaddr_loop cr ev st key hs d i v' conn2 c2 = Some (o', conn', c') \<and>
            answered conn' \<and> conn_now conn \<le> conn_now conn' \<and> horizon conn' \<le> ?lim" for v' c2
          using pong by (intro next_turn [OF env]) simp_all
        from pong obtain y where "x = Some y" by auto
        then show ?thesis using ping False r env x ended go
          by (subst getaddr_loop.simps) (auto split: sum.splits)
      next
        case other
        have go: "\<exists>o' conn' c'. getaddr_loop cr ev st key hs d i v conn1 c = Some (o', conn', c') \<and>
            answered conn' \<and> conn_now conn \<le> conn_now conn' \<and> horizon conn' \<le> ?lim"
          using a1 by (intro next_turn [OF env]) simp_all
        then show ?thesis using other False r env
          by (subst getaddr_loop.simps) auto
      qed
    qed
  qed
qed

subsection \<open>Connecting\<close>

text \<open>An operation on a stream that only uses up its script of writes.\<close>

definition calm :: "'a stream_op \<Rightarrow> bool" where
  "calm m \<longleftrightarrow> (\<forall>s. write_wait (snd (m s)) \<le> write_wait s \<and>
     (writes_answered s \<longrightarrow> writes_answered (snd (m s))) \<and> ts_clock s \<le> ts_clock (snd (m s)))"

lemma calm_return [intro]: "calm (stream_return a)" "calm (stream_fail e)"
  by (simp_all add: calm_def stream_return_def stream_fail_def)

lemma calm_write [intro]: "calm (write_all bs)"
  unfolding calm_def
  by (auto simp: write_all_def writes_answered_def write_wait_def split: list.splits write_result.splits)

lemma calm_same_writes:
  assumes "\<And>s. ts_writes (snd (m s)) = ts_writes s" "\<And>s. ts_clock s \<le> ts_clock (snd (m s))"
  shows "calm m"
  using assms by (simp add: calm_def write_wait_def writes_answered_def)

lemma stream_read_writes: "ts_writes (snd (stream_read n s)) = ts_writes s"
  by (auto simp: stream_read_def split: list.splits prod.splits read_result.splits)

lemma read_exact_writes: "ts_writes (snd (read_exact n s)) = ts_writes s"
proof (induction n s rule: read_exact.induct)
  case (1 n s)
  then show ?case using stream_read_writes [of n s]
    by (subst read_exact.simps) (auto split: prod.splits option.splits sum.splits)
qed

lemma calm_read [intro]: "calm (read_exact n)"
  by (rule calm_same_writes) (rule read_exact_writes read_exact_clock)+

lemma sam_line_writes:
  "ts_writes (snd (sam_line_loop line s)) = ts_writes s \<and> ts_clock s \<le> ts_clock (snd (sam_line_loop line s))"
proof (induction line s rule: sam_line_loop.induct)
  case (1 line s)
  then show ?case using stream_read_writes [of 1 s] stream_read_clock [of s 1]
    by (subst (1 2) sam_line_loop.simps) (fastforce split: prod.splits option.splits sum.splits)
qed

lemma calm_line [intro]: "calm sam_read_line"
  unfolding sam_read_line_def by (rule calm_same_writes) (use sam_line_writes in blast)+

lemma calm_then [intro]:
  assumes "calm m" "\<And>a. calm (f a)"
  shows "calm (stream_then m f)"
  unfolding calm_def
proof
  fix s
  obtain r s1 where m: "m s = (r, s1)" by fastforce
  with assms(1) have 1: "write_wait s1 \<le> write_wait s" "writes_answered s \<longrightarrow> writes_answered s1" "ts_clock s \<le> ts_clock s1"
    unfolding calm_def by (metis snd_conv)+
  show "write_wait (snd (stream_then m f s)) \<le> write_wait s \<and>
      (writes_answered s \<longrightarrow> writes_answered (snd (stream_then m f s))) \<and> ts_clock s \<le> ts_clock (snd (stream_then m f s))"
  proof (cases "\<exists>a. r = Some (Inr a)")
    case True
    then obtain a where "r = Some (Inr a)" by blast
    with m have "stream_then m f s = f a s1" by (simp add: stream_then_def)
    moreover have "write_wait (snd (f a s1)) \<le> write_wait s1 \<and>
        (writes_answered s1 \<longrightarrow> writes_answered (snd (f a s1))) \<and> ts_clock s1 \<le> ts_clock (snd (f a s1))"
      using assms(2) [of a] unfolding calm_def by blast
    ultimately show ?thesis using 1 by auto
  next
    case False
    with m have "snd (stream_then m f s) = s1" by (auto simp: stream_then_def split: option.splits sum.splits)
    with 1 show ?thesis by simp
  qed
qed

lemma calm_if [intro]: "calm m \<Longrightarrow> calm n \<Longrightarrow> calm (if b then m else n)"
  by simp

lemmas calm_intros = calm_return calm_write calm_read calm_line calm_then calm_if

lemma calm_socks5 [intro]: "calm socks5_greeting" "calm (socks5_connect host port)"
  unfolding socks5_greeting_def socks5_connect_def by (intro calm_intros)+

lemma calm_sam [intro]: "calm (sam_exchange cmd kind failed)" "calm sam_hello"
  unfolding sam_hello_def sam_exchange_def by (intro calm_intros)+

text \<open>
  The streams the network opens answer every write, within a total time, and the waits for what the
  workers share end.
\<close>

definition answering_env :: "env \<Rightarrow> nat \<Rightarrow> nat \<Rightarrow> bool" where
  "answering_env ev W L \<longleftrightarrow>
     (\<forall>target now d s. ev_dial ev target now = Some (d, Inr s) \<longrightarrow> writes_answered s \<and> write_wait s \<le> W) \<and>
     waits_within ev L"

lemma answering_waits: "answering_env ev W L \<Longrightarrow> ev_wait ev x now \<le> L"
  by (simp add: answering_env_def waits_within_def)

definition opened :: "nat \<Rightarrow> tcp_stream \<Rightarrow> nat \<Rightarrow> bool" where
  "opened W s fin \<longleftrightarrow> ts_clock s = fin \<and> writes_answered s \<and> write_wait s \<le> W"

lemma dial_opened:
  assumes "answering_env ev W L" "dial (ev_dial ev) target now = (Some (Inr s), fin)"
  shows "opened W s fin"
  using assms by (fastforce simp: dial_def opened_def answering_env_def write_wait_def writes_answered_def
      split: option.splits prod.splits sum.splits)

lemma dial_then_time:
  assumes "calm m"
  shows "now \<le> snd (dial_then net target now m)"
proof (cases "\<exists>s. fst (dial net target now) = Some (Inr s)")
  case True
  then obtain s where s: "dial net target now = (Some (Inr s), snd (dial net target now))" by (metis prod.collapse)
  then have "now \<le> ts_clock s" by (auto simp: dial_def split: option.splits prod.splits sum.splits)
  also have "ts_clock s \<le> ts_clock (snd (m s))" using assms by (simp add: calm_def)
  finally show ?thesis using s
    by (subst dial_then_def) (auto split: prod.splits option.splits sum.splits)
next
  case False
  then have "snd (dial_then net target now m) = snd (dial net target now)"
    by (auto simp: dial_then_def split: prod.splits option.splits sum.splits)
  then show ?thesis using dial_time by metis
qed

lemma dial_then_opened:
  assumes "answering_env ev W L" "calm m" "dial_then (ev_dial ev) target now m = (Some (Inr s'), fin)"
  shows "opened W s' fin"
proof -
  obtain s f where d: "dial (ev_dial ev) target now = (Some (Inr s), f)" and s': "s' = snd (m s)" "fin = ts_clock s'"
    using assms(3) by (fastforce simp: dial_then_def split: prod.splits option.splits sum.splits)
  from dial_opened [OF assms(1) d] assms(2) s' show ?thesis by (fastforce simp: opened_def calm_def)
qed

lemma under_deadline_bounds:
  "now \<le> snd r \<Longrightarrow> now \<le> snd (under_deadline t msg now r) \<and> snd (under_deadline t msg now r) \<le> now + t"
  by (cases r) (auto simp: under_deadline_def split: option.splits)

definition connect_turns :: "network_type \<Rightarrow> nat" where
  "connect_turns net = (if net = I2p then 2 else 1)"

text \<open>How often connecting waits for the mutex of the SAM session.\<close>

definition connect_waits :: "network_type \<Rightarrow> nat" where
  "connect_waits net = (if net = I2p then 2 else 0)"

text \<open>An attempt under a deadline: it ends in time, and a stream it returns is one the network opened.\<close>

lemma attempt_opened:
  assumes "answering_env ev W L" "calm m"
    and "under_deadline t msg now (dial_then (ev_dial ev) target now m) = (r, fin)"
  shows "now \<le> fin \<and> fin \<le> now + t \<and> (\<forall>s. r = Inr s \<longrightarrow> opened W s fin)"
proof -
  have "now \<le> fin \<and> fin \<le> now + t"
    using under_deadline_bounds [OF dial_then_time [OF assms(2)], of now t msg "ev_dial ev" target] assms(3)
    by simp
  moreover have "opened W s fin" if "r = Inr s" for s
    using assms(3) dial_then_opened [OF assms(1,2), of target now s fin] unfolding that under_deadline_Inr by blast
  ultimately show ?thesis by blast
qed

lemma tcp_opened:
  assumes "answering_env ev W L" "connect_tcp (ev_dial ev) host port t now = (r, fin)"
  shows "now \<le> fin \<and> fin \<le> now + t \<and> (\<forall>s. r = Inr s \<longrightarrow> opened W s fin)"
proof (cases "parse_ip host")
  case None
  with assms(2) show ?thesis by (auto simp: connect_tcp_def)
next
  case (Some ip)
  let ?d = "dial (ev_dial ev) (SockAddr ip port) now"
  have u: "under_deadline t ''tcp connect timed out'' now ?d = (r, fin)"
    using assms(2) Some by (simp add: connect_tcp_def)
  have "now \<le> fin \<and> fin \<le> now + t"
    using under_deadline_bounds [OF dial_time, of now t "''tcp connect timed out''" "ev_dial ev" "SockAddr ip port"] u
    by simp
  moreover have "opened W s fin" if "r = Inr s" for s
    using u dial_opened [OF assms(1), of "SockAddr ip port" now s fin] unfolding that under_deadline_Inr by blast
  ultimately show ?thesis by blast
qed

lemma socks5_opened:
  assumes "answering_env ev W L" "connect_socks5 (ev_dial ev) ph pp host port t now = (r, fin)"
  shows "now \<le> fin \<and> fin \<le> now + t \<and> (\<forall>s. r = Inr s \<longrightarrow> opened W s fin)"
  using assms(2) unfolding connect_socks5_def by (rule attempt_opened [OF assms(1), rotated]) blast

lemma sam_connect_opened:
  assumes "answering_env ev W L" "sam_connect (ev_dial ev) session host t now = (r, fin)"
  shows "now \<le> fin \<and> fin \<le> now + t \<and> (\<forall>s. r = Inr s \<longrightarrow> opened W s fin)"
  using assms(2) unfolding sam_connect_def by (rule attempt_opened [OF assms(1), rotated]) blast

lemma sam_session_time:
  assumes "answering_env ev W L" "sam_session_get ev st t now c = (r, fin, c')"
  shows "now \<le> fin \<and> fin \<le> now + L + t"
proof -
  let ?now = "now + ev_wait ev SamLock now"
  have "?now \<le> fin \<and> fin \<le> ?now + t"
  proof (cases "cw_sam c")
    case (Some session)
    with assms(2) show ?thesis by (simp add: sam_session_get_def)
  next
    case None
    let ?ns = "ns_endpoints (st_node_settings st)"
    obtain x fin' where x: "sam_create (ev_dial ev) (i2p_sam_host ?ns) (i2p_sam_port ?ns) (ev_sam_id ev ?now) t ?now =
        (x, fin')" by fastforce
    then have "fin = fin'" using None assms(2) by (auto simp: sam_session_get_def Let_def split: sum.splits)
    moreover have "?now \<le> fin' \<and> fin' \<le> ?now + t"
      using x unfolding sam_create_def Let_def
      by (auto split: prod.splits sum.splits dest!: attempt_opened [OF assms(1), rotated])
    ultimately show ?thesis by simp
  qed
  with answering_waits [OF assms(1), of SamLock now] show ?thesis by linarith
qed

lemma connect_opened:
  assumes "answering_env ev W L" "connect ev st key net t now c = (r, fin, c')"
  shows "now \<le> fin \<and> fin \<le> now + connect_turns net * t + connect_waits net * L \<and>
    (\<forall>conn. r = Inr conn \<longrightarrow> opened W (conn_stream conn) fin)"
proof -
  have wrap: ?thesis
    if "(map_sum id connection_new x, f, c) = (r, fin, c')" "net \<noteq> I2p"
      "now \<le> f \<and> f \<le> now + t \<and> (\<forall>s. x = Inr s \<longrightarrow> opened W s f)" for x f
    using that by (cases x) (auto simp: connect_turns_def connect_waits_def connection_new_def)
  let ?ns = "ns_endpoints (st_node_settings st)"
  obtain xt ft where tcp: "connect_tcp (ev_dial ev) (ak_host key) (ak_port key) t now = (xt, ft)" by fastforce
  obtain xs fs where socks: "connect_socks5 (ev_dial ev) (tor_proxy_host ?ns) (tor_proxy_port ?ns) (ak_host key)
      (ak_port key) t now = (xs, fs)" by fastforce
  consider "net = Ipv4 \<or> net = Ipv6 \<or> net = Cjdns" | "net = OnionV2 \<or> net = OnionV3" | "net = I2p" | "net = Unknown"
    by (cases net) auto
  then show ?thesis
  proof cases
    case 1
    then show ?thesis using assms(2) tcp wrap [of xt ft] tcp_opened [OF assms(1) tcp]
      by (auto simp: connect_def Let_def)
  next
    case 2
    then show ?thesis using assms(2) socks wrap [of xs fs] socks5_opened [OF assms(1) socks]
      by (auto simp: connect_def Let_def)
  next
    case 3
    obtain so f1 c1 where so: "sam_session_get ev st t now c = (so, f1, c1)" by (metis prod_cases3)
    note t1 = sam_session_time [OF assms(1) so]
    show ?thesis
    proof (cases so)
      case None
      with 3 so t1 assms(2) show ?thesis
        by (auto simp: connect_def Let_def connect_turns_def connect_waits_def)
    next
      case (Some session)
      obtain x f2 where x: "sam_connect (ev_dial ev) session (ak_host key) t f1 = (x, f2)" by fastforce
      note wt = answering_waits [OF assms(1), of SamLock f2]
      note x' = sam_connect_opened [OF assms(1) x]
      show ?thesis
      proof (cases x)
        case (Inr s)
        with x' 3 so Some x t1 assms(2) show ?thesis
          by (auto simp: connect_def Let_def connect_turns_def connect_waits_def connection_new_def)
      next
        case (Inl e)
        with x' wt 3 so Some x t1 assms(2) show ?thesis
          by (auto simp: connect_def Let_def connect_turns_def connect_waits_def split: if_splits)
      qed
    qed
  next
    case 4
    then show ?thesis using assms(2) by (auto simp: connect_def Let_def)
  qed
qed

subsection \<open>The handshake and the collection of addresses\<close>

text \<open>A step of a conversation that returns on the given connection by the given time, whatever else it yields.\<close>

definition ends_by :: "nat \<Rightarrow> connection \<Rightarrow> ('a \<times> connection \<times> 'b) option \<Rightarrow> bool" where
  "ends_by limit c x \<longleftrightarrow>
     (\<exists>r c' y. x = Some (r, c', y) \<and> answered c' \<and> conn_now c \<le> conn_now c' \<and> horizon c' \<le> limit)"

lemma ends_by_Some [simp]:
  "ends_by limit c (Some (r, c', y)) \<longleftrightarrow> answered c' \<and> conn_now c \<le> conn_now c' \<and> horizon c' \<le> limit"
  by (auto simp: ends_by_def)

lemma send_cases:
  assumes "answered c"
  obtains r c' where "conn_send cr cmd p c = (Some r, c')" "answered c'" "horizon c' \<le> horizon c"
    "conn_now c \<le> conn_now c'" "conn_wait c' \<le> conn_wait c"
proof -
  obtain x c' where x: "conn_send cr cmd p c = (x, c')" by fastforce
  from conn_send_answered [OF x assms] x that show ?thesis by auto
qed

lemma recv_cases:
  assumes "answered c" "0 < per \<or> deadline \<le> conn_now c"
  obtains r c' where "recv_matching cr ex deadline per pv c = Some (r, c')" "answered c'"
    "horizon c' \<le> max (conn_now c) deadline + conn_wait c" "conn_now c \<le> conn_now c'"
    "conn_wait c' \<le> conn_wait c"
  using recv_matching_returns [OF assms, of cr ex pv] by (auto simp: returns_by_def)

lemma handshake_ends:
  assumes "answered c0"
  shows "ends_by (horizon c0 + 1000 * unat (to_message tos)) c0 (handshake cr ev key tos c0 c)"
proof -
  let ?per = "1000 * unat (to_message tos)" and ?start = "conn_now c0"
  have slack: "0 < ?per \<or> ?start + ?per \<le> conn_now x" if "?start \<le> conn_now x" for x
    using that by auto
  obtain r1 c1 where s1: "conn_send cr ''version'' (build_version (ev_epoch ev ?start) (ev_nonce ev ?start)) c0 = (Some r1, c1)"
    and p1: "answered c1" "horizon c1 \<le> horizon c0" "?start \<le> conn_now c1" "conn_wait c1 \<le> conn_wait c0"
    by (rule send_cases [OF assms])
  show ?thesis
  proof (cases r1)
    case (Inl e)
    with s1 p1 show ?thesis by (simp add: handshake_def Let_def)
  next
    case (Inr u1)
    obtain r2 c2 where s2: "recv_matching cr [''version''] (?start + ?per) ?per None c1 = Some (r2, c2)"
      and p2: "answered c2" "horizon c2 \<le> max (conn_now c1) (?start + ?per) + conn_wait c1" "conn_now c1 \<le> conn_now c2"
        "conn_wait c2 \<le> conn_wait c1"
      by (rule recv_cases [OF p1(1) slack [OF p1(3)]])
    have h2: "horizon c2 \<le> horizon c0 + ?per" "?start \<le> conn_now c2" using p1 p2 by auto
    note first = s1 Inr s2
    consider "r2 = RecvTimeout" | e where "r2 = RecvTransport e"
      | env where "r2 = RecvMessage env" "parse_version (env_payload env) = None"
      | env v where "r2 = RecvMessage env" "parse_version (env_payload env) = Some v"
      by (cases r2) fastforce+
    then show ?thesis
    proof cases
      case 4
      define x where "x = (if min (vd_version v) PROTOCOL_VERSION \<ge> 70016
          then conn_send cr ''sendaddrv2'' [] c2 else (Some (Inr ()), c2))"
      obtain r3 c3 where s3: "x = (Some r3, c3)"
        and p3: "answered c3" "horizon c3 \<le> horizon c2" "conn_now c2 \<le> conn_now c3"
          "conn_wait c3 \<le> conn_wait c2"
        by (cases "min (vd_version v) PROTOCOL_VERSION \<ge> 70016")
          (use send_cases [OF p2(1), of cr "''sendaddrv2''" "[]"] p2(1) in \<open>auto simp: x_def\<close>)
      show ?thesis
      proof (cases r3)
        case (Inl e)
        with first 4 s3 [unfolded x_def] p3 h2 show ?thesis by (simp add: handshake_def Let_def)
      next
        case r3: (Inr u3)
        obtain r4 c4 where s4: "conn_send cr ''verack'' [] c3 = (Some r4, c4)"
          and p4: "answered c4" "horizon c4 \<le> horizon c3" "conn_now c3 \<le> conn_now c4"
            "conn_wait c4 \<le> conn_wait c3"
          by (rule send_cases [OF p3(1)])
        show ?thesis
        proof (cases r4)
          case (Inl e)
          with first 4 s3 [unfolded x_def] r3 s4 p3 p4 h2 show ?thesis by (simp add: handshake_def Let_def)
        next
          case r4: (Inr u4)
          have "?start \<le> conn_now c4" using h2 p3 p4 by simp
          from slack [OF this] obtain r5 c5 where
            s5: "recv_matching cr [''verack''] (?start + ?per) ?per (Some (vd_version v)) c4 = Some (r5, c5)"
            and p5: "answered c5" "horizon c5 \<le> max (conn_now c4) (?start + ?per) + conn_wait c4"
              "conn_now c4 \<le> conn_now c5"
            by (rule recv_cases [OF p4(1)])
          have "conn_wait c4 \<le> conn_wait c0"
            using p1 p2 p3 p4 by simp
          then have "horizon c5 \<le> horizon c0 + ?per" "?start \<le> conn_now c5" using h2 p3 p4 p5 by auto
          with first 4 s3 [unfolded x_def] r3 s4 r4 s5 p5 show ?thesis
            by (cases r5) (simp_all add: handshake_def Let_def)
        qed
      qed
    qed (use first p2 h2 in \<open>simp_all add: handshake_def Let_def\<close>)
  qed
qed

lemma getaddr_ends:
  assumes "answered c0" "waits_within ev L"
  shows "ends_by (horizon c0 + 1000 * unat (to_getaddr tos) + 2 * L) c0 (getaddr cr ev st key tos hs c0 c)"
proof -
  obtain r c1 where s: "conn_send cr ''getaddr'' [] c0 = (Some r, c1)"
    and p: "answered c1" "horizon c1 \<le> horizon c0" "conn_now c0 \<le> conn_now c1"
    by (rule send_cases [OF assms(1)])
  show ?thesis
  proof (cases r)
    case (Inl e)
    with s p show ?thesis by (simp add: getaddr_def)
  next
    case (Inr u)
    from getaddr_loop_returns [OF p(1) assms(2), of cr st key hs "conn_now c1 + 1000 * unat (to_getaddr tos)"
        "1000 * unat (to_getaddr_idle tos)" 0 c]
    obtain o' c2 c' where "getaddr_loop cr ev st key hs (conn_now c1 + 1000 * unat (to_getaddr tos))
        (1000 * unat (to_getaddr_idle tos)) 0 c1 c = Some (o', c2, c')" "answered c2" "conn_now c1 \<le> conn_now c2"
      "horizon c2 \<le> conn_now c1 + 1000 * unat (to_getaddr tos) + 2 * L + conn_wait c1"
      by auto
    with s Inr p show ?thesis by (simp add: getaddr_def)
  qed
qed

lemma handshake_done_ends:
  assumes "answered conn" "waits_within ev L"
  shows "\<exists>fin c'. handshake_done cr ev st key tos v ts ms conn c = Some (fin, c') \<and> conn_now conn \<le> fin \<and>
    fin \<le> horizon conn + 1000 * unat (to_getaddr tos) + 4 * L"
proof (cases "st_probe_mode st")
  case True
  then show ?thesis by (simp add: handshake_done_def discover_def Let_def)
next
  case False
  let ?hs = "from_version v ts ms (key_render key) (key_render key) (socket_local conn) (socket_peer conn)"
  let ?c = "on_entry key (\<lambda>e. e\<lparr>ne_handshake := Some ?hs\<rparr>) c"
  obtain o' conn' c' where g: "getaddr cr ev st key tos ?hs conn ?c = Some (o', conn', c')"
    and p: "conn_now conn \<le> conn_now conn'" "horizon conn' \<le> horizon conn + 1000 * unat (to_getaddr tos) + 2 * L"
    using getaddr_ends [OF assms, of tos cr st key ?hs ?c] by (auto simp: ends_by_def)
  let ?fin = "conn_now (log_pause ev c' (barrier_pause ev conn'))"
  have "conn_now conn \<le> ?fin" "?fin \<le> horizon conn + 1000 * unat (to_getaddr tos) + 4 * L"
    using p observed_pause(1,2) [OF assms(2), where conn = conn' and c = c'] by linarith+
  with g False show ?thesis by (simp add: handshake_done_def discover_def Let_def)
qed

section \<open>Properties of a conversation\<close>

text \<open>
  The longest a node is processed: its timeouts, the time its writes take, and its waits for what the workers
  share. Those are two for the mutex of the SAM session on I2P, and a barrier and a log each for the message that
  is being handled at the deadline and for the outcome.
\<close>

definition processing_limit :: "settings \<Rightarrow> network_type \<Rightarrow> nat \<Rightarrow> nat \<Rightarrow> nat" where
  "processing_limit st net W L =
     (let tos = timeouts_for st net
      in connect_turns net * (1000 * unat (to_connect tos)) + 1000 * unat (to_message tos) +
         1000 * unat (to_getaddr tos) + W + (connect_waits net + 4) * L)"

lemma process_ends:
  assumes env: "answering_env ev W L"
  shows "\<exists>fin c'. process cr ev st key t now c = Some (fin, c') \<and> now \<le> fin \<and>
    fin \<le> now + processing_limit st (key_network cr c key) W L"
proof -
  let ?net = "key_network cr c key"
  let ?tos = "timeouts_for st ?net"
  obtain n c1 where a: "start_attempt key c = (n, c1)" by fastforce
  obtain r f c2 where con: "connect ev st key ?net (1000 * unat (to_connect ?tos)) now c1 = (r, f, c2)"
    by (metis prod_cases3)
  note o = connect_opened [OF env con]
  show ?thesis
  proof (cases r)
    case (Inl e)
    with a con o show ?thesis by (auto simp: process_def Let_def processing_limit_def add_mult_distrib)
  next
    case (Inr conn)
    then have op: "answered conn" "conn_now conn = f" "conn_wait conn \<le> W" using o by (auto simp: opened_def)
    let ?ms = "word_of_nat (conn_now conn - now)"
    let ?c = "update_attempt key ''connected'' None (Some ?ms) None
        (on_stats key (\<lambda>s. s\<lparr>time_connect_ms := Some ?ms\<rparr>) c2)"
    obtain h conn' c3 where h: "handshake cr ev key ?tos conn ?c = Some (h, conn', c3)"
      and p: "answered conn'" "conn_now conn \<le> conn_now conn'"
        "horizon conn' \<le> horizon conn + 1000 * unat (to_message ?tos)"
      using handshake_ends [OF op(1), of ?tos cr ev key ?c] by (auto simp: ends_by_def)
    have lim: "f \<le> conn_now conn'" "horizon conn' + 1000 * unat (to_getaddr ?tos) + 4 * L \<le> now + processing_limit st ?net W L"
      using p op o by (auto simp: processing_limit_def Let_def add_mult_distrib)
    then have lo: "now \<le> conn_now conn'" "conn_now conn' \<le> now + processing_limit st ?net W L" using o by auto
    show ?thesis
    proof (cases h)
      case (HsVersion v ts ms)
      have wt: "waits_within ev L" using env by (simp add: answering_env_def)
      from handshake_done_ends [OF p(1) wt, of cr st key ?tos v ts ms c3] obtain fin c' where
        "handshake_done cr ev st key ?tos v ts ms conn' c3 = Some (fin, c')" "conn_now conn' \<le> fin"
        "fin \<le> horizon conn' + 1000 * unat (to_getaddr ?tos) + 4 * L" by blast
      with a con Inr h HsVersion lim lo show ?thesis by (auto simp: process_def Let_def)
    next
      case HsTimeout
      with a con Inr h lo show ?thesis by (auto simp: process_def Let_def)
    next
      case (HsFailed kind detail)
      with a con Inr h lo show ?thesis by (auto simp: process_def Let_def)
    qed
  qed
qed

lemma turn_not_stuck:
  assumes "answering_env ev W L"
  shows "fst (worker_turn cr ev st t panics now c) \<noteq> WorkerStuck"
proof -
  have never: "process cr ev st key t now c' \<noteq> None" for key c' using process_ends [OF assms] by fastforce
  show ?thesis
    by (auto simp: worker_turn_def never Let_def split: prod.splits received.splits bool.splits option.splits)
qed

text \<open>C8: The processing of a node returns, whatever its peer sends or does not send, within its timeouts and its
  waits: the connect timeout (twice for I2P, whose session may have to be made first), the message
  timeout of the handshake and the getaddr timeout, plus the time for which the code has no timeout: \<open>W\<close>
  for all its writes, and \<open>L\<close> for each wait for what the workers share, which are the mutex of the SAM session
  (twice for I2P), and the observation barrier and the address log (each twice). Where no such bound holds, as
  for I2P workers that queue for the mutex while others try to make the session, one after the other, the
  theorem says nothing. So a turn of a worker ends when its writes and these waits do.\<close>

theorem processing_returns_in_time:
  assumes "answering_env ev W L"
  shows "(\<exists>fin c'. process cr ev st key t now c = Some (fin, c') \<and> now \<le> fin \<and>
      fin \<le> now + processing_limit st (key_network cr c key) W L) \<and>
    fst (worker_turn cr ev st t panics now c) \<noteq> WorkerStuck"
  using process_ends [OF assms] turn_not_stuck [OF assms] by blast

text \<open>A peer that accepts the connection and the version message, slowly, and then says nothing.\<close>

definition mute_env :: env where
  "mute_env = \<lparr>ev_dial = (\<lambda>_ _. Some (20, Inr \<lparr>ts_reads = [], ts_writes = [WriteOk 7], ts_sent = [], ts_clock = 0,
       ts_local = [], ts_peer = []\<rparr>)),
     ev_epoch = (\<lambda>_. 5), ev_nonce = (\<lambda>_. 0), ev_sam_id = (\<lambda>_. 0), ev_shuffle = (\<lambda>_ xs. xs),
     ev_wait = (\<lambda>_ _. 2)\<rparr>"

lemma processing_returns_in_time_witness:
  "\<exists>fin c'. process rfc4648_crates mute_env solo_settings solo_key TransportIp 100
       (solo (solo_entry Processing) False 1 1 False) = Some (fin, c') \<and>
     100 \<le> fin \<and> fin \<le> 100 + 103000 + 7 + 8"
proof -
  have "answering_env mute_env 7 2"
    by (simp add: answering_env_def mute_env_def writes_answered_def write_wait_def waits_within_def)
  moreover have "key_network rfc4648_crates (solo (solo_entry Processing) False 1 1 False) solo_key = Ipv4"
    by (simp add: key_network_def network_of_def solo_def solo_entry_def node_entry_new_def)
  moreover have "processing_limit solo_settings Ipv4 7 2 \<le> 103000 + 7 + 8"
    by (simp add: processing_limit_def timeouts_for_def solo_settings_def common_defaults_def connect_turns_def
        connect_waits_def)
  ultimately show ?thesis
    using processing_returns_in_time [of mute_env 7 2 rfc4648_crates solo_settings solo_key TransportIp 100]
    by fastforce
qed

end
