(* ===== verification/Seen.thy ===== *)
theory Seen
  imports Crawl_Live
begin

section \<open>What a checkpoint sees of an entry\<close>

text \<open>
  The statistics of an entry that the code updates under the observation barrier (src/crawler.rs): what peers
  advertised, malformed replies, the outcome of the collection. Every other access of a worker leaves
  them and the log alone. The count of valid replies is updated after the barrier has been left, so
  it is not one of them.
\<close>

definition seen :: "node_stats \<Rightarrow> node_stats" where
  "seen s = s\<lparr>time_connect_ms := None, handshake_attempts := 0, first_version_send_ts := None,
     valid_addr_messages := 0\<rparr>"

lemma seen_default [simp]: "seen stats_default = stats_default"
  by (simp add: seen_def stats_default_def)

lemma seen_idem [simp]: "seen (seen s) = seen s"
  by (simp add: seen_def)

text \<open>An access that a checkpoint cannot tell.\<close>

definition keeps_seen :: "crawler \<Rightarrow> crawler \<Rightarrow> bool" where
  "keeps_seen c c' \<longleftrightarrow>
     cw_addr_log c' = cw_addr_log c \<and>
     (\<forall>k. case lookup (cw_store c) k of
        Some e \<Rightarrow> \<exists>e'. lookup (cw_store c') k = Some e' \<and> seen (ne_stats e') = seen (ne_stats e)
      | None \<Rightarrow> (\<forall>e'. lookup (cw_store c') k = Some e' \<longrightarrow> ne_stats e' = stats_default))"

lemma keeps_seen_old:
  assumes "keeps_seen c c'" "lookup (cw_store c) k = Some e"
  obtains e' where "lookup (cw_store c') k = Some e'" "seen (ne_stats e') = seen (ne_stats e)"
  using conjunct2 [OF assms(1) [unfolded keeps_seen_def], THEN spec, of k] assms(2) by auto

lemma keeps_seen_new:
  assumes "keeps_seen c c'" "lookup (cw_store c) k = None" "lookup (cw_store c') k = Some e"
  shows "ne_stats e = stats_default"
  using conjunct2 [OF assms(1) [unfolded keeps_seen_def], THEN spec, of k] assms(2,3) by auto

lemma keeps_seen_log: "keeps_seen c c' \<Longrightarrow> cw_addr_log c' = cw_addr_log c"
  by (simp add: keeps_seen_def)

lemma keeps_seen_same:
  "ns_map (cw_store c') = ns_map (cw_store c) \<Longrightarrow> cw_addr_log c' = cw_addr_log c \<Longrightarrow> keeps_seen c c'"
  by (auto simp: keeps_seen_def split: option.splits)

lemma keeps_seen_entry:
  assumes "\<And>e. lookup (cw_store c) k = Some e \<Longrightarrow> seen (ne_stats (f e)) = seen (ne_stats e)"
    and "ns_map (cw_store c') = ns_map (update_entry k f (cw_store c))" "cw_addr_log c' = cw_addr_log c"
  shows "keeps_seen c c'"
proof -
  have "lookup (cw_store c') k' = (if k' = k then map_option f (lookup (cw_store c) k) else lookup (cw_store c) k')" for k'
    using update_entry_lookup [of k f "cw_store c" k'] assms(2) by simp
  with assms(1,3) show ?thesis by (auto simp: keeps_seen_def split: option.splits)
qed

lemma keeps_seen_frontier:
  assumes "frontier_upsert a ts net thr now (cw_store c) = (out, s)"
  shows "keeps_seen c (c\<lparr>cw_store := s\<rparr>)"
  unfolding keeps_seen_def
proof (intro conjI allI)
  fix k
  show "case lookup (cw_store c) k of
      Some e \<Rightarrow> \<exists>e'. lookup (cw_store (c\<lparr>cw_store := s\<rparr>)) k = Some e' \<and> seen (ne_stats e') = seen (ne_stats e)
    | None \<Rightarrow> (\<forall>e'. lookup (cw_store (c\<lparr>cw_store := s\<rparr>)) k = Some e' \<longrightarrow> ne_stats e' = stats_default)"
  proof (cases "k = a")
    case False
    then show ?thesis using frontier_entries(1) [OF assms] by (auto split: option.splits)
  next
    case True
    show ?thesis
    proof (cases "lookup (cw_store c) a")
      case None
      then show ?thesis using True frontier_entries(4) [OF assms None] by (auto simp: node_entry_new_def)
    next
      case (Some e)
      obtain e' where e': "lookup s a = Some e'" "ne_stats e' = ne_stats e"
      proof (cases "out = Enqueue")
        case True
        from frontier_entries(3) [OF assms Some True] obtain ts' where
          "lookup s a = Some (e\<lparr>freshest_ts := ts', ne_state := Queued\<rparr>)" by blast
        then show thesis by (rule that) simp
      next
        case False
        from frontier_entries(2) [OF assms Some False] obtain ts' where
          "lookup s a = Some (e\<lparr>freshest_ts := ts'\<rparr>)" by blast
        then show thesis by (rule that) simp
      qed
      from e' True Some show ?thesis by simp
    qed
  qed
qed simp

lemma keeps_seen_sent: "send_key t k c = (b, c') \<Longrightarrow> keeps_seen c c'"
  by (rule keeps_seen_same) (auto simp: send_key_def split: prod.splits)

text \<open>The steps of a worker that are not accesses to its own entry or to the log are of this kind.\<close>

lemma wstep_keeps_seen:
  assumes "wstep cr st t (c, p) (c', p')"
    and "\<And>k n f. p = Busy k n \<Longrightarrow> p' = Busy k n \<Longrightarrow> c' = on_entry k f c \<Longrightarrow> keeps_seen c c'"
    and "\<And>k n sam log out. p = Busy k n \<Longrightarrow> p' = Busy k n \<Longrightarrow> c' = side_update sam log out c \<Longrightarrow> keeps_seen c c'"
  shows "keeps_seen c c'"
  using assms(1)
proof (cases rule: wstep.cases)
  case (slot_free k)
  show ?thesis by (rule keeps_seen_same) (use slot_free in \<open>auto simp: reserve_node_slot_def split: option.splits if_splits\<close>)
next
  case (slot_none k)
  show ?thesis by (rule keeps_seen_same) (use slot_none in \<open>auto simp: reserve_node_slot_def split: option.splits if_splits\<close>)
next
  case (begin_node k)
  then show ?thesis
    by (intro keeps_seen_entry [where k = k and f = "set_state Processing"]) (simp_all add: set_state_def on_entry_def)
next
  case (begin_attempt k n)
  then have "c' = on_entry k attempt_begun c" by (simp add: start_attempt_eq)
  then show ?thesis
    by (intro keeps_seen_entry [where k = k and f = attempt_begun])
      (simp_all add: attempt_begun_def Let_def seen_def on_entry_def)
next
  case (local_entry f k n)
  then show ?thesis using assms(2) by blast
next
  case (local_side k n sam log out)
  then show ?thesis using assms(3) by blast
next
  case (frontier_known a ts net now out s k n)
  then show ?thesis using keeps_seen_frontier by blast
next
  case (frontier_new a ts net now s k n)
  then show ?thesis using keeps_seen_frontier by blast
next
  case (count_work k n a)
  show ?thesis by (rule keeps_seen_same) (use count_work in \<open>simp_all add: incr_outstanding_def\<close>)
next
  case (send_taken a k n)
  then show ?thesis by (intro keeps_seen_sent)
next
  case (send_refused a k n)
  then show ?thesis by (intro keeps_seen_sent)
next
  case (discard_key k n a)
  then show ?thesis
    by (intro keeps_seen_entry [where k = a and f = "set_state BudgetDiscarded"]) (simp_all add: set_state_def on_entry_def)
next
  case (uncount k n)
  show ?thesis by (rule keeps_seen_same) (use uncount in \<open>simp_all add: decr_outstanding_def\<close>)
next
  case (retry n terminal k reason)
  then show ?thesis
    by (intro keeps_seen_entry [where k = k and f = "set_state Queued"]) (simp_all add: set_state_def on_entry_def)
next
  case (requeue_taken k terminal reason)
  then show ?thesis by (intro keeps_seen_sent)
next
  case (requeue_refused k terminal reason)
  then show ?thesis by (intro keeps_seen_sent)
next
  case (finish_active k terminal reason s a)
  from with_finish_map [OF this(4)] have "s = update_entry k (\<lambda>e. snd (finish_entry terminal reason e)) (cw_store c)" .
  with finish_active show ?thesis
    by (intro keeps_seen_entry [where k = k and f = "\<lambda>e. snd (finish_entry terminal reason e)"])
      (simp_all, simp add: finish_entry_def)
next
  case (finish_passive k terminal reason r s a)
  from with_finish_map [OF this(4)] have "s = update_entry k (\<lambda>e. snd (finish_entry terminal reason e)) (cw_store c)" .
  with finish_passive show ?thesis
    by (intro keeps_seen_entry [where k = k and f = "\<lambda>e. snd (finish_entry terminal reason e)"])
      (simp_all, simp add: finish_entry_def)
next
  case (finish_count prior s a)
  show ?thesis by (rule keeps_seen_same) (use finish_count in \<open>auto simp: decr_outstanding_def\<close>)
qed (simp_all add: keeps_seen_same close_queues_def)

text \<open>Places of a worker that feeds the frontier.\<close>

fun talking :: "pc \<Rightarrow> bool" where
  "talking (Busy k n) \<longleftrightarrow> True"
| "talking (Counting k n a) \<longleftrightarrow> True"
| "talking (Sending k n a) \<longleftrightarrow> True"
| "talking (Refused k n a) \<longleftrightarrow> True"
| "talking (Uncounting k n) \<longleftrightarrow> True"
| "talking _ \<longleftrightarrow> False"

text \<open>Runs of such steps between them.\<close>

definition plain_steps ::
  "crates \<Rightarrow> settings \<Rightarrow> transport \<Rightarrow> crawler \<times> pc \<Rightarrow> crawler \<times> pc \<Rightarrow> bool" where
  "plain_steps cr st t = (\<lambda>x y. wstep cr st t x y \<and> keeps_seen (fst x) (fst y) \<and> talking (snd y))\<^sup>*\<^sup>*"

lemma plain_refl [simp]: "plain_steps cr st t x x"
  by (simp add: plain_steps_def)

lemma plain_trans: "plain_steps cr st t x y \<Longrightarrow> plain_steps cr st t y z \<Longrightarrow> plain_steps cr st t x z"
  by (simp add: plain_steps_def)

lemma plain_then:
  assumes w: "wstep cr st t (c, p) (c', p')" and p: "\<And>k n. p = Busy k n \<Longrightarrow> p' \<noteq> Busy k n"
    and q: "talking p'" and z: "plain_steps cr st t (c', p') z"
  shows "plain_steps cr st t (c, p) z"
proof -
  have "keeps_seen c c'"
  proof (rule wstep_keeps_seen [OF w])
    show "keeps_seen c c'" if "p = Busy k n" "p' = Busy k n" for k n
      using p [OF that(1)] that(2) by contradiction
    show "keeps_seen c c'" if "p = Busy k n" "p' = Busy k n" for k n
      using p [OF that(1)] that(2) by contradiction
  qed
  with w q z show ?thesis
    unfolding plain_steps_def by (simp add: converse_rtranclp_into_rtranclp [where b = "(c', p')"])
qed

text \<open>Adding a new address to the queues, and feeding one advertised address to the frontier.\<close>

lemma enqueue_plain:
  "plain_steps cr st t (c, Counting k n a) (enqueue cr a c, Busy k n)"
proof -
  let ?c = "c\<lparr>cw_store := incr_outstanding (cw_store c)\<rparr>"
  let ?t = "network_transport (key_network cr c a)"
  have net: "key_network cr ?c a = key_network cr c a" by (simp add: key_network_def network_of_def)
  obtain b c' where s: "send_key ?t a ?c = (b, c')" by fastforce
  have "plain_steps cr st t (?c, Sending k n a) (enqueue cr a c, Busy k n)"
  proof (cases b)
    case True
    with s net have w: "wstep cr st t (?c, Sending k n a) (c', Busy k n)" by (intro send_taken) simp
    have "enqueue cr a c = c'" using s True by (simp add: enqueue_def Let_def)
    then show ?thesis by (intro plain_then [OF w]) simp_all
  next
    case False
    let ?d = "on_entry a (set_state BudgetDiscarded) c'"
    have e: "enqueue cr a c = ?d\<lparr>cw_store := snd (decr_outstanding (cw_store ?d))\<rparr>"
      using s False by (simp add: enqueue_def Let_def)
    from False s net have w: "wstep cr st t (?c, Sending k n a) (c', Refused k n a)" by (intro send_refused) simp
    show ?thesis
      unfolding e by (intro plain_then [OF w] plain_then [OF discard_key] plain_then [OF uncount] plain_refl) simp_all
  qed
  then show ?thesis by (intro plain_then [OF count_work]) simp_all
qed

lemma frontier_plain:
  assumes "is_enabled st (ad_network a)"
  shows "plain_steps cr st t (c, Busy k n) (frontier_one cr st now a c, Busy k n)"
proof -
  let ?a = "\<lparr>ak_host = ad_host a, ak_port = ad_port a\<rparr>"
  obtain out s where f: "frontier_upsert ?a (ad_timestamp a) (ad_network a) (st_freshness_threshold st) now (cw_store c) = (out, s)"
    by fastforce
  show ?thesis
  proof (cases "out = Enqueue")
    case False
    then have fo: "frontier_one cr st now a c = c\<lparr>cw_store := s\<rparr>" by (simp add: frontier_one_def f)
    have "wstep cr st t (c, Busy k n) (c\<lparr>cw_store := s\<rparr>, Busy k n)" by (rule frontier_known [OF f assms False])
    with keeps_seen_frontier [OF f] show ?thesis
      unfolding plain_steps_def fo by (intro r_into_rtranclp) simp
  next
    case True
    then have fo: "frontier_one cr st now a c = enqueue cr ?a (c\<lparr>cw_store := s\<rparr>)"
      by (simp add: frontier_one_def f)
    have "wstep cr st t (c, Busy k n) (c\<lparr>cw_store := s\<rparr>, Counting k n ?a)"
      by (rule frontier_new [OF f [unfolded True] assms])
    then show ?thesis unfolding fo by (rule plain_then [OF _ _ _ enqueue_plain]) simp_all
  qed
qed

lemma frontier_all_plain:
  "\<forall>a \<in> set xs. is_enabled st (ad_network a) \<Longrightarrow>
     plain_steps cr st t (c, Busy k n) (fold (frontier_one cr st now) xs c, Busy k n)"
proof (induction xs arbitrary: c)
  case Nil
  then show ?case by simp
next
  case (Cons a xs)
  then have "plain_steps cr st t (c, Busy k n) (frontier_one cr st now a c, Busy k n)" by (intro frontier_plain) simp
  from plain_trans [OF this Cons.IH] Cons.prems show ?case by simp
qed

end
