(* ===== verification/Turn.thy ===== *)
theory Turn
  imports Seen
begin

section \<open>The turn of a worker, step by step\<close>

text \<open>
  \<open>worker_turn\<close> with \<open>process\<close> of Crawler.thy composes the code's functions as the code does. Here the turn
  is taken apart into the steps of one worker, over an interface: any relation of runs that contains
  the steps that a checkpoint cannot tell, and what a worker does with a message, a malformed reply
  and the outcome of a collection. The crawl and the crawl with its observations are two instances.
\<close>

subsection \<open>What happens to the worker's own entry\<close>

text \<open>
  The entry of an address that is being processed stays as it is for the verdict: still active, with the
  same handshake and connect time.
\<close>

definition entry_kept :: "addr_key \<Rightarrow> crawler \<Rightarrow> crawler \<Rightarrow> bool" where
  "entry_kept k c c' \<longleftrightarrow>
     (\<forall>e. lookup (cw_store c) k = Some e \<longrightarrow> is_active e \<longrightarrow>
        (\<exists>e'. lookup (cw_store c') k = Some e' \<and> is_active e' \<and> ne_handshake e' = ne_handshake e \<and>
           time_connect_ms (ne_stats e') = time_connect_ms (ne_stats e)))"

lemma kept_same: "ns_map (cw_store c') = ns_map (cw_store c) \<Longrightarrow> entry_kept k c c'"
  by (simp add: entry_kept_def)

lemma kept_trans: "entry_kept k c c1 \<Longrightarrow> entry_kept k c1 c2 \<Longrightarrow> entry_kept k c c2"
  unfolding entry_kept_def by metis

lemma kept_entry:
  assumes "\<And>e. ne_state (f e) = ne_state e" "\<And>e. ne_handshake (f e) = ne_handshake e"
    "\<And>e. time_connect_ms (ne_stats (f e)) = time_connect_ms (ne_stats e)"
  shows "entry_kept k c (on_entry k f c)"
  using assms by (simp add: entry_kept_def update_entry_lookup is_active_def)

lemma kept_stats:
  "(\<And>s. time_connect_ms (f s) = time_connect_ms s) \<Longrightarrow> entry_kept k c (on_stats k f c)"
  unfolding on_stats_def by (intro kept_entry) simp_all

lemma enqueue_lookup:
  "k \<noteq> a \<Longrightarrow> lookup (cw_store (enqueue cr a c)) k = lookup (cw_store c) k"
proof -
  assume k: "k \<noteq> a"
  let ?c = "c\<lparr>cw_store := incr_outstanding (cw_store c)\<rparr>"
  obtain b c' where s: "send_key (network_transport (key_network cr c a)) a ?c = (b, c')" by fastforce
  from send_key_store [OF s] k s show ?thesis
    by (cases b) (simp_all add: enqueue_def Let_def update_entry_lookup)
qed

lemma kept_frontier: "entry_kept k c (frontier_one cr st now a c)"
  unfolding entry_kept_def
proof (intro allI impI)
  fix e
  assume e: "lookup (cw_store c) k = Some e" "is_active e"
  let ?a = "\<lparr>ak_host = ad_host a, ak_port = ad_port a\<rparr>"
  obtain out s where f: "frontier_upsert ?a (ad_timestamp a) (ad_network a) (st_freshness_threshold st) now (cw_store c) = (out, s)"
    by fastforce
  have keep: "others_keep c AtLoop (c\<lparr>cw_store := s\<rparr>)" by (rule others_keep_frontier [OF f])
  then obtain ts where s: "lookup s k = Some (e\<lparr>freshest_ts := ts\<rparr>)" using e by (auto simp: others_keep_def)
  have "lookup (cw_store (frontier_one cr st now a c)) k = Some (e\<lparr>freshest_ts := ts\<rparr>)"
  proof (cases "out = Enqueue")
    case False
    with s show ?thesis by (simp add: frontier_one_def f)
  next
    case True
    have "k \<noteq> ?a" using frontier_entries(3) [OF f, of e] e True by (auto simp: is_active_def)
    with s True show ?thesis by (simp add: frontier_one_def f enqueue_lookup)
  qed
  with e show "\<exists>e'. lookup (cw_store (frontier_one cr st now a c)) k = Some e' \<and> is_active e' \<and>
      ne_handshake e' = ne_handshake e \<and> time_connect_ms (ne_stats e') = time_connect_ms (ne_stats e)"
    by (simp add: is_active_def)
qed

lemma kept_frontier_all: "entry_kept k c (fold (frontier_one cr st now) xs c)"
proof (induction xs arbitrary: c)
  case Nil
  then show ?case by (simp add: kept_same)
next
  case (Cons a xs)
  from kept_trans [OF kept_frontier Cons.IH] show ?case by simp
qed

text \<open>A shuffle returns addresses it was given.\<close>

definition shuffles :: "env \<Rightarrow> bool" where
  "shuffles ev \<longleftrightarrow> (\<forall>i xs. set (ev_shuffle ev i xs) \<subseteq> set xs)"

lemma record_message_fields:
  "handshake_attempts (record_message parsed s) = handshake_attempts s"
  "time_connect_ms (record_message parsed s) = time_connect_ms s"
proof -
  have a: "handshake_attempts (record_advertised net s) = handshake_attempts s"
    "time_connect_ms (record_advertised net s) = time_connect_ms s" for net s
    by (cases net; simp add: record_advertised_def Let_def)+
  have "handshake_attempts (fold (\<lambda>a s. record_advertised (ad_network a) s) xs s) = handshake_attempts s \<and>
      time_connect_ms (fold (\<lambda>a s. record_advertised (ad_network a) s) xs s) = time_connect_ms s"
    for xs :: "advertised_addr list" and s :: node_stats
    by (induction xs arbitrary: s) (simp_all add: a)
  then show "handshake_attempts (record_message parsed s) = handshake_attempts s"
    "time_connect_ms (record_message parsed s) = time_connect_ms s"
    by (simp_all add: record_message_def Let_def)
qed

lemma kept_message: "entry_kept k c (snd (handle_addr_message cr ev st k ty parsed hs clock c))"
proof -
  let ?c = "on_stats k (record_message parsed) c"
  have 1: "entry_kept k c ?c" by (rule kept_stats) (rule record_message_fields)
  have 2: "entry_kept k c (?c\<lparr>cw_addr_log := log\<rparr>)" for log
    by (rule kept_trans [OF 1 kept_same]) simp
  show ?thesis
    by (auto simp: handle_addr_message_def Let_def intro: 1 2 kept_trans [OF 1 kept_frontier_all]
        kept_trans [OF 2 kept_frontier_all] split: option.splits sum.splits prod.splits bool.splits)
qed

lemma kept_malformed: "entry_kept k c (snd (handle_malformed cr k env e valid c))"
proof -
  let ?c = "on_stats k (\<lambda>s. s\<lparr>malformed_addr_messages := malformed_addr_messages s + 1\<rparr>) c"
  have 1: "entry_kept k c ?c" by (rule kept_stats) simp
  have 2: "entry_kept k c c'" if "ns_map (cw_store c') = ns_map (cw_store ?c)" for c'
    by (rule kept_trans [OF 1 kept_same [OF that]])
  show ?thesis
    by (auto simp: handle_malformed_def Let_def intro!: 2 split: option.splits sum.splits prod.splits)
qed

lemma kept_outcome: "entry_kept k c (record_outcome k outcome c)"
proof -
  let ?c = "on_stats k (\<lambda>s. s\<lparr>collection_outcome := outcome\<rparr>) c"
  have 1: "entry_kept k c ?c" by (rule kept_stats) simp
  have 2: "entry_kept k c c'" if "ns_map (cw_store c') = ns_map (cw_store ?c)" for c'
    by (rule kept_trans [OF 1 kept_same [OF that]])
  show ?thesis
    by (auto simp: record_outcome_def Let_def intro!: 2 split: option.splits sum.splits prod.splits)
qed

lemma keeps_seen_on_entry: "(\<And>e. seen (ne_stats (f e)) = seen (ne_stats e)) \<Longrightarrow> keeps_seen c (on_entry k f c)"
  by (rule keeps_seen_entry [where k = k and f = f]) (simp_all add: on_entry_def)

subsection \<open>Observations\<close>

text \<open>Appending the event of an observation to the log, if there is one: its id if the log has it.\<close>

definition record_event :: "(u64 \<Rightarrow> string) \<Rightarrow> crawler \<Rightarrow> u64 option \<times> crawler" where
  "record_event text c =
     (case cw_addr_log c of
        None \<Rightarrow> (None, c)
      | Some log \<Rightarrow>
          (case log_event text log of
             (Inr i, log') \<Rightarrow> (Some i, c\<lparr>cw_addr_log := Some log'\<rparr>)
           | (Inl _, log') \<Rightarrow> (None, c\<lparr>cw_addr_log := Some log'\<rparr>)))"

lemma record_event_side:
  "record_event text c = (eid, c') \<Longrightarrow> \<exists>log. c' = side_update (cw_sam c) log False c"
  by (auto simp: record_event_def side_update_def split: option.splits prod.splits sum.splits intro: exI [of _ None])

text \<open>What the code does with a message, a malformed reply and an outcome, one access after another.\<close>

lemma message_shape:
  assumes "shuffles ev"
  obtains r c1 eid xs now where "rp_host r = ak_host k" "rp_port r = ak_port k"
    "rp_network r = network_as_str (classify cr (ak_host k))"
    "record_event (block_text r parsed) (on_stats k (record_message parsed) c) = (eid, c1)"
    "\<forall>a \<in> set xs. is_enabled st (ad_network a)"
    "snd (handle_addr_message cr ev st k ty parsed hs clock c) = fold (frontier_one cr st now) xs c1"
proof -
  let ?r = "\<lparr>rp_host = ak_host k, rp_port = ak_port k, rp_network = network_as_str (classify cr (ak_host k)),
    rp_received_at = ev_epoch ev clock, rp_message_type = ty, rp_handshake = hs\<rparr>"
  let ?c = "on_stats k (record_message parsed) c"
  let ?xs = "filter (\<lambda>a. is_enabled st (ad_network a)) (pm_addrs parsed)"
  obtain eid c1 where e: "record_event (block_text ?r parsed) ?c = (eid, c1)" by fastforce
  have "set (ev_shuffle ev clock ?xs) \<subseteq> set ?xs" using assms unfolding shuffles_def by blast
  then have en: "\<forall>a \<in> set (ev_shuffle ev clock ?xs). is_enabled st (ad_network a)" by auto
  have "snd (handle_addr_message cr ev st k ty parsed hs clock c) = c1 \<or>
      snd (handle_addr_message cr ev st k ty parsed hs clock c) =
        fold (frontier_one cr st (ev_epoch ev clock)) (ev_shuffle ev clock ?xs) c1"
    using e by (auto simp: handle_addr_message_def Let_def record_event_def write_block_def
        split: option.splits prod.splits sum.splits bool.splits)
  then show thesis
  proof
    assume "snd (handle_addr_message cr ev st k ty parsed hs clock c) = c1"
    then show thesis by (intro that [OF _ _ _ e, of "[]"]) simp_all
  next
    assume "snd (handle_addr_message cr ev st k ty parsed hs clock c) =
        fold (frontier_one cr st (ev_epoch ev clock)) (ev_shuffle ev clock ?xs) c1"
    then show thesis by (intro that [OF _ _ _ e en]) simp_all
  qed
qed

lemma malformed_shape:
  obtains eid c1 out where
    "record_event (malformed_text cr (ak_host k) (ak_port k) (env_command env) e (env_payload env))
       (on_stats k (\<lambda>s. s\<lparr>malformed_addr_messages := malformed_addr_messages s + 1\<rparr>) c) = (eid, c1)"
    "snd (handle_malformed cr k env e valid c) = side_update (cw_sam c1) (cw_addr_log c1) out c1"
proof -
  let ?c = "on_stats k (\<lambda>s. s\<lparr>malformed_addr_messages := malformed_addr_messages s + 1\<rparr>) c"
  obtain eid c1 where r: "record_event (malformed_text cr (ak_host k) (ak_port k) (env_command env) e (env_payload env)) ?c =
      (eid, c1)" by fastforce
  have "snd (handle_malformed cr k env e valid c) = c1 \<or>
      snd (handle_malformed cr k env e valid c) = c1\<lparr>cw_output_failed := True\<rparr>"
    using r by (auto simp: handle_malformed_def Let_def record_event_def write_malformed_def
        split: option.splits prod.splits sum.splits)
  then have "\<exists>out. snd (handle_malformed cr k env e valid c) = side_update (cw_sam c1) (cw_addr_log c1) out c1"
    by (auto simp: side_update_def intro: exI [of _ True] exI [of _ False])
  then show thesis using that r by blast
qed

lemma outcome_shape:
  obtains eid c1 out where
    "record_event (outcome_text (ak_host k) (ak_port k) outcome)
       (on_stats k (\<lambda>s. s\<lparr>collection_outcome := outcome\<rparr>) c) = (eid, c1)"
    "record_outcome k outcome c = side_update (cw_sam c1) (cw_addr_log c1) out c1"
proof -
  let ?c = "on_stats k (\<lambda>s. s\<lparr>collection_outcome := outcome\<rparr>) c"
  obtain eid c1 where r: "record_event (outcome_text (ak_host k) (ak_port k) outcome) ?c = (eid, c1)" by fastforce
  have "record_outcome k outcome c = c1 \<or> record_outcome k outcome c = c1\<lparr>cw_output_failed := True\<rparr>"
    using r by (auto simp: record_outcome_def Let_def record_event_def write_outcome_def
        split: option.splits prod.splits sum.splits)
  then have "\<exists>out. record_outcome k outcome c = side_update (cw_sam c1) (cw_addr_log c1) out c1"
    by (auto simp: side_update_def intro: exI [of _ True] exI [of _ False])
  then show thesis using that r by blast
qed

subsection \<open>Runs of one worker\<close>

lemma on_stats_lookup:
  "lookup (cw_store (on_stats k f c)) k = map_option (\<lambda>e. e\<lparr>ne_stats := f (ne_stats e)\<rparr>) (lookup (cw_store c) k)"
  by (simp add: on_stats_def update_entry_lookup)

text \<open>Work of a busy worker, with its own entry as it was.\<close>

definition quiet :: "(crawler \<times> pc \<Rightarrow> crawler \<times> pc \<Rightarrow> bool) \<Rightarrow> addr_key \<Rightarrow> u32 \<Rightarrow> crawler \<Rightarrow> crawler \<Rightarrow> bool" where
  "quiet run k n c c' \<longleftrightarrow> run (c, Busy k n) (c', Busy k n) \<and> entry_kept k c c'"

text \<open>The program counter after a turn.\<close>

fun turn_pc :: "turn_result \<Rightarrow> pc" where
  "turn_pc WorkerExit = Exited"
| "turn_pc WorkerWaits = AtRecv"
| "turn_pc (WorkerContinues fin) = AtLoop"
| "turn_pc WorkerStuck = AtLoop"

locale turn_runs =
  fixes cr :: crates and st :: settings and t :: transport
    and run :: "crawler \<times> pc \<Rightarrow> crawler \<times> pc \<Rightarrow> bool"
  assumes run_refl: "run x x"
    and run_trans: "run x y \<Longrightarrow> run y z \<Longrightarrow> run x z"
    and run_plain: "wstep cr st t (c, p) (c', p') \<Longrightarrow> keeps_seen c c' \<Longrightarrow> run (c, p) (c', p')"
    and run_message: "shuffles ev \<Longrightarrow>
      run (c, Busy k n) (snd (handle_addr_message cr ev st k ty parsed hs clock c), Busy k n)"
    and run_malformed: "run (c, Busy k n) (snd (handle_malformed cr k env e valid c), Busy k n)"
    and run_outcome: "run (c, Busy k n) (record_outcome k outcome c, Busy k n)"
begin

text \<open>A step to another place cannot be an observation.\<close>

lemma run_move:
  assumes w: "wstep cr st t (c, p) (c', p')" and p: "\<And>k n. p = Busy k n \<Longrightarrow> p' \<noteq> Busy k n"
  shows "run (c, p) (c', p')"
proof (rule run_plain [OF w wstep_keeps_seen [OF w]])
  show "keeps_seen c c'" if "p = Busy k n" "p' = Busy k n" for k n using p [OF that(1)] that(2) by contradiction
  show "keeps_seen c c'" if "p = Busy k n" "p' = Busy k n" for k n using p [OF that(1)] that(2) by contradiction
qed

lemma run_moves:
  "wstep cr st t (c, p) (c', p') \<Longrightarrow> (\<And>k n. p = Busy k n \<Longrightarrow> p' \<noteq> Busy k n) \<Longrightarrow> run (c', p') z \<Longrightarrow> run (c, p) z"
  by (rule run_trans [OF run_move])

lemma quiet_refl: "quiet run k n c c"
  by (simp add: quiet_def run_refl kept_same)

lemma quiet_trans: "quiet run k n c c1 \<Longrightarrow> quiet run k n c1 c2 \<Longrightarrow> quiet run k n c c2"
  unfolding quiet_def using run_trans kept_trans by blast

lemma quiet_entry:
  assumes "entry_local f" "\<And>e. ne_handshake (f e) = ne_handshake e"
    "\<And>e. time_connect_ms (ne_stats (f e)) = time_connect_ms (ne_stats e)"
    "\<And>e. seen (ne_stats (f e)) = seen (ne_stats e)"
  shows "quiet run k n c (on_entry k f c)"
  unfolding quiet_def
proof
  show "run (c, Busy k n) (on_entry k f c, Busy k n)"
    by (rule run_plain [OF local_entry [OF assms(1)] keeps_seen_on_entry]) (rule assms(4))
  show "entry_kept k c (on_entry k f c)"
    by (rule kept_entry) (use assms in \<open>simp_all add: entry_local_def\<close>)
qed

lemma quiet_stats:
  assumes "\<And>s. handshake_attempts (f s) = handshake_attempts s" "\<And>s. time_connect_ms (f s) = time_connect_ms s"
    "\<And>s. seen (f s) = seen s"
  shows "quiet run k n c (on_stats k f c)"
  unfolding on_stats_def using assms by (intro quiet_entry) (simp_all add: entry_local_def)

lemma quiet_attempt: "quiet run k n c (update_attempt k outcome failure duration timestamp c)"
  unfolding update_attempt_def by (intro quiet_entry) (simp_all add: entry_local_def)

lemma quiet_side: "quiet run k n c (side_update sam (cw_addr_log c) out c)"
  unfolding quiet_def
  by (intro conjI run_plain [OF local_side] keeps_seen_same kept_same) (simp_all add: side_update_def)

lemma quiet_sam: "quiet run k n c (c\<lparr>cw_sam := sam\<rparr>)"
  using quiet_side [of k n c sam False] by (simp add: side_update_def)

lemma quiet_output: "quiet run k n c (c\<lparr>cw_output_failed := True\<rparr>)"
  using quiet_side [of k n c "cw_sam c" True] by (simp add: side_update_def)

lemma quiet_message:
  "shuffles ev \<Longrightarrow> quiet run k n c (snd (handle_addr_message cr ev st k ty parsed hs clock c))"
  by (simp add: quiet_def run_message kept_message)

lemma quiet_malformed: "quiet run k n c (snd (handle_malformed cr k env e valid c))"
  by (simp add: quiet_def run_malformed kept_malformed)

lemma quiet_outcome: "quiet run k n c (record_outcome k outcome c)"
  by (simp add: quiet_def run_outcome kept_outcome)

lemma quiet_getaddr_loop:
  assumes sh: "shuffles ev"
  shows "getaddr_loop cr ev st k hs d idle_ms valid conn c = Some (outcome, conn', c') \<Longrightarrow> quiet run k n c c'"
proof (induction "length (flow conn)" arbitrary: valid conn c rule: less_induct)
  case less
  obtain r conn1 where r: "recv_one cr (min (d - conn_now conn) idle_ms) conn = (r, conn1)" by fastforce
  note eq = less.prems [unfolded getaddr_loop.simps [of cr ev st k hs d idle_ms valid conn c] r]
  show ?case
  proof (cases "d \<le> conn_now conn")
    case True
    with eq show ?thesis by (simp add: quiet_refl)
  next
    case now: False
    show ?thesis
    proof (cases r)
      case (Inl e)
      with eq now show ?thesis by (simp add: quiet_refl split: if_splits)
    next
      case (Inr m)
      show ?thesis
      proof (cases m)
        case None
        with eq now Inr show ?thesis by (simp add: quiet_refl split: if_splits)
      next
        case (Some env)
        have fl: "length (flow conn1) < length (flow conn)"
          using recv_one_message_flow [of cr _ conn env conn1] r Inr Some by simp
        consider (addr) "env_command env = ''addr'' \<or> env_command env = ''addrv2''"
          | (ping) "env_command env = ''ping''"
          | (other) "env_command env \<notin> {''addr'', ''addrv2'', ''ping''}" by auto
        then show ?thesis
        proof cases
          case addr
          let ?parsed = "if env_command env = ''addr'' then parse_addr (env_payload env)
            else parse_addrv2 cr (env_payload env)"
          show ?thesis
          proof (cases ?parsed)
            case (Inl e)
            with eq now \<open>r = Inr m\<close> Some addr have "c' = snd (handle_malformed cr k env e valid c)"
              by (auto split: prod.splits)
            then show ?thesis using quiet_malformed by simp
          next
            case (Inr parsed)
            let ?clock = "conn_now (barrier_pause ev conn1)" and ?conn2 = "log_pause ev c (barrier_pause ev conn1)"
            have fl2: "length (flow ?conn2) < length (flow conn)" using fl by simp
            obtain b c1 where h: "handle_addr_message cr ev st k (env_command env) parsed hs ?clock c = (b, c1)"
              by fastforce
            have q1: "quiet run k n c c1"
              using quiet_message [OF sh, of k n c "env_command env" parsed hs ?clock] h by simp
            show ?thesis
            proof (cases b)
              case False
              with eq now \<open>r = Inr m\<close> Some addr Inr h have "c' = c1\<lparr>cw_output_failed := True\<rparr>" by auto
              then show ?thesis using quiet_trans [OF q1 quiet_output] by simp
            next
              case True
              let ?c2 = "on_stats k (\<lambda>s. s\<lparr>valid_addr_messages := valid_addr_messages s + 1\<rparr>) c1"
              have q2: "quiet run k n c ?c2"
                by (rule quiet_trans [OF q1 quiet_stats]) (simp_all add: seen_def)
              show ?thesis
              proof (cases "is_getaddr_reply_complete (length (pm_addrs parsed))")
                case complete: True
                with True eq now \<open>r = Inr m\<close> Some addr Inr h have "c' = ?c2" by auto
                then show ?thesis using q2 by simp
              next
                case incomplete: False
                with True eq now \<open>r = Inr m\<close> Some addr Inr h
                have "getaddr_loop cr ev st k hs d idle_ms (valid + 1) ?conn2 ?c2 = Some (outcome, conn', c')"
                  by auto
                from quiet_trans [OF q2 less.hyps [OF fl2 this]] show ?thesis .
              qed
            qed
          qed
        next
          case ping
          obtain a conn2 where a: "answer_ping cr (env_payload env) (hd_version hs) conn1 = (a, conn2)" by fastforce
          with eq now Inr Some ping consider "c' = c"
            | "getaddr_loop cr ev st k hs d idle_ms valid conn2 c = Some (outcome, conn', c')"
            by (auto split: option.splits sum.splits if_splits)
          then show ?thesis
          proof cases
            case 1
            then show ?thesis by (simp add: quiet_refl)
          next
            case 2
            have "length (flow conn2) < length (flow conn)" using answer_ping_flow [OF a] fl by simp
            from less.hyps [OF this 2] show ?thesis .
          qed
        next
          case other
          with eq now Inr Some
          have "getaddr_loop cr ev st k hs d idle_ms valid conn1 c = Some (outcome, conn', c')" by simp
          from less.hyps [OF fl this] show ?thesis .
        qed
      qed
    qed
  qed
qed

lemma quiet_getaddr:
  "shuffles ev \<Longrightarrow> getaddr cr ev st k tos hs conn c = Some (outcome, conn', c') \<Longrightarrow> quiet run k n c c'"
  by (auto simp: getaddr_def quiet_refl split: prod.splits option.splits sum.splits dest: quiet_getaddr_loop)


subsection \<open>Ends of a turn\<close>

lemma finish_run: "run (c, Finishing k terminal reason a) (finish k terminal reason c, after_pc a)"
proof -
  obtain r s where w: "with_entry k (finish_entry terminal reason) (cw_store c) = (r, s)" by fastforce
  show ?thesis
  proof (cases "r = Some True")
    case False
    have "wstep cr st t (c, Finishing k terminal reason a) (c\<lparr>cw_store := s\<rparr>, after_pc a)"
      using finish_passive [OF w False, of cr st t a] by simp
    from run_move [OF this] w False show ?thesis by (simp add: finish_def)
  next
    case True
    let ?c = "c\<lparr>cw_store := snd (decr_outstanding s)\<rparr>"
    have 1: "wstep cr st t (c, Finishing k terminal reason a) (c\<lparr>cw_store := s\<rparr>, Finished a)"
      using finish_active w True by blast
    have 2: "wstep cr st t (c\<lparr>cw_store := s\<rparr>, Finished a)
        (?c, if ns_outstanding s = 1 then LastDone a else after_pc a)"
      using finish_count [of "c\<lparr>cw_store := s\<rparr>" "ns_outstanding s" "snd (decr_outstanding s)" cr st t a]
      by (cases "ns_outstanding s = 1") (simp_all add: decr_outstanding_def)
    have 3: "wstep cr st t (?c, LastDone a) (close_queues ?c, after_pc a)"
      using finish_last [of cr st t ?c a] by simp
    have f: "finish k terminal reason c = (if ns_outstanding s = 1 then close_queues ?c else ?c)"
      using w True by (simp add: finish_def decr_outstanding_def)
    have "run (c\<lparr>cw_store := s\<rparr>, Finished a) (finish k terminal reason c, after_pc a)"
      unfolding f using run_moves [OF 2] run_move [OF 3] by (auto simp: run_refl)
    then show ?thesis by (rule run_moves [OF 1, rotated]) simp
  qed
qed

lemma verdict_run: "verdict c k terminal \<Longrightarrow> run (c, Busy k n) (finish k terminal reason c, AtLoop)"
  using run_moves [OF give_verdict _ finish_run [of c k terminal reason GoOn]] by simp

lemma retry_run:
  assumes "verdict c k terminal" "terminal \<noteq> Reachable"
    and "retrying \<Longrightarrow> n < ns_handshake_attempts (st_node_settings st)"
  shows "run (c, Busy k n) (retry_or_finish k t retrying terminal reason c, AtLoop)"
proof (cases retrying)
  case False
  then show ?thesis using verdict_run [OF assms(1)] by (simp add: retry_or_finish_def)
next
  case True
  let ?c = "on_entry k (set_state Queued) c"
  obtain b c' where s: "send_key t k ?c = (b, c')" by fastforce
  have 1: "wstep cr st t (c, Busy k n) (?c, Requeueing k terminal reason)"
    using assms True by (intro retry) auto
  have rf: "retry_or_finish k t retrying terminal reason c = (if b then c' else finish k terminal reason c')"
    using True s by (simp add: retry_or_finish_def requeue_def)
  have "run (?c, Requeueing k terminal reason) (retry_or_finish k t retrying terminal reason c, AtLoop)"
  proof (cases b)
    case True
    with s have "wstep cr st t (?c, Requeueing k terminal reason) (c', AtLoop)" by (intro requeue_taken) simp
    from run_move [OF this] True show ?thesis unfolding rf by simp
  next
    case False
    with s have "wstep cr st t (?c, Requeueing k terminal reason) (c', Finishing k terminal reason GoOn)"
      by (intro requeue_refused) simp
    from run_moves [OF this _ finish_run] False show ?thesis unfolding rf by simp
  qed
  then show ?thesis by (rule run_moves [OF 1, rotated]) simp
qed

text \<open>Quiet work, then the end.\<close>

lemma quiet_run:
  assumes "quiet run k n c c'" "lookup (cw_store c) k = Some e" "is_active e"
  obtains e' where "run (c, Busy k n) (c', Busy k n)" "lookup (cw_store c') k = Some e'"
    "is_active e'" "ne_handshake e' = ne_handshake e"
    "time_connect_ms (ne_stats e') = time_connect_ms (ne_stats e)"
  using assms unfolding quiet_def entry_kept_def by blast

subsection \<open>Connecting, handshake, discovery\<close>

lemma quiet_connect:
  "connect ev st k net tmo now c = (r, fin, c') \<Longrightarrow> quiet run k' n c c'"
  by (auto simp: connect_def sam_session_get_def Let_def quiet_sam quiet_refl
      split: network_type.splits option.splits prod.splits sum.splits if_splits
      intro: quiet_trans [OF quiet_sam quiet_sam])

lemma quiet_handshake:
  assumes "handshake cr ev k tos conn c = Some (r, conn', c')"
  shows "quiet run k n c c'"
proof -
  let ?ts = "ev_epoch ev (conn_now conn)"
  let ?c1 = "on_stats k (\<lambda>s. if first_version_send_ts s = None
                  then s\<lparr>first_version_send_ts := Some ?ts\<rparr> else s) c"
  let ?c2 = "update_attempt k ''version_sent'' None None (Some ?ts) ?c1"
  have "quiet run k n c ?c1" by (rule quiet_stats) (simp_all add: seen_def)
  then have q: "quiet run k n c ?c2" by (rule quiet_trans [OF _ quiet_attempt])
  have "c' = c \<or> c' = ?c2"
    using assms unfolding handshake_def Let_def
    by (auto split: prod.splits option.splits sum.splits recv_result.splits if_splits)
  with q show ?thesis by (auto simp: quiet_refl)
qed

lemma quiet_discover:
  assumes "shuffles ev" "discover cr ev st k tos hs conn c = Some (fin, c')"
  shows "quiet run k n c c'"
proof (cases "st_probe_mode st")
  case True
  with assms show ?thesis by (simp add: discover_def quiet_refl)
next
  case False
  with assms(2) obtain outcome conn' c1 where g: "getaddr cr ev st k tos hs conn c = Some (outcome, conn', c1)"
    and c': "c' = record_outcome k outcome c1"
    by (auto simp: discover_def split: option.splits)
  show ?thesis unfolding c' by (rule quiet_trans [OF quiet_getaddr [OF assms(1) g] quiet_outcome])
qed

subsection \<open>Processing one node\<close>

lemma connect_failed_run:
  assumes e: "lookup (cw_store c) k = Some e" "is_active e"
  shows "run (c, Busy k n) (connect_failed st k t n kind c, AtLoop)"
proof -
  let ?c = "update_attempt k ''connect_failed'' (Some kind) None None c"
  let ?v = "if ever_connected k ?c then HandshakeFailed else Unreachable"
  obtain e' where s: "run (c, Busy k n) (?c, Busy k n)" and e': "lookup (cw_store ?c) k = Some e'"
    by (rule quiet_run [OF quiet_attempt e])
  have "ever_connected k ?c \<longleftrightarrow> time_connect_ms (ne_stats e') \<noteq> None"
    by (simp add: ever_connected_def with_entry_fst e')
  then have v: "verdict ?c k ?v" using e' by (simp add: verdict_entry)
  have "run (?c, Busy k n)
      (retry_or_finish k t (n < max_attempts st) ?v (Some kind) ?c, AtLoop)"
    by (rule retry_run [OF v]) simp_all
  with s have "run (c, Busy k n)
      (retry_or_finish k t (n < max_attempts st) ?v (Some kind) ?c, AtLoop)" by (rule run_trans)
  then show ?thesis unfolding connect_failed_def Let_def .
qed

lemma handshake_done_run:
  assumes sh: "shuffles ev" and e: "lookup (cw_store c) k = Some e" "is_active e"
    and d: "handshake_done cr ev st k tos v sent dur conn c = Some (fin, c')"
  shows "run (c, Busy k n) (c', AtLoop)"
proof -
  let ?hs = "from_version v sent dur (key_render k) (key_render k) (socket_local conn) (socket_peer conn)"
  let ?f = "\<lambda>e. e\<lparr>ne_handshake := Some ?hs\<rparr>"
  let ?c1 = "on_entry k ?f c"
  from d obtain c2 where disc: "discover cr ev st k tos ?hs conn ?c1 = Some (fin, c2)"
    and c': "c' = finish k Reachable None (update_attempt k ''handshake_complete'' None None (Some sent) c2)"
    by (auto simp: handshake_done_def Let_def split: option.splits prod.splits)
  have s1: "run (c, Busy k n) (?c1, Busy k n)"
    by (rule run_plain [OF local_entry keeps_seen_on_entry]) (simp_all add: entry_local_def)
  have e1: "lookup (cw_store ?c1) k = Some (?f e)" "is_active (?f e)"
    using e by (simp_all add: update_entry_lookup is_active_def)
  obtain e2 where s2: "run (?c1, Busy k n) (c2, Busy k n)" and e2: "lookup (cw_store c2) k = Some e2"
    "is_active e2" "ne_handshake e2 = ne_handshake (?f e)"
    by (rule quiet_run [OF quiet_discover [OF sh disc] e1])
  let ?c3 = "update_attempt k ''handshake_complete'' None None (Some sent) c2"
  obtain e3 where s3: "run (c2, Busy k n) (?c3, Busy k n)" and e3: "lookup (cw_store ?c3) k = Some e3"
    "ne_handshake e3 = ne_handshake e2"
    by (rule quiet_run [OF quiet_attempt e2(1,2)])
  have "verdict ?c3 k Reachable" using e2 e3 by (simp add: verdict_entry)
  from verdict_run [OF this] have "run (?c3, Busy k n) (c', AtLoop)" unfolding c' .
  with s1 s2 s3 show ?thesis by (meson run_trans)
qed

lemma process_run:
  assumes sh: "shuffles ev" and e: "lookup (cw_store c) k = Some e" "is_active e"
    and p: "process cr ev st k t now c = Some (fin, c')"
  shows "run (c, Started k) (c', AtLoop)"
proof -
  let ?net = "key_network cr c k"
  let ?tos = "timeouts_for st ?net"
  obtain n c1 where sa: "start_attempt k c = (n, c1)" by fastforce
  then have c1: "c1 = on_entry k attempt_begun c" by (simp add: start_attempt_eq)
  have s1: "wstep cr st t (c, Started k) (c1, Busy k n)" by (rule begin_attempt [OF sa])
  have e1: "lookup (cw_store c1) k = Some (attempt_begun e)" "is_active (attempt_begun e)"
    using e by (simp_all add: c1 update_entry_lookup)
  obtain r fin1 c2 where con: "connect ev st k ?net (1000 * unat (to_connect ?tos)) now c1 = (r, fin1, c2)"
    by (metis prod_cases3)
  obtain e2 where s2: "run (c1, Busy k n) (c2, Busy k n)"
    and e2: "lookup (cw_store c2) k = Some e2" "is_active e2"
    by (rule quiet_run [OF quiet_connect [OF con] e1])
  have start: "run (c, Started k) (c2, Busy k n)" by (rule run_moves [OF s1 _ s2]) simp
  show ?thesis
  proof (cases r)
    case (Inl er)
    with p sa con have "c' = connect_failed st k t n (classify_connect_error er ?net) c2"
      by (simp add: process_def Let_def)
    with connect_failed_run [OF e2] start show ?thesis by (auto intro: run_trans)
  next
    case (Inr conn)
    let ?ms = "word_of_nat (conn_now conn - now) :: u64"
    let ?f = "\<lambda>e. e\<lparr>ne_stats := (ne_stats e)\<lparr>time_connect_ms := Some ?ms\<rparr>\<rparr>"
    let ?c3 = "on_stats k (\<lambda>s. s\<lparr>time_connect_ms := Some ?ms\<rparr>) c2"
    let ?c4 = "update_attempt k ''connected'' None (Some ?ms) None ?c3"
    have "run (c2, Busy k n) (?c3, Busy k n)"
      unfolding on_stats_def
      by (rule run_plain [OF local_entry keeps_seen_on_entry]) (simp_all add: entry_local_def seen_def)
    with start have s3: "run (c, Started k) (?c3, Busy k n)" by (meson run_trans)
    have e3: "lookup (cw_store ?c3) k = Some (?f e2)" "is_active (?f e2)"
      using e2 by (simp_all add: on_stats_lookup is_active_def)
    obtain e4 where s4: "run (?c3, Busy k n) (?c4, Busy k n)"
      and e4: "lookup (cw_store ?c4) k = Some e4" "is_active e4"
      by (rule quiet_run [OF quiet_attempt e3])
    from p sa con Inr obtain h conn5 c5 where hs: "handshake cr ev k ?tos conn ?c4 = Some (h, conn5, c5)"
      by (auto simp: process_def Let_def split: option.splits)
    obtain e5 where s5: "run (?c4, Busy k n) (c5, Busy k n)"
      and e5: "lookup (cw_store c5) k = Some e5" "is_active e5"
      by (rule quiet_run [OF quiet_handshake [OF hs] e4])
    have upto: "run (c, Started k) (c5, Busy k n)" using s3 s4 s5 by (meson run_trans)
    have failed: "run (c5, Busy k n)
        (retry_or_finish k t b HandshakeFailed (Some kind) (update_attempt k lbl (Some kind) None None c5), AtLoop)"
      if "b \<longrightarrow> n < max_attempts st" for b kind lbl
    proof -
      let ?c6 = "update_attempt k lbl (Some kind) None None c5"
      obtain e6 where s6: "run (c5, Busy k n) (?c6, Busy k n)" and "lookup (cw_store ?c6) k = Some e6"
        by (rule quiet_run [OF quiet_attempt e5])
      then have v: "verdict ?c6 k HandshakeFailed" by (simp add: verdict_entry)
      show ?thesis using s6 retry_run [OF v, of b n] that by (meson run_trans node_state.distinct)
    qed
    show ?thesis
    proof (cases h)
      case (HsVersion v sent dur)
      with p sa con Inr hs have "handshake_done cr ev st k ?tos v sent dur conn5 c5 = Some (fin, c')"
        by (simp add: process_def Let_def)
      from handshake_done_run [OF sh e5 this] upto show ?thesis by (meson run_trans)
    next
      case HsTimeout
      with p sa con Inr hs have "c' = retry_or_finish k t (st_retry_on_timeout st \<and> n < max_attempts st) HandshakeFailed
          (Some HandshakeTimeout) (update_attempt k ''handshake_timeout'' (Some HandshakeTimeout) None None c5)"
        by (simp add: process_def Let_def)
      then show ?thesis
        using run_trans [OF upto failed [of "st_retry_on_timeout st \<and> n < max_attempts st" HandshakeTimeout "''handshake_timeout''"]]
        by simp
    next
      case (HsFailed kind detail)
      with p sa con Inr hs have "c' = retry_or_finish k t (n < max_attempts st) HandshakeFailed (Some kind)
          (update_attempt k ''handshake_failed'' (Some kind) None None c5)"
        by (simp add: process_def Let_def)
      then show ?thesis
        using run_trans [OF upto failed [of "n < max_attempts st" kind "''handshake_failed''"]] by simp
    qed
  qed
qed


lemma turn_run:
  assumes sh: "shuffles ev" and so: "store_ok (cw_store c)"
    and q: "set (queued (cw_queues c)) \<subseteq> set_mset (active_keys (cw_store c))"
    and turn: "worker_turn cr ev st t None now c = (r, c')" "r \<noteq> WorkerStuck"
  shows "run (c, AtLoop) (c', turn_pc r)"
proof (cases "cw_shutdown c")
  case True
  with turn run_move [OF loop_exit [OF True]] show ?thesis by (auto simp: worker_turn_def)
next
  case live: False
  obtain m qq where rv: "queue_recv (queue_of t (cw_queues c)) = (m, qq)" by fastforce
  have s0: "run (c, AtLoop) (c, AtRecv)" by (rule run_move [OF loop_recv [OF live]]) simp
  show ?thesis
  proof (cases m)
    case QueueClosed
    with rv have "wstep cr st t (c, AtRecv) (c, Exited)" by (intro recv_closed) simp
    from run_move [OF this] have "run (c, AtRecv) (c, Exited)" by simp
    with s0 have "run (c, AtLoop) (c, Exited)" by (rule run_trans)
    with turn live rv QueueClosed show ?thesis by (auto simp: worker_turn_def)
  next
    case QueueEmpty
    with s0 turn live rv show ?thesis by (auto simp: worker_turn_def)
  next
    case (Received k)
    let ?c1 = "c\<lparr>cw_queues := set_queue t qq (cw_queues c)\<rparr>"
    have rk: "queue_recv (queue_of t (cw_queues c)) = (Received k, qq)" using rv Received by simp
    have s1: "run (c, AtLoop) (?c1, Got k)"
      by (rule run_trans [OF s0 run_move [OF recv_got [OF rk]]]) simp
    have "k \<in> set (queued (cw_queues c))"
      using arg_cong [OF recv_key(1) [OF rk], of set_mset] by simp
    with q have "k \<in># active_keys (cw_store c)" by blast
    from active_member [OF this so] obtain e where e: "lookup (cw_store c) k = Some e" by blast
    obtain b c2 where sl: "reserve_node_slot st ?c1 = (b, c2)" by fastforce
    show ?thesis
    proof (cases b)
      case False
      with sl have g: "wstep cr st t (?c1, Got k) (c2, Finishing k BudgetDiscarded None CloseGoOn)"
        by (intro slot_none) simp
      have f: "run (c2, Finishing k BudgetDiscarded None CloseGoOn) (finish k BudgetDiscarded None c2, Closing False)"
        using finish_run [of c2 k BudgetDiscarded None CloseGoOn] by simp
      have "wstep cr st t (finish k BudgetDiscarded None c2, Closing False)
          (close_queues (finish k BudgetDiscarded None c2), AtLoop)"
        using close_work [of cr st t _ False] by simp
      from run_trans [OF f run_move [OF this]]
      have "run (c2, Finishing k BudgetDiscarded None CloseGoOn) (close_queues (finish k BudgetDiscarded None c2), AtLoop)"
        by simp
      from run_trans [OF s1 run_moves [OF g _ this]]
      have "run (c, AtLoop) (close_queues (finish k BudgetDiscarded None c2), AtLoop)" by simp
      moreover have "r = WorkerContinues now" "c' = close_queues (finish k BudgetDiscarded None c2)"
        using turn live rk sl False by (simp_all add: worker_turn_def)
      ultimately show ?thesis by simp
    next
      case True
      let ?c3 = "on_entry k (set_state Processing) c2"
      from sl True have g: "wstep cr st t (?c1, Got k) (c2, Slot k)" by (intro slot_free) simp
      have "run (c2, Slot k) (?c3, Started k)" by (rule run_move [OF begin_node]) simp
      from run_trans [OF s1 run_moves [OF g _ this]] have s3: "run (c, AtLoop) (?c3, Started k)" by simp
      have e3: "lookup (cw_store ?c3) k = Some (set_state Processing e)" "is_active (set_state Processing e)"
        using e reserve_slot_fields(1) [OF sl] by (simp_all add: update_entry_lookup set_state_def is_active_def)
      have pt: "(r, c') = (case process cr ev st k t now ?c3 of
          None \<Rightarrow> (WorkerStuck, ?c3) | Some (fin, c) \<Rightarrow> (WorkerContinues fin, c))"
        using turn(1) live rk sl True by (simp add: worker_turn_def Let_def)
      with turn(2) obtain fin where pr: "process cr ev st k t now ?c3 = Some (fin, c')" "r = WorkerContinues fin"
        by (auto split: option.splits prod.splits)
      with process_run [OF sh e3 pr(1)] s3 show ?thesis by (auto intro: run_trans)
    qed
  qed
qed

end

end
