(* ===== verification/Crawl_Refine.thy ===== *)
theory Crawl_Refine
  imports Conversation Turn
begin

section \<open>The worker's turn is a run of the step relation\<close>

text \<open>
  The functional model of a turn (\<open>worker_turn\<close> with \<open>process\<close> of Crawler.thy, the code's functions
  composed as the code composes them) refines the step relation: what it computes is reached by the
  atomic steps of one worker. So what is proved of the reachable states holds after every turn.
\<close>

definition wsteps ::
  "crates \<Rightarrow> settings \<Rightarrow> transport \<Rightarrow> crawler \<times> pc \<Rightarrow> crawler \<times> pc \<Rightarrow> bool" where
  "wsteps cr st t = (wstep cr st t)\<^sup>*\<^sup>*"

lemma wsteps_one: "wstep cr st t x y \<Longrightarrow> wsteps cr st t x y"
  by (simp add: wsteps_def r_into_rtranclp)

lemma wsteps_refl [simp]: "wsteps cr st t x x"
  by (simp add: wsteps_def)

lemma wsteps_trans: "wsteps cr st t x y \<Longrightarrow> wsteps cr st t y z \<Longrightarrow> wsteps cr st t x z"
  by (simp add: wsteps_def rtranclp_trans)

lemma plain_wsteps: "plain_steps cr st t x y \<Longrightarrow> wsteps cr st t x y"
  unfolding plain_steps_def wsteps_def by (erule rtranclp_mono [THEN predicate2D, rotated]) blast

lemma stats_wsteps:
  assumes "\<And>s. handshake_attempts (f s) = handshake_attempts s"
  shows "wsteps cr st t (c, Busy k n) (on_stats k f c, Busy k n)"
  unfolding on_stats_def by (intro wsteps_one local_entry) (simp add: entry_local_def assms)

lemma record_wsteps: "record_event line c = (eid, c') \<Longrightarrow> wsteps cr st t (c, Busy k n) (c', Busy k n)"
  using record_event_side [of line c eid c'] local_side by (auto intro: wsteps_one)

text \<open>The interface of Turn on the steps of the crawl.\<close>

interpretation crawl_turn: turn_runs cr st t "wsteps cr st t" for cr st t
proof
  show "wsteps cr st t x x" for x by simp
  show "wsteps cr st t x z" if "wsteps cr st t x y" "wsteps cr st t y z" for x y z
    using that by (rule wsteps_trans)
  show "wsteps cr st t (c, p) (c', p')" if "wstep cr st t (c, p) (c', p')" for c p c' p'
    using that by (rule wsteps_one)
  show "wsteps cr st t (c, Busy k n) (snd (handle_addr_message cr ev st k ty parsed hs clock c), Busy k n)"
    if sh: "shuffles ev" for ev c k n ty parsed hs clock
  proof (rule message_shape [OF sh, of k cr parsed c st ty hs clock])
    fix r c1 eid xs now
    assume e: "record_event (block_text r parsed) (on_stats k (record_message parsed) c) = (eid, c1)"
      and xs: "\<forall>a \<in> set xs. is_enabled st (ad_network a)"
      and c': "snd (handle_addr_message cr ev st k ty parsed hs clock c) = fold (frontier_one cr st now) xs c1"
    show ?thesis
      unfolding c'
      by (rule wsteps_trans [OF stats_wsteps wsteps_trans [OF record_wsteps [OF e] plain_wsteps [OF frontier_all_plain [OF xs]]]])
        (rule record_message_fields)
  qed
  show "wsteps cr st t (c, Busy k n) (snd (handle_malformed cr k env e valid c), Busy k n)" for c k n env e valid
  proof (rule malformed_shape [of cr k env e c valid])
    fix eid c1 out
    assume r: "record_event (malformed_text cr (ak_host k) (ak_port k) (env_command env) e (env_payload env))
        (on_stats k (\<lambda>s. s\<lparr>malformed_addr_messages := malformed_addr_messages s + 1\<rparr>) c) = (eid, c1)"
      and c': "snd (handle_malformed cr k env e valid c) = side_update (cw_sam c1) (cw_addr_log c1) out c1"
    show ?thesis
      unfolding c' by (rule wsteps_trans [OF stats_wsteps wsteps_trans [OF record_wsteps [OF r] wsteps_one [OF local_side]]]) simp
  qed
  show "wsteps cr st t (c, Busy k n) (record_outcome k outcome c, Busy k n)" for c k n outcome
  proof (rule outcome_shape [of k outcome c])
    fix eid c1 out
    assume r: "record_event (outcome_text (ak_host k) (ak_port k) outcome)
        (on_stats k (\<lambda>s. s\<lparr>collection_outcome := outcome\<rparr>) c) = (eid, c1)"
      and c': "record_outcome k outcome c = side_update (cw_sam c1) (cw_addr_log c1) out c1"
    show ?thesis
      unfolding c' by (rule wsteps_trans [OF stats_wsteps wsteps_trans [OF record_wsteps [OF r] wsteps_one [OF local_side]]]) simp
  qed
qed

lemma wsteps_reach:
  assumes "wsteps cr st t (c, p) x" "crawl_reach cr st (c, ws)" "i < length ws" "ws ! i = (t, p)"
  shows "crawl_reach cr st (fst x, ws[i := (t, snd x)])"
  using assms(1) unfolding wsteps_def
proof (induction rule: rtranclp_induct)
  case base
  have "ws[i := (t, p)] = ws" using assms(4) by (metis list_update_id)
  with assms(2) show ?case by simp
next
  case (step y z)
  obtain cy py cz pz where yz: "y = (cy, py)" "z = (cz, pz)" by fastforce
  with step.hyps(2) worker_step [of i "ws[i := (t, py)]" t py cr st cy cz pz] assms(3)
  have "crawl_step cr st (cy, ws[i := (t, py)]) (cz, ws[i := (t, pz)])" by simp
  with step.IH yz show ?case by (auto intro: reach_step)
qed

subsection \<open>Turns and reachable states\<close>

text \<open>The turn of a worker as the functions of the code compose it - receive, reserve a slot, connect,
  handshake, collect addresses, retry or finish - is a run of the step relation: from a reachable
  state it leads to a reachable state, with that worker at the head of its loop, waiting, or returned.\<close>

lemma turn_refines_steps:
  assumes "crawl_reach cr st (c, ws)" "runnable st" "shuffles ev" "i < length ws" "ws ! i = (t, AtLoop)"
    and "worker_turn cr ev st t None now c = (r, c')" "r \<noteq> WorkerStuck"
  shows "crawl_reach cr st (c', ws[i := (t, turn_pc r)])"
proof -
  have b: "balanced st (c, ws)" using crawl_reach_inv [OF assms(1,2)] by (simp add: crawl_inv_def)
  have "(t, AtLoop) \<in> set ws" using assms(4,5) nth_mem by force
  from balanced_apart [OF b this] have "set (queued (cw_queues c)) \<subseteq> set_mset (active_keys (cw_store c))"
    by (simp add: apart_def)
  moreover have "store_ok (cw_store c)" using b by (simp add: balanced_def)
  ultimately have "wsteps cr st t (c, AtLoop) (c', turn_pc r)"
    using crawl_turn.turn_run [OF assms(3) _ _ assms(6,7)] by blast
  from wsteps_reach [OF this assms(1,4,5)] show ?thesis by simp
qed

text \<open>A network on which nothing answers.\<close>

definition silent_env :: env where
  "silent_env = \<lparr>ev_dial = (\<lambda>_ _. None), ev_epoch = (\<lambda>_. 5), ev_nonce = (\<lambda>_. 0), ev_sam_id = (\<lambda>_. 0),
     ev_shuffle = (\<lambda>_ xs. xs), ev_wait = (\<lambda>_ _. 0)\<rparr>"

lemma silent_answers: "answering_env silent_env 0 0"
  by (simp add: answering_env_def silent_env_def waits_within_def)

end
