(* ===== verification/Observation.thy ===== *)
theory Observation
  imports Crawl_Refine Seen "HOL-Library.Sublist"
begin

section \<open>Observations and the barrier (src/crawler.rs, src/addrlog.rs)\<close>

text \<open>
  A worker makes an observation of a peer in four accesses: it takes the read side of
  \<open>observation_barrier\<close>, updates the statistics of the entry, appends the event to the log, and later
  drops the guard. Here each worker has, beside its program counter, a phase that says where it
  is in this, and the system keeps the history of the observations. A checkpoint holds the write
  side: while \<open>barred\<close>, no worker enters.
\<close>

subsection \<open>Events\<close>

datatype observation =
  ObsMessage parsed_addr_message
| ObsMalformed
| ObsOutcome collection_outcome

text \<open>What an observation does to the statistics.\<close>

fun observe :: "observation \<Rightarrow> node_stats \<Rightarrow> node_stats" where
  "observe (ObsMessage parsed) s = record_message parsed s"
| "observe ObsMalformed s = s\<lparr>malformed_addr_messages := malformed_addr_messages s + 1\<rparr>"
| "observe (ObsOutcome outcome) s = s\<lparr>collection_outcome := outcome\<rparr>"

text \<open>The text that the log gets for it.\<close>

inductive describes :: "crates \<Rightarrow> addr_key \<Rightarrow> observation \<Rightarrow> (u64 \<Rightarrow> string) \<Rightarrow> bool" for cr :: crates where
  describes_message: "rp_host r = ak_host k \<Longrightarrow> rp_port r = ak_port k \<Longrightarrow>
    rp_network r = network_as_str (classify cr (ak_host k)) \<Longrightarrow>
    describes cr k (ObsMessage parsed) (block_text r parsed)"
| describes_malformed:
    "describes cr k ObsMalformed (malformed_text cr (ak_host k) (ak_port k) message_type err payload)"
| describes_outcome: "describes cr k (ObsOutcome outcome) (outcome_text (ak_host k) (ak_port k) outcome)"

text \<open>An event of the history; it has its id when the log has acknowledged it.\<close>

record event =
  ob_key :: addr_key
  ob_what :: observation
  ob_text :: "u64 \<Rightarrow> string"
  ob_id :: "u64 option"

definition tally :: "event list \<Rightarrow> addr_key \<Rightarrow> node_stats" where
  "tally h k = fold (\<lambda>ev. observe (ob_what ev)) (filter (\<lambda>ev. ob_key ev = k) h) stats_default"

subsection \<open>Phases\<close>

text \<open>The comment says what the worker has done.\<close>

datatype phase =
  Outside                                    \<comment> \<open>no guard\<close>
| Entered observation "u64 \<Rightarrow> string"        \<comment> \<open>\<open>observation_barrier.read\<close>\<close>
| Counted observation "u64 \<Rightarrow> string"        \<comment> \<open>and the statistics\<close>
| Recorded                                   \<comment> \<open>and the log\<close>

text \<open>A panic drops the guard; what was counted by then is in the history without an id.\<close>

fun abandoned :: "addr_key \<Rightarrow> phase \<Rightarrow> event list" where
  "abandoned k (Counted what text) = [\<lparr>ob_key = k, ob_what = what, ob_text = text, ob_id = None\<rparr>]"
| "abandoned k _ = []"

inductive ostep ::
  "crates \<Rightarrow> settings \<Rightarrow> bool \<Rightarrow> transport \<Rightarrow>
   crawler \<times> pc \<times> phase \<times> event list \<Rightarrow> crawler \<times> pc \<times> phase \<times> event list \<Rightarrow> bool"
  for cr :: crates and st :: settings and barred :: bool and t :: transport where
  o_plain: "wstep cr st t (c, p) (c', p') \<Longrightarrow> keeps_seen c c' \<Longrightarrow> ph = Outside \<or> ph = Recorded \<and> talking p' \<Longrightarrow>
    ostep cr st barred t (c, p, ph, h) (c', p', ph, h)"
| o_enter: "\<not> barred \<Longrightarrow> describes cr k what text \<Longrightarrow>
    ostep cr st barred t (c, Busy k n, Outside, h) (c, Busy k n, Entered what text, h)"
| o_count: "ostep cr st barred t (c, Busy k n, Entered what text, h)
    (on_stats k (observe what) c, Busy k n, Counted what text, h)"
| o_record: "record_event text c = (eid, c') \<Longrightarrow>
    ostep cr st barred t (c, Busy k n, Counted what text, h)
      (c', Busy k n, Recorded, h @ [\<lparr>ob_key = k, ob_what = what, ob_text = text, ob_id = eid\<rparr>])"
| o_leave: "ostep cr st barred t (c, Busy k n, Recorded, h) (c, Busy k n, Outside, h)"
| o_panic: "ostep cr st barred t (c, Busy k n, ph, h)
    (c\<lparr>cw_worker_failed := True, cw_shutdown := True\<rparr>, Finishing k HandshakeFailed (Some WorkerFailed) CloseExit,
     Outside, h @ abandoned k ph)"

text \<open>The crawl with its observations: a step of a worker, or a part of Ctrl+C.\<close>

type_synonym observed = "(crawler \<times> (transport \<times> pc) list) \<times> phase list \<times> event list"

inductive observed_step :: "crates \<Rightarrow> settings \<Rightarrow> bool \<Rightarrow> observed \<Rightarrow> observed \<Rightarrow> bool"
  for cr :: crates and st :: settings and barred :: bool where
  observed_worker: "i < length ws \<Longrightarrow> ws ! i = (t, p) \<Longrightarrow>
    ostep cr st barred t (c, p, phs ! i, h) (c', p', ph', h') \<Longrightarrow>
    observed_step cr st barred ((c, ws), phs, h) ((c', ws[i := (t, p')]), phs[i := ph'], h')"
| observed_flag: "observed_step cr st barred ((c, ws), phs, h) ((c\<lparr>cw_shutdown := True\<rparr>, ws), phs, h)"
| observed_close: "cw_shutdown c \<Longrightarrow>
    observed_step cr st barred ((c, ws), phs, h) ((close_queues c, ws), phs, h)"

subsection \<open>The observed crawl is a crawl\<close>

lemma observe_keeps:
  "handshake_attempts (observe what s) = handshake_attempts s" "time_connect_ms (observe what s) = time_connect_ms s"
  by (cases what; simp add: record_message_fields)+

lemma ostep_wsteps:
  assumes "ostep cr st barred t (c, p, ph, h) (c', p', ph', h')"
  shows "wsteps cr st t (c, p) (c', p')"
  using assms
proof cases
  case o_plain
  then show ?thesis by (auto intro: wsteps_one)
next
  case (o_count k n what line)
  then have "wstep cr st t (c, Busy k n) (c', Busy k n)"
    unfolding o_count(3) on_stats_def by (intro local_entry) (simp add: entry_local_def observe_keeps)
  then show ?thesis using o_count by (simp add: wsteps_one)
next
  case (o_record line eid k n what)
  from record_event_side [OF o_record(6)] obtain log where "c' = side_update (cw_sam c) log False c" by blast
  then show ?thesis using o_record local_side by (auto intro: wsteps_one)
next
  case (o_panic k n)
  then show ?thesis using panic by (auto intro: wsteps_one)
qed simp_all

lemma wsteps_crawl:
  assumes "wsteps cr st t (c, p) (c', p')" "i < length ws" "ws ! i = (t, p)"
  shows "(crawl_step cr st)\<^sup>*\<^sup>* (c, ws) (c', ws[i := (t, p')])"
proof -
  have "(crawl_step cr st)\<^sup>*\<^sup>* (c, ws) (fst x, ws[i := (t, snd x)])" if "wsteps cr st t (c, p) x" for x
    using that unfolding wsteps_def
  proof (induction rule: rtranclp_induct)
    case base
    have "ws[i := (t, p)] = ws" using assms(3) by (metis list_update_id)
    then show ?case by simp
  next
    case (step y z)
    obtain cy py cz pz where yz: "y = (cy, py)" "z = (cz, pz)" by fastforce
    with step.hyps(2) worker_step [of i "ws[i := (t, py)]" t py cr st cy cz pz] assms(2)
    have "crawl_step cr st (cy, ws[i := (t, py)]) (cz, ws[i := (t, pz)])" by simp
    with step.IH yz show ?case by (simp add: rtranclp.rtrancl_into_rtrancl)
  qed
  from this [OF assms(1)] show ?thesis by simp
qed

lemma observed_step_crawl:
  assumes "observed_step cr st barred (x, phs, h) (x', phs', h')"
  shows "(crawl_step cr st)\<^sup>*\<^sup>* x x'"
  using assms
proof cases
  case (observed_worker i ws t p c c' p' ph')
  from ostep_wsteps [OF observed_worker(6)] observed_worker(4,5)
  have "(crawl_step cr st)\<^sup>*\<^sup>* (c, ws) (c', ws[i := (t, p')])" by (rule wsteps_crawl)
  with observed_worker show ?thesis by simp
next
  case (observed_flag c ws)
  then show ?thesis by (simp add: r_into_rtranclp signal_flag)
next
  case (observed_close c ws)
  then show ?thesis by (simp add: r_into_rtranclp signal_close)
qed

subsection \<open>The statistics are the tally of the history\<close>

lemma tally_snoc: "tally (h @ [ev]) k = (if ob_key ev = k then observe (ob_what ev) (tally h k) else tally h k)"
  by (simp add: tally_def)

lemma tally_nil [simp]: "tally [] k = stats_default"
  by (simp add: tally_def)

lemma tally_absent: "(\<And>ev. ev \<in> set h \<Longrightarrow> ob_key ev \<noteq> k) \<Longrightarrow> tally h k = stats_default"
proof -
  assume "\<And>ev. ev \<in> set h \<Longrightarrow> ob_key ev \<noteq> k"
  then have "filter (\<lambda>ev. ob_key ev = k) h = []" by (simp add: filter_empty_conv)
  then show ?thesis by (simp add: tally_def)
qed

lemma seen_record_advertised: "seen (record_advertised net s) = record_advertised net (seen s)"
  by (cases net) (simp_all add: record_advertised_def seen_def Let_def)

lemma seen_observe: "seen (observe what s) = observe what (seen s)"
proof (cases what)
  case (ObsMessage parsed)
  have "seen (fold (\<lambda>a s. record_advertised (ad_network a) s) xs s) =
      fold (\<lambda>a s. record_advertised (ad_network a) s) xs (seen s)" for xs :: "advertised_addr list" and s
    by (induction xs arbitrary: s) (simp_all add: seen_record_advertised)
  moreover have "seen (s\<lparr>advertised_total := x, advertised_unknown := y\<rparr>) =
      (seen s)\<lparr>advertised_total := x, advertised_unknown := y\<rparr>"
    "advertised_total (seen s) = advertised_total s" "advertised_unknown (seen s) = advertised_unknown s" for s x y
    by (simp_all add: seen_def)
  ultimately have "seen (record_message parsed s) = record_message parsed (seen s)"
    unfolding record_message_def Let_def by metis
  with ObsMessage show ?thesis by simp
qed (simp_all add: seen_def)

text \<open>What worker has counted and not yet recorded an observation of an address.\<close>

definition pending :: "(transport \<times> pc) list \<Rightarrow> phase list \<Rightarrow> addr_key \<Rightarrow> observation \<Rightarrow> bool" where
  "pending ws phs k what \<longleftrightarrow>
     (\<exists>i < length ws. \<exists>t n line. ws ! i = (t, Busy k n) \<and> phs ! i = Counted what line)"

fun phase_ok :: "crates \<Rightarrow> pc \<Rightarrow> phase \<Rightarrow> bool" where
  "phase_ok cr p Outside \<longleftrightarrow> True"
| "phase_ok cr p Recorded \<longleftrightarrow> talking p"
| "phase_ok cr (Busy k n) (Entered what line) \<longleftrightarrow> describes cr k what line"
| "phase_ok cr (Busy k n) (Counted what line) \<longleftrightarrow> describes cr k what line"
| "phase_ok cr _ _ \<longleftrightarrow> False"

definition phases_ok :: "crates \<Rightarrow> (transport \<times> pc) list \<Rightarrow> phase list \<Rightarrow> bool" where
  "phases_ok cr ws phs \<longleftrightarrow> length phs = length ws \<and> (\<forall>i < length ws. phase_ok cr (snd (ws ! i)) (phs ! i))"

definition tallied :: "crawler \<Rightarrow> (transport \<times> pc) list \<Rightarrow> phase list \<Rightarrow> event list \<Rightarrow> bool" where
  "tallied c ws phs h \<longleftrightarrow>
     (\<forall>k e. lookup (cw_store c) k = Some e \<longrightarrow>
        (\<forall>what. pending ws phs k what \<longrightarrow> seen (ne_stats e) = observe what (tally h k)) \<and>
        ((\<forall>what. \<not> pending ws phs k what) \<longrightarrow> seen (ne_stats e) = tally h k))"

definition known :: "crawler \<Rightarrow> event list \<Rightarrow> bool" where
  "known c h \<longleftrightarrow> (\<forall>ev \<in> set h. lookup (cw_store c) (ob_key ev) \<noteq> None)"

text \<open>Every event is written with the text of its observation.\<close>

definition described :: "crates \<Rightarrow> event list \<Rightarrow> bool" where
  "described cr h \<longleftrightarrow> (\<forall>ev \<in> set h. describes cr (ob_key ev) (ob_what ev) (ob_text ev))"

text \<open>Each worker at work is the only one on its address, and the address is in the store.\<close>

definition sole :: "crawler \<Rightarrow> (transport \<times> pc) list \<Rightarrow> bool" where
  "sole c ws \<longleftrightarrow>
     (\<forall>i < length ws. \<forall>t k n. ws ! i = (t, Busy k n) \<longrightarrow>
        lookup (cw_store c) k \<noteq> None \<and> (\<forall>j < length ws. \<forall>u m. ws ! j = (u, Busy k m) \<longrightarrow> j = i))"

lemma crawl_sole:
  assumes "crawl_reach cr st (c, ws)" "runnable st"
  shows "sole c ws"
  unfolding sole_def
proof (intro allI impI conjI)
  have b: "balanced st (c, ws)" using crawl_reach_inv [OF assms] by (simp add: crawl_inv_def)
  then have so: "store_ok (cw_store c)" by (simp add: balanced_def)
  fix i t k n
  assume i: "i < length ws" "ws ! i = (t, Busy k n)"
  then have "(t, Busy k n) \<in> set ws" using nth_mem by force
  from mset_subset_eqD [OF balanced_held [OF b this], of k] have "k \<in># active_keys (cw_store c)" by simp
  from active_member [OF this so] show "lookup (cw_store c) k \<noteq> None" by auto
  fix j u m
  assume j: "j < length ws" "ws ! j = (u, Busy k m)"
  show "j = i" using balanced_disjoint [OF b i j, of k] by auto
qed

text \<open>How the phases and the pending observations change when one worker moves.\<close>

lemma phases_ok_update:
  assumes "phases_ok cr ws phs" "phase_ok cr p' ph'"
  shows "phases_ok cr (ws[i := (t, p')]) (phs[i := ph'])"
  unfolding phases_ok_def
proof (intro conjI allI impI)
  show "length (phs[i := ph']) = length (ws[i := (t, p')])" using assms(1) by (simp add: phases_ok_def)
  fix j assume "j < length (ws[i := (t, p')])"
  with assms show "phase_ok cr (snd (ws[i := (t, p')] ! j)) (phs[i := ph'] ! j)"
    by (cases "j = i") (simp_all add: phases_ok_def)
qed

fun counting :: "phase \<Rightarrow> bool" where
  "counting (Counted what line) \<longleftrightarrow> True"
| "counting _ \<longleftrightarrow> False"

lemma pending_same:
  assumes "\<not> counting (phs ! i)" "\<not> counting ph'" "i < length ws" "length phs = length ws"
  shows "pending (ws[i := w]) (phs[i := ph']) k what \<longleftrightarrow> pending ws phs k what"
proof -
  have "(ws[i := w] ! j = (t, Busy k n) \<and> phs[i := ph'] ! j = Counted what line) \<longleftrightarrow>
      (ws ! j = (t, Busy k n) \<and> phs ! j = Counted what line)" for j t n line
    using assms by (cases "j = i") auto
  then show ?thesis by (simp add: pending_def)
qed

lemma pending_counted:
  assumes "\<not> counting (phs ! i)" "i < length ws" "length phs = length ws" "ws ! i = (t, Busy k n)"
  shows "pending ws (phs[i := Counted what line]) k' what' \<longleftrightarrow>
    pending ws phs k' what' \<or> k' = k \<and> what' = what"
  unfolding pending_def
proof (intro iffI; elim exE conjE disjE)
  fix j u m l
  assume "j < length ws" "ws ! j = (u, Busy k' m)" "phs[i := Counted what line] ! j = Counted what' l"
  with assms show "(\<exists>i<length ws. \<exists>t n line. ws ! i = (t, Busy k' n) \<and> phs ! i = Counted what' line) \<or> k' = k \<and> what' = what"
    by (cases "j = i") auto
next
  fix j u m l
  assume j: "j < length ws" "ws ! j = (u, Busy k' m)" "phs ! j = Counted what' l"
  with assms(1) have "j \<noteq> i" by auto
  with j show "\<exists>j<length ws. \<exists>u m l. ws ! j = (u, Busy k' m) \<and> phs[i := Counted what line] ! j = Counted what' l" by auto
next
  assume "k' = k" "what' = what"
  with assms show "\<exists>j<length ws. \<exists>u m l. ws ! j = (u, Busy k' m) \<and> phs[i := Counted what line] ! j = Counted what' l" by auto
qed

lemma pending_dropped:
  assumes "\<not> counting ph'" "i < length ws" "length phs = length ws" "ws ! i = (t, Busy k n)" "sole c ws"
  shows "pending (ws[i := (t, p')]) (phs[i := ph']) k' what \<longleftrightarrow> pending ws phs k' what \<and> k' \<noteq> k"
  unfolding pending_def
proof (intro iffI; elim exE conjE)
  fix j u m l
  assume j: "j < length (ws[i := (t, p')])" "ws[i := (t, p')] ! j = (u, Busy k' m)" "phs[i := ph'] ! j = Counted what l"
  with assms(1,2,3) have ji: "j \<noteq> i" by auto
  with j have wj: "j < length ws" "ws ! j = (u, Busy k' m)" "phs ! j = Counted what l" by auto
  have "k' \<noteq> k"
  proof
    assume "k' = k"
    with wj assms(2,4,5) have "j = i" unfolding sole_def by blast
    with ji show False by simp
  qed
  with wj show "(\<exists>i<length ws. \<exists>t n line. ws ! i = (t, Busy k' n) \<and> phs ! i = Counted what line) \<and> k' \<noteq> k" by blast
next
  fix j u m l
  assume j: "k' \<noteq> k" "j < length ws" "ws ! j = (u, Busy k' m)" "phs ! j = Counted what l"
  with assms(4) have "j \<noteq> i" by auto
  with j show "\<exists>j<length (ws[i := (t, p')]). \<exists>u m l. ws[i := (t, p')] ! j = (u, Busy k' m) \<and> phs[i := ph'] ! j = Counted what l"
    by auto
qed

lemma tallied_keeps:
  assumes "tallied c ws phs h" "keeps_seen c c'" "known c h" "sole c ws"
    and "\<And>k what. pending ws' phs' k what \<longleftrightarrow> pending ws phs k what"
  shows "tallied c' ws' phs' h"
  unfolding tallied_def assms(5)
proof (intro allI impI)
  fix k e'
  assume e': "lookup (cw_store c') k = Some e'"
  show "(\<forall>what. pending ws phs k what \<longrightarrow> seen (ne_stats e') = observe what (tally h k)) \<and>
      ((\<forall>what. \<not> pending ws phs k what) \<longrightarrow> seen (ne_stats e') = tally h k)"
  proof (cases "lookup (cw_store c) k")
    case (Some e)
    from keeps_seen_old [OF assms(2) Some] e' have "seen (ne_stats e') = seen (ne_stats e)" by auto
    with assms(1) Some show ?thesis by (simp add: tallied_def)
  next
    case None
    have "ne_stats e' = stats_default" by (rule keeps_seen_new [OF assms(2) None e'])
    moreover have "tally h k = stats_default"
      using assms(3) None by (intro tally_absent) (auto simp: known_def)
    moreover have "\<not> pending ws phs k what" for what
      using assms(4) None unfolding sole_def pending_def by blast
    ultimately show ?thesis by simp
  qed
qed

lemma known_keeps:
  assumes "known c h" "keeps_seen c c'"
  shows "known c' h"
  unfolding known_def
proof
  fix ev assume "ev \<in> set h"
  with assms(1) obtain e where "lookup (cw_store c) (ob_key ev) = Some e" by (auto simp: known_def)
  from keeps_seen_old [OF assms(2) this] show "lookup (cw_store c') (ob_key ev) \<noteq> None" by auto
qed

lemma known_snoc: "known c h \<Longrightarrow> lookup (cw_store c) (ob_key ev) \<noteq> None \<Longrightarrow> known c (h @ [ev])"
  by (simp add: known_def)

text \<open>Counting: the entry gets ahead of the history.\<close>

lemma tallied_count:
  assumes t: "tallied c ws phs h" and s: "sole c ws" and len: "length phs = length ws"
    and i: "i < length ws" "ws ! i = (t, Busy k n)" "\<not> counting (phs ! i)"
  shows "tallied (on_stats k (observe what) c) ws (phs[i := Counted what line]) h"
  unfolding tallied_def pending_counted [OF i(3,1) len i(2)]
proof (intro allI impI)
  have np: "\<not> pending ws phs k w" for w
  proof
    assume "pending ws phs k w"
    then obtain j u m l where j: "j < length ws" "ws ! j = (u, Busy k m)" "phs ! j = Counted w l"
      unfolding pending_def by blast
    with s i(1,2) have "j = i" unfolding sole_def by blast
    with j(3) i(3) show False by simp
  qed
  fix k' e'
  assume e': "lookup (cw_store (on_stats k (observe what) c)) k' = Some e'"
  show "(\<forall>w. pending ws phs k' w \<or> k' = k \<and> w = what \<longrightarrow> seen (ne_stats e') = observe w (tally h k')) \<and>
      ((\<forall>w. \<not> (pending ws phs k' w \<or> k' = k \<and> w = what)) \<longrightarrow> seen (ne_stats e') = tally h k')"
  proof (cases "k' = k")
    case True
    with e' obtain e where e: "lookup (cw_store c) k = Some e" "ne_stats e' = observe what (ne_stats e)"
      by (auto simp: on_stats_lookup)
    with t np have "seen (ne_stats e) = tally h k" unfolding tallied_def by blast
    with e(2) True np show ?thesis by (simp add: seen_observe)
  next
    case False
    then have "lookup (cw_store c) k' = Some e'"
      using e' by (simp add: on_stats_def update_entry_lookup)
    with t False show ?thesis by (simp add: tallied_def)
  qed
qed

text \<open>Recording, or dropping the guard in a panic: the history catches up.\<close>

lemma tallied_record:
  assumes t: "tallied c ws phs h" and s: "sole c ws" and len: "length phs = length ws"
    and i: "i < length ws" "ws ! i = (t, Busy k n)" "phs ! i = Counted what line"
    and ph': "\<not> counting ph'" and c': "ns_map (cw_store c') = ns_map (cw_store c)"
    and ev: "ob_key ev = k" "ob_what ev = what"
  shows "tallied c' (ws[i := (t, p')]) (phs[i := ph']) (h @ [ev])"
  unfolding tallied_def pending_dropped [OF ph' i(1) len i(2) s]
proof (intro allI impI)
  have p: "pending ws phs k what" using i unfolding pending_def by blast
  fix k' e
  assume "lookup (cw_store c') k' = Some e"
  then have e: "lookup (cw_store c) k' = Some e" by (simp add: c')
  with t p show "(\<forall>w. pending ws phs k' w \<and> k' \<noteq> k \<longrightarrow> seen (ne_stats e) = observe w (tally (h @ [ev]) k')) \<and>
      ((\<forall>w. \<not> (pending ws phs k' w \<and> k' \<noteq> k)) \<longrightarrow> seen (ne_stats e) = tally (h @ [ev]) k')"
    by (cases "k' = k") (simp_all add: tallied_def tally_snoc ev)
qed

subsection \<open>The log holds the history\<close>

definition ids :: "event list \<Rightarrow> u64 list" where
  "ids h = List.map_filter ob_id h"

definition all_logged :: "event list \<Rightarrow> bool" where
  "all_logged h \<longleftrightarrow> (\<forall>ev \<in> set h. ob_id ev \<noteq> None)"

definition log_bytes :: "event list \<Rightarrow> bytes" where
  "log_bytes h = concat (map (\<lambda>ev. str_bytes (ob_text ev (the (ob_id ev)))) h)"

definition log_agrees :: "addr_log option \<Rightarrow> event list \<Rightarrow> bool" where
  "log_agrees lg h \<longleftrightarrow>
     (case lg of
        None \<Rightarrow> (\<forall>ev \<in> set h. ob_id ev = None)
      | Some log \<Rightarrow>
          lg_durable_event_id log = last (0 # ids h) \<and> lg_synced log \<le> length (lg_written log) \<and>
          (all_logged h \<longrightarrow> lg_written log = log_bytes h) \<and>
          (length h < 2 ^ 64 - 1 \<longrightarrow>
             sorted_wrt (<) (0 # ids h) \<and> (\<forall>i \<in> set (0 # ids h). i < lg_next_event_id log) \<and>
             unat (lg_next_event_id log) \<le> Suc (length h)))"

lemma ids_snoc: "ids (h @ [ev]) = ids h @ (case ob_id ev of Some i \<Rightarrow> [i] | None \<Rightarrow> [])"
  by (simp add: ids_def map_filter_def split: option.splits)

lemma log_bytes_append: "log_bytes (h @ h') = log_bytes h @ log_bytes h'"
  by (simp add: log_bytes_def)

text \<open>An event that the log never saw.\<close>

lemma log_agrees_dropped: "log_agrees lg h \<Longrightarrow> ob_id ev = None \<Longrightarrow> log_agrees lg (h @ [ev])"
  by (auto simp: log_agrees_def ids_snoc all_logged_def split: option.splits)

lemma log_event_cases:
  assumes "log_event line l = (r, l')"
  obtains (failed) e bs where "r = Inl e" "lg_written l' = lg_written l @ bs" "lg_synced l' = lg_synced l"
      "lg_durable_event_id l' = lg_durable_event_id l" "lg_next_event_id l' = lg_next_event_id l + 1"
  | (logged) "r = Inr (lg_next_event_id l)" "lg_written l' = lg_written l @ str_bytes (line (lg_next_event_id l))"
      "lg_synced l' = lg_synced l" "lg_durable_event_id l' = lg_next_event_id l"
      "lg_next_event_id l' = lg_next_event_id l + 1"
proof (cases "lg_stopped l")
  case True
  with assms show thesis
    by (intro failed [where bs = "[]"]) (auto simp: log_event_def Let_def writer_append_def)
next
  case running: False
  show thesis
  proof (cases "\<exists>n e fs. lg_faults l = Some (n, e) # fs")
    case True
    then obtain n e fs where "lg_faults l = Some (n, e) # fs" by blast
    with assms running show thesis
      by (intro failed [where e = e and bs = "take n (str_bytes (line (lg_next_event_id l)))"])
        (auto simp: log_event_def Let_def writer_append_def)
  next
    case False
    then have "writer_append bs i (l\<lparr>lg_next_event_id := j\<rparr>) =
        (Inr i, l\<lparr>lg_next_event_id := j, lg_written := lg_written l @ bs, lg_durable_event_id := i,
           lg_faults := tl (lg_faults l)\<rparr>)" for bs i j
      using running by (auto simp: writer_append_def split: list.splits option.splits)
    with assms show thesis by (intro logged) (auto simp: log_event_def Let_def)
  qed
qed

lemma log_agrees_record:
  assumes r: "record_event line c = (eid, c')" and a: "log_agrees (cw_addr_log c) h"
  shows "log_agrees (cw_addr_log c') (h @ [\<lparr>ob_key = k, ob_what = what, ob_text = line, ob_id = eid\<rparr>])"
proof (cases "cw_addr_log c")
  case None
  with r a show ?thesis by (auto simp: record_event_def log_agrees_def)
next
  case (Some log)
  let ?next = "lg_next_event_id log"
  obtain res log' where e: "log_event line log = (res, log')" by fastforce
  have next_id: "unat (?next + 1) = Suc (unat ?next)" "?next < ?next + 1"
    if "unat ?next \<le> Suc (length h)" "Suc (length h) < 2 ^ 64 - 1"
  proof -
    have "unat ?next + 1 < 2 ^ 64" using that by simp
    then show "unat (?next + 1) = Suc (unat ?next)" using next_id [of ?next 0] by simp
    then show "?next < ?next + 1" by (simp add: word_less_nat_alt)
  qed
  from a Some have b: "lg_durable_event_id log = last (0 # ids h)" "lg_synced log \<le> length (lg_written log)"
    "all_logged h \<longrightarrow> lg_written log = log_bytes h"
    "length h < 2 ^ 64 - 1 \<longrightarrow> sorted_wrt (<) (0 # ids h) \<and> (\<forall>i \<in> set (0 # ids h). i < ?next) \<and> unat ?next \<le> Suc (length h)"
    by (simp_all add: log_agrees_def)
  from e show ?thesis
  proof (cases rule: log_event_cases)
    case (failed er bs)
    with e r Some have "eid = None" "cw_addr_log c' = Some log'" by (auto simp: record_event_def)
    with failed b next_id show ?thesis
      by (auto simp: log_agrees_def ids_snoc all_logged_def intro: less_trans)
  next
    case logged
    with e r Some have c': "eid = Some ?next" "cw_addr_log c' = Some log'" by (auto simp: record_event_def)
    have "all_logged h \<longrightarrow> lg_written log' = log_bytes h @ str_bytes (line ?next)" using logged b(3) by simp
    moreover have "lg_synced log' \<le> length (lg_written log')" using logged b(2) by simp
    moreover have "sorted_wrt (<) (0 # ids h @ [?next]) \<and> (\<forall>i \<in> set (0 # ids h @ [?next]). i < ?next + 1) \<and>
        unat (?next + 1) \<le> Suc (Suc (length h))" if "Suc (length h) < 2 ^ 64 - 1"
    proof -
      from b(4) that have s: "sorted_wrt (<) (0 # ids h)" "\<forall>i \<in> set (0 # ids h). i < ?next" "unat ?next \<le> Suc (length h)"
        by simp_all
      from next_id [OF s(3) that] s show ?thesis
        by (auto simp: sorted_wrt_append intro: less_trans)
    qed
    ultimately show ?thesis using logged c'
      by (simp add: log_agrees_def ids_snoc all_logged_def log_bytes_append) (simp add: log_bytes_def)
  qed
qed

subsection \<open>The invariant\<close>

definition observed_ok :: "crates \<Rightarrow> observed \<Rightarrow> bool" where
  "observed_ok cr = (\<lambda>((c, ws), phs, h).
     phases_ok cr ws phs \<and> tallied c ws phs h \<and> known c h \<and> described cr h \<and>
     log_agrees (cw_addr_log c) h)"

lemma still_ok:
  assumes ok: "observed_ok cr ((c, ws), phs, h)" and s: "sole c ws" and i: "i < length ws"
    and "\<not> counting (phs ! i)" "\<not> counting ph'" "phase_ok cr p' ph'" and k: "keeps_seen c c'"
  shows "observed_ok cr ((c', ws[i := (t, p')]), phs[i := ph'], h)"
proof -
  from ok have po: "phases_ok cr ws phs" and tl: "tallied c ws phs h" and kn: "known c h"
    and la: "log_agrees (cw_addr_log c) h" "described cr h" by (simp_all add: observed_ok_def)
  have len: "length phs = length ws" using po by (simp add: phases_ok_def)
  have "tallied c' (ws[i := (t, p')]) (phs[i := ph']) h"
    by (rule tallied_keeps [OF tl k kn s pending_same [OF assms(4,5) i len]])
  with phases_ok_update [OF po assms(6)] known_keeps [OF kn k] la keeps_seen_log [OF k] show ?thesis
    by (simp add: observed_ok_def)
qed

lemma recorded_ok:
  assumes ok: "observed_ok cr ((c, ws), phs, h)" and s: "sole c ws"
    and i: "i < length ws" "ws ! i = (t, Busy k n)" "phs ! i = Counted what line"
    and ph': "\<not> counting ph'" "phase_ok cr p' ph'" and c': "ns_map (cw_store c') = ns_map (cw_store c)"
    and ev: "ob_key ev = k" "ob_what ev = what" "ob_text ev = line" and la: "log_agrees (cw_addr_log c') (h @ [ev])"
  shows "observed_ok cr ((c', ws[i := (t, p')]), phs[i := ph'], h @ [ev])"
proof -
  from ok have po: "phases_ok cr ws phs" and tl: "tallied c ws phs h" and kn: "known c h"
    and de: "described cr h" by (simp_all add: observed_ok_def)
  have len: "length phs = length ws" using po by (simp add: phases_ok_def)
  have "phase_ok cr (Busy k n) (Counted what line)" using po i by (auto simp: phases_ok_def)
  with de ev have "described cr (h @ [ev])" by (simp add: described_def)
  moreover have "lookup (cw_store c) k \<noteq> None" using s i unfolding sole_def by blast
  with kn ev c' have "known c' (h @ [ev])" by (simp add: known_def)
  ultimately show ?thesis
    using phases_ok_update [OF po ph'(2)] tallied_record [OF tl s len i ph'(1) c' ev(1,2)] la
    by (simp add: observed_ok_def)
qed

lemma ostep_ok:
  assumes o: "ostep cr st barred t (c, p, phs ! i, h) (c', p', ph', h')" and i: "i < length ws" "ws ! i = (t, p)"
    and s: "sole c ws" and ok: "observed_ok cr ((c, ws), phs, h)"
  shows "observed_ok cr ((c', ws[i := (t, p')]), phs[i := ph'], h')"
proof -
  from ok have po: "phases_ok cr ws phs" and tl: "tallied c ws phs h" and kn: "known c h"
    and la: "log_agrees (cw_addr_log c) h" and de: "described cr h" by (simp_all add: observed_ok_def)
  have len: "length phs = length ws" using po by (simp add: phases_ok_def)
  have same: "keeps_seen c c" by (simp add: keeps_seen_same)
  from o show ?thesis
  proof cases
    case o_plain
    with still_ok [OF ok s i(1) _ _ _ o_plain(4), of ph' p' t] show ?thesis by auto
  next
    case (o_enter k what line n)
    then show ?thesis by (simp add: still_ok [OF ok s i(1)] same)
  next
    case (o_leave k n)
    then show ?thesis by (simp add: still_ok [OF ok s i(1)] same)
  next
    case (o_count k n what line)
    then have w: "ws ! i = (t, Busy k n)" "\<not> counting (phs ! i)" using i by simp_all
    then have "ws[i := (t, Busy k n)] = ws" by (metis list_update_id)
    moreover have "phase_ok cr (Busy k n) (Entered what line)"
      using po i o_count unfolding phases_ok_def by force
    then have "phases_ok cr ws (phs[i := Counted what line])"
      using phases_ok_update [OF po, of "Busy k n" "Counted what line" i t] calculation by simp
    moreover have "known (on_stats k (observe what) c) h"
      using kn by (auto simp: known_def on_stats_def update_entry_lookup)
    ultimately show ?thesis
      using o_count tallied_count [OF tl s len i(1) w] la de by (simp add: observed_ok_def on_stats_def on_entry_def)
  next
    case (o_record line eid k n what)
    then have w: "ws ! i = (t, Busy k n)" "phs ! i = Counted what line" using i by simp_all
    from record_event_side [OF o_record(6)] have m: "ns_map (cw_store c') = ns_map (cw_store c)"
      by (auto simp: side_update_def)
    show ?thesis
      using o_record recorded_ok [OF ok s i(1) w _ _ m _ _ _ log_agrees_record [OF o_record(6) la]] by simp
  next
    case (o_panic k n)
    have k: "keeps_seen c c'" using o_panic by (intro keeps_seen_same) simp_all
    show ?thesis
    proof (cases "phs ! i")
      case (Counted what line)
      let ?ev = "\<lparr>ob_key = k, ob_what = what, ob_text = line, ob_id = None\<rparr>"
      have w: "ws ! i = (t, Busy k n)" using o_panic i by simp
      have "log_agrees (cw_addr_log c') (h @ [?ev])" using log_agrees_dropped [OF la, of ?ev] o_panic by simp
      with o_panic Counted recorded_ok [OF ok s i(1) w Counted, of Outside p' c' ?ev] show ?thesis by simp
    qed (use o_panic still_ok [OF ok s i(1) _ _ _ k] in simp_all)
  qed
qed

lemma observed_step_ok:
  assumes "observed_step cr st barred x y" "observed_ok cr x" "sole (fst (fst x)) (snd (fst x))"
  shows "observed_ok cr y"
  using assms(1)
proof cases
  case (observed_worker i ws t p c phs h c' p' ph' h')
  with assms(2,3) show ?thesis by (simp add: ostep_ok)
next
  case (observed_flag c ws phs h)
  with assms(2) show ?thesis by (simp add: observed_ok_def tallied_def known_def)
next
  case (observed_close c ws phs h)
  with assms(2) show ?thesis by (simp add: observed_ok_def tallied_def known_def close_queues_def)
qed

subsection \<open>The start, and while the barrier is held\<close>

lemma seeded_stats:
  "seeded cr st c \<Longrightarrow> lookup (cw_store c) k = Some e \<Longrightarrow> ne_stats e = stats_default"
proof (induction arbitrary: k e rule: seeded.induct)
  case (seed_none log)
  then show ?case by (simp add: crawler_new_def with_limit_def)
next
  case (seed_one c key now)
  obtain queued s where o: "observe_seed cr key now (cw_store c) = (queued, s)" by fastforce
  let ?c = "c\<lparr>cw_store := s\<rparr>"
  have s: "ne_stats e = stats_default" if "lookup s k = Some e" for k e
  proof (cases "k = key")
    case True
    obtain b s1 where r: "reserve_entry (cw_store c) = (b, s1)" by fastforce
    from o r True that seed_one.IH [of key] reserve_entry_cases [OF r] show ?thesis
      by (auto simp: observe_seed_def Let_def node_entry_new_def es.get_ins split: option.splits if_splits)
  next
    case False
    obtain b s1 where r: "reserve_entry (cw_store c) = (b, s1)" by fastforce
    from o r False that reserve_entry_cases [OF r] have "lookup (cw_store c) k = Some e"
      by (auto simp: observe_seed_def Let_def es.get_ins split: option.splits if_splits)
    then show ?thesis by (rule seed_one.IH)
  qed
  have "lookup (cw_store (seed_key cr now key c)) k = Some e \<Longrightarrow>
      \<exists>e'. lookup s k = Some e' \<and> ne_stats e = ne_stats e'"
  proof -
    assume l: "lookup (cw_store (seed_key cr now key c)) k = Some e"
    let ?d = "?c\<lparr>cw_store := incr_outstanding (cw_store ?c)\<rparr>"
    obtain b c' where send: "send_key (network_transport (key_network cr ?c key)) key ?d = (b, c')" by fastforce
    from l o send_key_store [OF send] send show ?thesis
      by (cases queued; cases b)
        (auto simp: seed_key_def Let_def enqueue_seed_def enqueue_def update_entry_lookup set_state_def
          incr_outstanding_def decr_outstanding_def on_entry_def split: if_splits)
  qed
  with seed_one.prems s show ?case by metis
qed

lemma seeded_log_kept: "cw_addr_log (seed_key cr now key c) = cw_addr_log c"
  by (auto simp: seed_key_def enqueue_seed_def enqueue_def Let_def send_key_def on_entry_def split: prod.splits bool.splits)

text \<open>The log is as \<open>open_addr_log\<close> leaves it.\<close>

definition new_log :: "crawler \<Rightarrow> bool" where
  "new_log c \<longleftrightarrow> (\<forall>log. cw_addr_log c = Some log \<longrightarrow> (\<exists>faults. log = addr_log_create faults))"

lemma observed_init:
  assumes "seeded cr st c" "new_log c"
  shows "observed_ok cr ((run_start c, ws), replicate (length ws) Outside, [])"
proof -
  have "phases_ok cr ws (replicate (length ws) Outside)" by (simp add: phases_ok_def)
  moreover have "\<not> pending ws (replicate (length ws) Outside) k what" for k what
    by (auto simp: pending_def)
  then have "tallied (run_start c) ws (replicate (length ws) Outside) []"
    using seeded_stats [OF assms(1)] by (simp add: tallied_def run_start_def close_queues_def)
  moreover have "log_agrees (cw_addr_log (run_start c)) []"
    using assms(2)
    by (auto simp: new_log_def run_start_def close_queues_def log_agrees_def ids_def map_filter_simps addr_log_create_def
        all_logged_def log_bytes_def split: option.splits)
  ultimately show ?thesis by (simp add: observed_ok_def known_def described_def)
qed

definition no_guard :: "phase list \<Rightarrow> bool" where
  "no_guard phs \<longleftrightarrow> (\<forall>ph \<in> set phs. ph = Outside)"

lemma no_guard_tally:
  assumes "observed_ok cr ((c, ws), phs, h)" "no_guard phs" "lookup (cw_store c) k = Some e"
  shows "seen (ne_stats e) = tally h k"
proof -
  have len: "length phs = length ws" using assms(1) by (simp add: observed_ok_def phases_ok_def)
  have "\<not> pending ws phs k what" for what
  proof
    assume "pending ws phs k what"
    then obtain i line where "i < length ws" "phs ! i = Counted what line" unfolding pending_def by blast
    with len assms(2) show False by (metis no_guard_def nth_mem phase.distinct(3))
  qed
  with assms(1,3) show ?thesis by (simp add: observed_ok_def tallied_def)
qed

text \<open>While a checkpoint holds the barrier nothing is observed.\<close>

lemma barred_still:
  assumes "observed_step cr st True ((c, ws), phs, h) ((c', ws'), phs', h')" "no_guard phs" "length phs = length ws"
  shows "phs' = phs \<and> h' = h"
  using assms(1)
proof cases
  case (observed_worker i t p p' ph')
  have o: "phs ! i = Outside" using assms(2,3) observed_worker by (simp add: no_guard_def)
  then have "phs[i := Outside] = phs" by (metis list_update_id)
  moreover from observed_worker(5) have "ph' = Outside \<and> h' = h" by cases (simp_all add: o)
  ultimately show ?thesis using observed_worker by simp
qed simp_all

subsection \<open>The log on disk only grows\<close>

definition on_disk :: "addr_log \<Rightarrow> bytes" where
  "on_disk log = take (lg_synced log) (lg_written log)"

definition log_grows :: "addr_log option \<Rightarrow> addr_log option \<Rightarrow> bool" where
  "log_grows lg lg' \<longleftrightarrow>
     (case lg of
        None \<Rightarrow> lg' = None
      | Some log \<Rightarrow> (\<exists>log'. lg' = Some log' \<and> prefix (on_disk log) (on_disk log')))"

lemma log_grows_refl [simp]: "log_grows lg lg"
  by (simp add: log_grows_def split: option.splits)

lemma record_event_grows:
  assumes "record_event line c = (eid, c')" "log_agrees (cw_addr_log c) h"
  shows "log_grows (cw_addr_log c) (cw_addr_log c')"
proof (cases "cw_addr_log c")
  case None
  with assms(1) show ?thesis by (simp add: record_event_def)
next
  case (Some log)
  obtain r log' where e: "log_event line log = (r, log')" by fastforce
  have "lg_synced log \<le> length (lg_written log)" using assms(2) Some by (simp add: log_agrees_def)
  with e have "on_disk log' = on_disk log" by (cases rule: log_event_cases) (simp_all add: on_disk_def)
  moreover have "cw_addr_log c' = Some log'" using assms(1) Some e by (auto simp: record_event_def split: sum.splits)
  ultimately show ?thesis using Some by (simp add: log_grows_def)
qed

lemma ostep_grows:
  assumes "ostep cr st barred t (c, p, ph, h) (c', p', ph', h')" "log_agrees (cw_addr_log c) h"
  shows "log_grows (cw_addr_log c) (cw_addr_log c') \<and> prefix h h'"
  using assms(1)
proof cases
  case o_plain
  then show ?thesis by (simp add: keeps_seen_log)
next
  case (o_record line eid k n what)
  with record_event_grows [OF o_record(6) assms(2)] show ?thesis by simp
qed (simp_all add: on_stats_def on_entry_def)

lemma observed_step_grows:
  assumes "observed_step cr st barred ((c, ws), phs, h) ((c', ws'), phs', h')" "observed_ok cr ((c, ws), phs, h)"
  shows "log_grows (cw_addr_log c) (cw_addr_log c') \<and> prefix h h'"
  using assms(1)
proof cases
  case (observed_worker i t p p' ph')
  from ostep_grows [OF observed_worker(5)] assms(2) show ?thesis by (simp add: observed_ok_def)
qed (simp_all add: close_queues_def)

subsection \<open>The worker's turn is a run of these steps\<close>

text \<open>The interface of Turn on the steps with phases: each run begins and ends without the guard.\<close>

definition osteps ::
  "crates \<Rightarrow> settings \<Rightarrow> transport \<Rightarrow> crawler \<times> pc \<times> phase \<times> event list \<Rightarrow>
   crawler \<times> pc \<times> phase \<times> event list \<Rightarrow> bool" where
  "osteps cr st t = (ostep cr st False t)\<^sup>*\<^sup>*"

definition observes :: "crates \<Rightarrow> settings \<Rightarrow> transport \<Rightarrow> crawler \<times> pc \<Rightarrow> crawler \<times> pc \<Rightarrow> bool" where
  "observes cr st t x y \<longleftrightarrow> (\<forall>h. \<exists>h'. osteps cr st t (fst x, snd x, Outside, h) (fst y, snd y, Outside, h @ h'))"

lemma osteps_then: "ostep cr st False t x y \<Longrightarrow> osteps cr st t y z \<Longrightarrow> osteps cr st t x z"
  by (simp add: osteps_def converse_rtranclp_into_rtranclp)

lemma osteps_trans: "osteps cr st t x y \<Longrightarrow> osteps cr st t y z \<Longrightarrow> osteps cr st t x z"
  by (simp add: osteps_def)

lemma osteps_refl: "osteps cr st t x x"
  by (simp add: osteps_def)

lemma observes_trans: "observes cr st t x y \<Longrightarrow> observes cr st t y z \<Longrightarrow> observes cr st t x z"
  unfolding observes_def
proof
  fix h
  assume a: "\<forall>h. \<exists>h'. osteps cr st t (fst x, snd x, Outside, h) (fst y, snd y, Outside, h @ h')"
    and b: "\<forall>h. \<exists>h'. osteps cr st t (fst y, snd y, Outside, h) (fst z, snd z, Outside, h @ h')"
  from a obtain h1 where 1: "osteps cr st t (fst x, snd x, Outside, h) (fst y, snd y, Outside, h @ h1)" by blast
  from b obtain h2 where "osteps cr st t (fst y, snd y, Outside, h @ h1) (fst z, snd z, Outside, (h @ h1) @ h2)" by blast
  from osteps_trans [OF 1 this] show "\<exists>h'. osteps cr st t (fst x, snd x, Outside, h) (fst z, snd z, Outside, h @ h')"
    by auto
qed

lemma observes_plain:
  assumes "wstep cr st t (c, p) (c', p')" "keeps_seen c c'"
  shows "observes cr st t (c, p) (c', p')"
  unfolding observes_def
proof
  fix h
  have "ostep cr st False t (c, p, Outside, h) (c', p', Outside, h)" by (rule o_plain [OF assms]) simp
  then have "osteps cr st t (c, p, Outside, h) (c', p', Outside, h)" by (rule osteps_then [OF _ osteps_refl])
  then show "\<exists>h'. osteps cr st t (fst (c, p), snd (c, p), Outside, h) (fst (c', p'), snd (c', p'), Outside, h @ h')"
    by (intro exI [of _ "[]"]) simp
qed

lemma plain_recorded:
  "plain_steps cr st t x y \<Longrightarrow> osteps cr st t (fst x, snd x, Recorded, h) (fst y, snd y, Recorded, h)"
  unfolding plain_steps_def
proof (induction rule: rtranclp_induct)
  case base
  then show ?case by (simp add: osteps_refl)
next
  case (step y z)
  then have "ostep cr st False t (fst y, snd y, Recorded, h) (fst z, snd z, Recorded, h)" by (intro o_plain) simp_all
  with step.IH show ?case by (auto simp: osteps_def)
qed

text \<open>An observation: enter, count, append, go on with the guard, leave.\<close>

lemma observation_observed:
  assumes d: "describes cr k what line" and r: "record_event line (on_stats k (observe what) c) = (eid, c1)"
    and p: "\<And>h. osteps cr st t (c1, Busy k n, Recorded, h) (c', Busy k n, Recorded, h)"
  shows "observes cr st t (c, Busy k n) (c', Busy k n)"
  unfolding observes_def
proof (intro allI)
  fix h
  let ?h = "h @ [\<lparr>ob_key = k, ob_what = what, ob_text = line, ob_id = eid\<rparr>]"
  have "osteps cr st t (c', Busy k n, Recorded, ?h) (c', Busy k n, Outside, ?h)"
    by (rule osteps_then [OF o_leave osteps_refl])
  with p [of ?h] have "osteps cr st t (c1, Busy k n, Recorded, ?h) (c', Busy k n, Outside, ?h)" by (rule osteps_trans)
  then have "osteps cr st t (c, Busy k n, Outside, h) (c', Busy k n, Outside, ?h)"
    using d r by (intro osteps_then [OF o_enter] osteps_then [OF o_count] osteps_then [OF o_record]) simp_all
  then show "\<exists>h'. osteps cr st t (fst (c, Busy k n), snd (c, Busy k n), Outside, h)
      (fst (c', Busy k n), snd (c', Busy k n), Outside, h @ h')" by auto
qed

lemma side_recorded:
  "osteps cr st t (c, Busy k n, Recorded, h) (side_update (cw_sam c) (cw_addr_log c) out c, Busy k n, Recorded, h)"
  by (rule osteps_then [OF o_plain [OF local_side] osteps_refl]) (auto intro!: keeps_seen_same simp: side_update_def)

interpretation observed_turn: turn_runs cr st t "observes cr st t" for cr st t
proof
  show "observes cr st t x x" for x
    unfolding observes_def by (intro allI exI [of _ "[]"]) (simp add: osteps_refl)
  show "observes cr st t x z" if "observes cr st t x y" "observes cr st t y z" for x y z
    using that by (rule observes_trans)
  show "observes cr st t (c, p) (c', p')" if "wstep cr st t (c, p) (c', p')" "keeps_seen c c'" for c p c' p'
    using that by (rule observes_plain)
  show "observes cr st t (c, Busy k n) (snd (handle_addr_message cr ev st k ty parsed hs clock c), Busy k n)"
    if sh: "shuffles ev" for ev c k n ty parsed hs clock
  proof (rule message_shape [OF sh, of k cr parsed c st ty hs clock])
    fix r c1 eid xs now
    assume rp: "rp_host r = ak_host k" "rp_port r = ak_port k" "rp_network r = network_as_str (classify cr (ak_host k))"
      and e: "record_event (block_text r parsed) (on_stats k (record_message parsed) c) = (eid, c1)"
      and xs: "\<forall>a \<in> set xs. is_enabled st (ad_network a)"
      and c': "snd (handle_addr_message cr ev st k ty parsed hs clock c) = fold (frontier_one cr st now) xs c1"
    have "on_stats k (observe (ObsMessage parsed)) c = on_stats k (record_message parsed) c"
      by (simp add: on_stats_def)
    with e have r: "record_event (block_text r parsed) (on_stats k (observe (ObsMessage parsed)) c) = (eid, c1)" by simp
    show ?thesis
      unfolding c'
      by (rule observation_observed [OF describes_message [OF rp] r])
        (use plain_recorded [OF frontier_all_plain [OF xs]] in simp)
  qed
  show "observes cr st t (c, Busy k n) (snd (handle_malformed cr k env e valid c), Busy k n)" for c k n env e valid
  proof (rule malformed_shape [of cr k env e c valid])
    fix eid c1 out
    assume r: "record_event (malformed_text cr (ak_host k) (ak_port k) (env_command env) e (env_payload env))
        (on_stats k (\<lambda>s. s\<lparr>malformed_addr_messages := malformed_addr_messages s + 1\<rparr>) c) = (eid, c1)"
      and c': "snd (handle_malformed cr k env e valid c) = side_update (cw_sam c1) (cw_addr_log c1) out c1"
    have "on_stats k (observe ObsMalformed) c =
        on_stats k (\<lambda>s. s\<lparr>malformed_addr_messages := malformed_addr_messages s + 1\<rparr>) c"
      by (simp add: on_stats_def)
    with r have e: "record_event (malformed_text cr (ak_host k) (ak_port k) (env_command env) e (env_payload env))
        (on_stats k (observe ObsMalformed) c) = (eid, c1)" by simp
    show ?thesis unfolding c' by (rule observation_observed [OF describes_malformed e side_recorded])
  qed
  show "observes cr st t (c, Busy k n) (record_outcome k outcome c, Busy k n)" for c k n outcome
  proof (rule outcome_shape [of k outcome c])
    fix eid c1 out
    assume r: "record_event (outcome_text (ak_host k) (ak_port k) outcome)
        (on_stats k (\<lambda>s. s\<lparr>collection_outcome := outcome\<rparr>) c) = (eid, c1)"
      and c': "record_outcome k outcome c = side_update (cw_sam c1) (cw_addr_log c1) out c1"
    have "on_stats k (observe (ObsOutcome outcome)) c = on_stats k (\<lambda>s. s\<lparr>collection_outcome := outcome\<rparr>) c"
      by (simp add: on_stats_def)
    with r have e: "record_event (outcome_text (ak_host k) (ak_port k) outcome) (on_stats k (observe (ObsOutcome outcome)) c) =
        (eid, c1)" by simp
    show ?thesis unfolding c' by (rule observation_observed [OF describes_outcome e side_recorded])
  qed
qed

lemma osteps_observed:
  assumes "osteps cr st t (c, p, ph, h) (c', p', ph', h')" "i < length ws" "ws ! i = (t, p)" "length phs = length ws"
    and "phs ! i = ph"
  shows "(observed_step cr st False)\<^sup>*\<^sup>* ((c, ws), phs, h) ((c', ws[i := (t, p')]), phs[i := ph'], h')"
proof -
  have "(observed_step cr st False)\<^sup>*\<^sup>* ((c, ws), phs, h)
      ((fst x, ws[i := (t, fst (snd x))]), phs[i := fst (snd (snd x))], snd (snd (snd x)))"
    if "osteps cr st t (c, p, ph, h) x" for x
    using that unfolding osteps_def
  proof (induction rule: rtranclp_induct)
    case base
    have "ws[i := (t, p)] = ws" "phs[i := ph] = phs" using assms(3,5) by (metis list_update_id)+
    then show ?case by simp
  next
    case (step y z)
    obtain cy py phy hy cz pz phz hz where yz: "y = (cy, py, phy, hy)" "z = (cz, pz, phz, hz)" by (metis prod_cases4)
    have "observed_step cr st False ((cy, ws[i := (t, py)]), phs[i := phy], hy)
        ((cz, ws[i := (t, pz)]), phs[i := phz], hz)"
      using observed_worker [of i "ws[i := (t, py)]" t py cr st False cy "phs[i := phy]" hy cz pz phz hz]
        step.hyps(2) yz assms(2,4) by simp
    with step.IH yz show ?case by (simp add: rtranclp.rtrancl_into_rtrancl)
  qed
  from this [OF assms(1)] show ?thesis by simp
qed

end
