(* ===== verification/Files.thy ===== *)
theory Files
  imports Settings
begin

section \<open>The file system (std::fs, as the result writers use it)\<close>

text \<open>
  Directories and files by path; a file is known by its directory and its name. Faults are a script, as
  for the log: the next operation succeeds, or fails with an error, a write after some of its
  bytes. The operations that make data durable or move it are also recorded in order, newest last.
\<close>

datatype fs_event =
  SyncedFile string string
| SyncedDir string
| RenamedDir string string
| RenamedFile string string string

record fs =
  fs_dirs :: "string list"
  fs_files :: "string \<times> string \<Rightarrow> bytes option"
  fs_faults :: "(nat \<times> io_error) option list"
  fs_log :: "fs_event list"

type_synonym 'a fs_result = "(io_error + 'a) \<times> fs"

definition fs_then :: "(fs \<Rightarrow> 'a fs_result) \<Rightarrow> ('a \<Rightarrow> fs \<Rightarrow> 'b fs_result) \<Rightarrow> fs \<Rightarrow> 'b fs_result" where
  "fs_then m f s = (case m s of (Inl e, s') \<Rightarrow> (Inl e, s') | (Inr a, s') \<Rightarrow> f a s')"

definition fs_return :: "'a \<Rightarrow> fs \<Rightarrow> 'a fs_result" where
  "fs_return a s = (Inr a, s)"

text \<open>The next fault of the script, if any.\<close>

definition next_fault :: "fs \<Rightarrow> (nat \<times> io_error) option \<times> fs" where
  "next_fault s =
     (case fs_faults s of
        [] \<Rightarrow> (None, s)
      | f # fs \<Rightarrow> (f, s\<lparr>fs_faults := fs\<rparr>))"

text \<open>An operation without an effect when it fails.\<close>

definition faulty :: "(fs \<Rightarrow> 'a fs_result) \<Rightarrow> fs \<Rightarrow> 'a fs_result" where
  "faulty m s = (case next_fault s of (Some (n, e), s') \<Rightarrow> (Inl e, s') | (None, s') \<Rightarrow> m s')"

definition fs_note :: "fs_event \<Rightarrow> fs \<Rightarrow> fs" where
  "fs_note ev s = s\<lparr>fs_log := fs_log s @ [ev]\<rparr>"

definition not_found :: io_error where
  "not_found = io_err OtherKind ''No such file or directory''"

definition already_exists :: io_error where
  "already_exists = io_err OtherKind ''File exists''"

definition create_dir_all :: "string \<Rightarrow> fs \<Rightarrow> unit fs_result" where
  "create_dir_all p = faulty (\<lambda>s.
     (Inr (), if p \<in> set (fs_dirs s) then s else s\<lparr>fs_dirs := fs_dirs s @ [p]\<rparr>))"

definition create_dir :: "string \<Rightarrow> fs \<Rightarrow> unit fs_result" where
  "create_dir p = faulty (\<lambda>s.
     if p \<in> set (fs_dirs s) then (Inl already_exists, s) else (Inr (), s\<lparr>fs_dirs := fs_dirs s @ [p]\<rparr>))"

text \<open>\<open>File::create\<close> makes an empty file or empties the one there is.\<close>

definition create_file :: "string \<Rightarrow> string \<Rightarrow> fs \<Rightarrow> unit fs_result" where
  "create_file d n = faulty (\<lambda>s. (Inr (), s\<lparr>fs_files := (fs_files s)((d, n) \<mapsto> [])\<rparr>))"

text \<open>\<open>create_new\<close>, the writes and the flush: the file is new, and holds a prefix when a write fails.\<close>

definition write_new :: "string \<Rightarrow> string \<Rightarrow> bytes \<Rightarrow> fs \<Rightarrow> unit fs_result" where
  "write_new d n bs s0 =
     (case next_fault s0 of (fault, s) \<Rightarrow>
        if fs_files s (d, n) \<noteq> None then (Inl already_exists, s)
        else case fault of
          Some (k, e) \<Rightarrow> (Inl e, s\<lparr>fs_files := (fs_files s)((d, n) \<mapsto> take k bs)\<rparr>)
        | None \<Rightarrow> (Inr (), s\<lparr>fs_files := (fs_files s)((d, n) \<mapsto> bs)\<rparr>))"

definition read_file :: "string \<Rightarrow> string \<Rightarrow> fs \<Rightarrow> bytes fs_result" where
  "read_file d n = faulty (\<lambda>s.
     case fs_files s (d, n) of None \<Rightarrow> (Inl not_found, s) | Some bs \<Rightarrow> (Inr bs, s))"

definition sync_file :: "string \<Rightarrow> string \<Rightarrow> fs \<Rightarrow> unit fs_result" where
  "sync_file d n = faulty (\<lambda>s.
     case fs_files s (d, n) of None \<Rightarrow> (Inl not_found, s) | Some bs \<Rightarrow> (Inr (), fs_note (SyncedFile d n) s))"

definition sync_dir :: "string \<Rightarrow> fs \<Rightarrow> unit fs_result" where
  "sync_dir d = faulty (\<lambda>s. (Inr (), fs_note (SyncedDir d) s))"

text \<open>Moving a directory with its files; moving a file over another one of its directory.\<close>

definition rename_dir :: "string \<Rightarrow> string \<Rightarrow> fs \<Rightarrow> unit fs_result" where
  "rename_dir a b = faulty (\<lambda>s.
     if a \<notin> set (fs_dirs s) then (Inl not_found, s)
     else if b \<in> set (fs_dirs s) then (Inl already_exists, s)
     else (Inr (), fs_note (RenamedDir a b)
       (s\<lparr>fs_dirs := map (\<lambda>d. if d = a then b else d) (fs_dirs s),
          fs_files := (\<lambda>(d, n). if d = b then fs_files s (a, n)
             else if d = a then None else fs_files s (d, n))\<rparr>)))"

definition rename_file :: "string \<Rightarrow> string \<Rightarrow> string \<Rightarrow> fs \<Rightarrow> unit fs_result" where
  "rename_file d a b = faulty (\<lambda>s.
     case fs_files s (d, a) of
       None \<Rightarrow> (Inl not_found, s)
     | Some bs \<Rightarrow> (Inr (), fs_note (RenamedFile d a b)
         (s\<lparr>fs_files := (fs_files s)((d, a) := None, (d, b) \<mapsto> bs)\<rparr>)))"

subsection \<open>Programs over the file system\<close>

lemma fs_then_cases:
  assumes "fs_then m f s = (r, s')"
  obtains (fails) e where "m s = (Inl e, s')" "r = Inl e"
    | (goes) a s1 where "m s = (Inr a, s1)" "f a s1 = (r, s')"
  using assms by (auto simp: fs_then_def split: prod.splits sum.splits)

lemma fs_then_Inr:
  "fs_then m f s = (Inr b, s') \<longleftrightarrow> (\<exists>a s1. m s = (Inr a, s1) \<and> f a s1 = (Inr b, s'))"
  by (auto simp: fs_then_def split: prod.splits sum.splits)

lemma faulty_cases:
  assumes "faulty m s = (r, s')"
  obtains (fault) e n where "r = Inl e" "s' = snd (next_fault s)"
    | (runs) "m (snd (next_fault s)) = (r, s')"
  using assms by (auto simp: faulty_def split: prod.splits option.splits)

lemma next_fault_fields [simp]:
  "fs_dirs (snd (next_fault s)) = fs_dirs s" "fs_files (snd (next_fault s)) = fs_files s"
  "fs_log (snd (next_fault s)) = fs_log s"
  by (simp_all add: next_fault_def split: list.splits)

lemma fs_note_fields [simp]:
  "fs_dirs (fs_note ev s) = fs_dirs s" "fs_files (fs_note ev s) = fs_files s"
  "fs_log (fs_note ev s) = fs_log s @ [ev]"
  by (simp_all add: fs_note_def)

end
