(* ===== verification/Output.thy ===== *)
theory Output
  imports Files AddrLog "HOL-Library.Char_ord" "HOL-Library.List_Lexorder" "HOL-Library.Multiset"
begin

section \<open>Result files (src/output.rs)\<close>

text \<open>
  The three CSV files, the statistics and the manifest of a snapshot: which rows, in which order, with
  which fields; and the sequence of file operations that publishes them. How the crates \<open>csv\<close>
  and \<open>serde_json\<close> print records and values is not part of the repository: it is the record
  \<open>printers\<close>. An operation either succeeds, fails with an I/O error or panics.
\<close>

subsection \<open>Values\<close>

datatype json = JNull | JBool bool | JNum int | JStr string | JArr "json list" | JObj "(string \<times> json) list"

text \<open>\<open>Map::insert\<close> with \<open>preserve_order\<close>: a known key keeps its place, a new one is last.\<close>

definition map_insert :: "string \<Rightarrow> json \<Rightarrow> (string \<times> json) list \<Rightarrow> (string \<times> json) list" where
  "map_insert k v m = AList.update k v m"

record printers =
  csv_print :: "string list list \<Rightarrow> string"
  json_compact :: "json \<Rightarrow> string"
  json_pretty :: "nat \<Rightarrow> json \<Rightarrow> string"

datatype 'a outcome = Returned 'a | Failed io_error | Panicked string

definition json_u64 :: "'a::len word \<Rightarrow> json" where
  "json_u64 w = JNum (uint w)"

definition json_opt :: "('a \<Rightarrow> json) \<Rightarrow> 'a option \<Rightarrow> json" where
  "json_opt f x = (case x of None \<Rightarrow> JNull | Some a \<Rightarrow> f a)"

record seed_result =
  sr_seed :: string
  sr_addrs :: "(addr_key \<times> network_type) list"

record snapshot_meta =
  sm_runtime_seconds :: int
  sm_num_processed :: usize
  sm_durable_addr_event_id :: "u64 option"
  sm_consistent :: bool
  sm_run_complete :: bool

subsection \<open>Rows\<close>

definition attempt_json :: "attempt_data \<Rightarrow> json" where
  "attempt_json a =
     JObj [(''attempt'', json_u64 (at_attempt a)),
           (''connect_duration_ms'', json_opt json_u64 (at_connect_duration_ms a)),
           (''version_send_timestamp'', json_opt JNum (at_version_send_timestamp a)),
           (''outcome'', JStr (at_outcome a)),
           (''failure'', json_opt (\<lambda>f. JStr (fail_as_str f)) (at_failure a))]"

definition attempt_history_json :: "printers \<Rightarrow> node_entry \<Rightarrow> string" where
  "attempt_history_json pr e = json_compact pr (JArr (map attempt_json (ne_attempts e)))"

definition or_empty :: "('a \<Rightarrow> string) \<Rightarrow> 'a option \<Rightarrow> string" where
  "or_empty f x = (case x of None \<Rightarrow> [] | Some a \<Rightarrow> f a)"

definition show_word :: "'a::len word \<Rightarrow> string" where
  "show_word w = show_dec (unat w)"

definition reachable_header :: "string list" where
  "reachable_header =
     [''host'', ''port'', ''network'', ''handshake_timestamp'', ''time_connect'', ''handshake_attempts'',
      ''handshake_duration'', ''version'', ''services'', ''user_agent'', ''latest_block'', ''relay'',
      ''version_reply_timestamp_remote'', ''advertised_addrs_total'', ''advertised_addrs_ipv4'',
      ''advertised_addrs_ipv6'', ''advertised_addrs_onion_v2'', ''advertised_addrs_onion_v3'',
      ''advertised_addrs_i2p'', ''advertised_addrs_cjdns'', ''freshest_timestamp'',
      ''collection_outcome'', ''valid_addr_messages'', ''malformed_addr_messages'',
      ''requested_endpoint'', ''transport_destination'', ''socket_local'', ''socket_peer'',
      ''version_addr_recv'', ''version_addr_recv_services'', ''version_addr_from'',
      ''version_addr_from_services'', ''version_nonce'', ''attempt_history_json'']"

text \<open>A row of a reachable node; without a handshake the code panics, which is \<open>None\<close>.\<close>

definition reachable_row :: "printers \<Rightarrow> addr_key \<times> node_entry \<Rightarrow> string list option" where
  "reachable_row pr = (\<lambda>(key, e).
     case ne_handshake e of
       None \<Rightarrow> None
     | Some h \<Rightarrow>
         (let s = ne_stats e
          in Some [ak_host key, show_word (ak_port key), network_as_str (ne_network e),
            show_int (hd_handshake_timestamp h), or_empty show_word (time_connect_ms s),
            show_word (handshake_attempts s), show_word (hd_handshake_duration_ms h),
            show_int (hd_version h), show_word (hd_services h), hd_user_agent h,
            show_int (hd_latest_block h), show_bool (hd_relay h),
            show_int (hd_version_reply_timestamp_remote h), show_word (advertised_total s),
            show_word (advertised_ipv4 s), show_word (advertised_ipv6 s),
            show_word (advertised_onion_v2 s), show_word (advertised_onion_v3 s),
            show_word (advertised_i2p s), show_word (advertised_cjdns s), show_int (freshest_ts e),
            outcome_as_str (collection_outcome s), show_word (valid_addr_messages s),
            show_word (malformed_addr_messages s), hd_requested_endpoint h,
            hd_transport_destination h, hd_socket_local h, hd_socket_peer h, hd_version_addr_recv h,
            show_word (hd_version_addr_recv_services h), or_empty id (hd_version_addr_from h),
            or_empty show_word (hd_version_addr_from_services h), or_empty show_word (hd_version_nonce h),
            attempt_history_json pr e]))"

definition handshake_failed_header :: "string list" where
  "handshake_failed_header =
     [''host'', ''port'', ''network'', ''failure_reason'', ''handshake_timestamp'', ''time_connect'',
      ''handshake_attempts'', ''freshest_timestamp'', ''attempt_history_json'']"

definition handshake_failed_row :: "printers \<Rightarrow> addr_key \<times> node_entry \<Rightarrow> string list" where
  "handshake_failed_row pr = (\<lambda>(key, e).
     let s = ne_stats e
     in [ak_host key, show_word (ak_port key), network_as_str (ne_network e),
         or_empty fail_as_str (ne_failure e), or_empty show_int (first_version_send_ts s),
         or_empty show_word (time_connect_ms s), show_word (handshake_attempts s),
         show_int (freshest_ts e), attempt_history_json pr e])"

definition unreachable_header :: "string list" where
  "unreachable_header =
     [''host'', ''port'', ''network'', ''failure_reason'', ''handshake_attempts'', ''freshest_timestamp'',
      ''attempt_history_json'']"

definition unreachable_row :: "printers \<Rightarrow> addr_key \<times> node_entry \<Rightarrow> string list" where
  "unreachable_row pr = (\<lambda>(key, e).
     [ak_host key, show_word (ak_port key), network_as_str (ne_network e),
      or_empty fail_as_str (ne_failure e), show_word (handshake_attempts (ne_stats e)),
      show_int (freshest_ts e), attempt_history_json pr e])"

text \<open>The entries of a state, sorted by a key; \<open>sort_by_key\<close> is stable.\<close>

definition rows_by :: "node_state \<Rightarrow> (node_entry \<Rightarrow> int) \<Rightarrow> (addr_key \<times> node_entry) list \<Rightarrow> (addr_key \<times> node_entry) list" where
  "rows_by state key snap = sort_key (\<lambda>(k, e). key e) (filter (\<lambda>(k, e). ne_state e = state) snap)"

definition reachable_key :: "node_entry \<Rightarrow> int" where
  "reachable_key e = (case ne_handshake e of Some h \<Rightarrow> hd_handshake_timestamp h | None \<Rightarrow> 0)"

definition handshake_failed_key :: "node_entry \<Rightarrow> int" where
  "handshake_failed_key e = (case first_version_send_ts (ne_stats e) of Some t \<Rightarrow> t | None \<Rightarrow> 0)"

definition option_all :: "'a option list \<Rightarrow> 'a list option" where
  "option_all xs = (if None \<in> set xs then None else Some (map the xs))"

definition write_reachable :: "printers \<Rightarrow> (addr_key \<times> node_entry) list \<Rightarrow> string list list option" where
  "write_reachable pr snap =
     map_option (Cons reachable_header)
       (option_all (map (reachable_row pr) (rows_by Reachable reachable_key snap)))"

text \<open>The records written before the one that panics; dropping the writer flushes them.\<close>

definition reachable_before_panic :: "printers \<Rightarrow> (addr_key \<times> node_entry) list \<Rightarrow> string list list" where
  "reachable_before_panic pr snap =
     reachable_header # map the (takeWhile (\<lambda>r. r \<noteq> None)
       (map (reachable_row pr) (rows_by Reachable reachable_key snap)))"

definition write_handshake_failed :: "printers \<Rightarrow> (addr_key \<times> node_entry) list \<Rightarrow> string list list" where
  "write_handshake_failed pr snap =
     handshake_failed_header #
     map (handshake_failed_row pr) (rows_by HandshakeFailed handshake_failed_key snap)"

definition write_unreachable :: "printers \<Rightarrow> (addr_key \<times> node_entry) list \<Rightarrow> string list list" where
  "write_unreachable pr snap =
     unreachable_header # map (unreachable_row pr) (rows_by Unreachable freshest_ts snap)"

subsection \<open>Statistics\<close>

definition breakdown_json :: "network_breakdown \<Rightarrow> json" where
  "breakdown_json b =
     JObj [(''total'', json_u64 (nb_total b)), (''unknown'', json_u64 (nb_unknown b)),
           (''ipv4'', json_u64 (nb_ipv4 b)), (''ipv6'', json_u64 (nb_ipv6 b)),
           (''onion_v2'', json_u64 (nb_onion_v2 b)), (''onion_v3'', json_u64 (nb_onion_v3 b)),
           (''i2p'', json_u64 (nb_i2p b)), (''cjdns'', json_u64 (nb_cjdns b))]"

text \<open>\<open>*map.entry(reason).or_insert(0) += 1\<close> on a \<open>BTreeMap\<close>, a list sorted by key.\<close>

fun histogram_add :: "string \<Rightarrow> (string \<times> u64) list \<Rightarrow> (string \<times> u64) list" where
  "histogram_add r [] = [(r, 1)]"
| "histogram_add r ((s, n) # h) =
     (if r = s then (s, n + 1) # h
      else if r < s then (r, 1) # (s, n) # h
      else (s, n) # histogram_add r h)"

definition histogram_json :: "(string \<times> u64) list \<Rightarrow> json" where
  "histogram_json h = JObj (map (\<lambda>(r, n). (r, json_u64 n)) h)"

record tally =
  ta_reachable :: network_breakdown
  ta_handshake_failed :: network_breakdown
  ta_unreachable :: network_breakdown
  ta_list_reachable :: "string list"
  ta_list_handshake_failed :: "string list"
  ta_list_unreachable :: "string list"
  ta_handshake_failed_reasons :: "(string \<times> u64) list"
  ta_unreachable_reasons :: "(string \<times> u64) list"

definition tally_empty :: tally where
  "tally_empty =
     \<lparr>ta_reachable = breakdown_default, ta_handshake_failed = breakdown_default,
      ta_unreachable = breakdown_default, ta_list_reachable = [], ta_list_handshake_failed = [],
      ta_list_unreachable = [], ta_handshake_failed_reasons = [], ta_unreachable_reasons = []\<rparr>"

definition reason_of :: "node_entry \<Rightarrow> string" where
  "reason_of e = (case ne_failure e of Some f \<Rightarrow> fail_as_str f | None \<Rightarrow> ''unknown'')"

definition tally_add :: "addr_key \<times> node_entry \<Rightarrow> tally \<Rightarrow> tally" where
  "tally_add = (\<lambda>(key, e) t.
     case ne_state e of
       Reachable \<Rightarrow>
         t\<lparr>ta_reachable := breakdown_add (ne_network e) (ta_reachable t),
           ta_list_reachable := ta_list_reachable t @ [key_render key]\<rparr>
     | HandshakeFailed \<Rightarrow>
         t\<lparr>ta_handshake_failed := breakdown_add (ne_network e) (ta_handshake_failed t),
           ta_list_handshake_failed := ta_list_handshake_failed t @ [key_render key],
           ta_handshake_failed_reasons := histogram_add (reason_of e) (ta_handshake_failed_reasons t)\<rparr>
     | Unreachable \<Rightarrow>
         t\<lparr>ta_unreachable := breakdown_add (ne_network e) (ta_unreachable t),
           ta_list_unreachable := ta_list_unreachable t @ [key_render key],
           ta_unreachable_reasons := histogram_add (reason_of e) (ta_unreachable_reasons t)\<rparr>
     | _ \<Rightarrow> t)"

definition tally_of :: "(addr_key \<times> node_entry) list \<Rightarrow> tally" where
  "tally_of snap = fold tally_add snap tally_empty"

definition strings_json :: "string list \<Rightarrow> json" where
  "strings_json xs = JArr (map JStr xs)"

definition seed_breakdown :: "seed_result \<Rightarrow> network_breakdown" where
  "seed_breakdown sr = fold (\<lambda>(key, net). breakdown_add net) (sr_addrs sr) breakdown_default"

definition num_from_seed :: "seed_result list \<Rightarrow> (string \<times> json) list" where
  "num_from_seed seeds = fold (\<lambda>sr. map_insert (sr_seed sr) (breakdown_json (seed_breakdown sr))) seeds []"

definition list_from_seed :: "seed_result list \<Rightarrow> (string \<times> json) list" where
  "list_from_seed seeds =
     fold (\<lambda>sr. map_insert (sr_seed sr) (strings_json (map (\<lambda>(key, net). key_render key) (sr_addrs sr)))) seeds []"

definition consistency_text :: "bool \<Rightarrow> string" where
  "consistency_text consistent = (if consistent then ''final_consistent'' else ''checkpoint_fuzzy'')"


text \<open>What \<open>serde\<close> derives for the settings: the fields in order, without those marked to be skipped.\<close>

definition timeouts_json :: "timeouts \<Rightarrow> json" where
  "timeouts_json t =
     JObj [(''connect'', json_u64 (to_connect t)), (''message'', json_u64 (to_message t)),
           (''getaddr'', json_u64 (to_getaddr t)), (''getaddr_idle'', json_u64 (to_getaddr_idle t))]"

definition settings_json :: "settings \<Rightarrow> json" where
  "settings_json st =
     (let v = st_version_info st; en = st_enabled_networks st; cc = st_concurrency st;
          ns = st_node_settings st; ts = ns_timeouts ns; ep = ns_endpoints ns; rs = st_result_settings st
      in JObj [
        (''version_info'', JObj [(''version'', JStr (vi_version v)), (''extra'', json_opt JStr (vi_extra v))]),
        (''delay_start'', json_u64 (st_delay_start st)),
        (''max_nodes'', json_opt json_u64 (st_max_nodes st)),
        (''max_addresses'', json_u64 (st_max_addresses st)),
        (''enabled_networks'', JObj [(''ipv4'', JBool (en_ipv4 en)), (''ipv6'', JBool (en_ipv6 en)),
           (''tor'', JBool (en_tor en)), (''i2p'', JBool (en_i2p en)), (''cjdns'', JBool (en_cjdns en))]),
        (''strict_networks'', JBool (st_strict_networks st)),
        (''freshness_threshold'', JNum (st_freshness_threshold st)),
        (''record_addr_responses'', JBool (st_record_addr_responses st)),
        (''concurrency'', JObj [(''ip'', json_u64 (cc_ip cc)), (''tor'', json_u64 (cc_tor cc)),
           (''i2p'', json_u64 (cc_i2p cc))]),
        (''node_settings'', JObj [
           (''timeouts'', JObj [(''ip'', timeouts_json (ts_ip ts)), (''tor'', timeouts_json (ts_tor ts)),
              (''i2p'', timeouts_json (ts_i2p ts)), (''cjdns'', timeouts_json (ts_cjdns ts))]),
           (''handshake_attempts'', json_u64 (ns_handshake_attempts ns)),
           (''network_settings'', JObj [(''tor_proxy_host'', JStr (tor_proxy_host ep)),
              (''tor_proxy_port'', json_u64 (tor_proxy_port ep)),
              (''i2p_sam_host'', JStr (i2p_sam_host ep)), (''i2p_sam_port'', json_u64 (i2p_sam_port ep))])]),
        (''result_settings'', JObj [(''path'', JStr (rs_path rs)), (''timestamp'', JStr (rs_timestamp rs)),
           (''reachable_nodes'', JStr (rs_reachable_nodes rs)),
           (''handshake_failed_nodes'', JStr (rs_handshake_failed_nodes rs)),
           (''unreachable_nodes'', JStr (rs_unreachable_nodes rs)),
           (''crawler_stats'', JStr (rs_crawler_stats rs)),
           (''addr_responses'', JStr (rs_addr_responses rs))])])"

definition stats_json ::
  "(addr_key \<times> node_entry) list \<Rightarrow> settings \<Rightarrow> seed_result list \<Rightarrow> snapshot_meta \<Rightarrow> usize \<Rightarrow> json" where
  "stats_json snap st seeds meta budget_rejected =
     (let t = tally_of snap
      in JObj [
        (''crawler_settings'', settings_json st),
        (''time_started'', JStr (rs_timestamp (st_result_settings st))),
        (''runtime_seconds'', JNum (sm_runtime_seconds meta)),
        (''num_processed_nodes'', json_u64 (sm_num_processed meta)),
        (''num_reachable'', breakdown_json (ta_reachable t)),
        (''num_handshake_failed'', breakdown_json (ta_handshake_failed t)),
        (''num_unreachable'', breakdown_json (ta_unreachable t)),
        (''handshake_failed_reasons'', histogram_json (ta_handshake_failed_reasons t)),
        (''unreachable_reasons'', histogram_json (ta_unreachable_reasons t)),
        (''num_advertised'', JNum (int (length snap))),
        (''num_budget_rejected_observations'', json_u64 budget_rejected),
        (''snapshot_consistency'', JStr (consistency_text (sm_consistent meta))),
        (''run_complete'', JBool (sm_run_complete meta)),
        (''getaddr_sample_semantics'', JStr (''capped partial sample which may be cached for roughly 21-27 hours; '' @
           ''not a complete live addrman view'')),
        (''num_nodes_from_seed'', JObj (num_from_seed seeds)),
        (''list_reachable'', strings_json (ta_list_reachable t)),
        (''list_handshake_failed'', strings_json (ta_list_handshake_failed t)),
        (''list_unreachable'', strings_json (ta_list_unreachable t)),
        (''list_nodes_from_seed'', JObj (list_from_seed seeds))])"

definition stats_text ::
  "printers \<Rightarrow> (addr_key \<times> node_entry) list \<Rightarrow> settings \<Rightarrow> seed_result list \<Rightarrow> snapshot_meta \<Rightarrow> usize \<Rightarrow> string" where
  "stats_text pr snap st seeds meta budget_rejected =
     json_pretty pr 4 (stats_json snap st seeds meta budget_rejected) @ newline"

subsection \<open>Publishing a snapshot\<close>

text \<open>\<open>BTreeMap::insert\<close> on a list sorted by key.\<close>

fun btree_insert :: "string \<Rightarrow> 'v \<Rightarrow> (string \<times> 'v) list \<Rightarrow> (string \<times> 'v) list" where
  "btree_insert k v [] = [(k, v)]"
| "btree_insert k v ((l, w) # m) =
     (if k = l then (k, v) # m else if k < l then (k, v) # (l, w) # m else (l, w) # btree_insert k v m)"

definition sha256_file :: "crates \<Rightarrow> string \<Rightarrow> string \<Rightarrow> fs \<Rightarrow> string fs_result" where
  "sha256_file cr d n = fs_then (read_file d n) (\<lambda>bs. fs_return (hex_of (sha256 cr bs)))"

fun seal_files :: "crates \<Rightarrow> string \<Rightarrow> string list \<Rightarrow> (string \<times> string) list \<Rightarrow> fs \<Rightarrow> (string \<times> string) list fs_result" where
  "seal_files cr d [] hashes = fs_return hashes"
| "seal_files cr d (n # ns) hashes =
     fs_then (sync_file d n) (\<lambda>_.
     fs_then (sha256_file cr d n) (\<lambda>h. seal_files cr d ns (btree_insert n h hashes)))"

definition manifest_json :: "string \<Rightarrow> nat \<Rightarrow> snapshot_meta \<Rightarrow> (string \<times> string) list \<Rightarrow> json" where
  "manifest_json gen entries meta hashes =
     JObj [
       (''schema_version'', JNum 1),
       (''generation'', JStr gen),
       (''snapshot_directory'', JStr (''snapshots/'' @ gen)),
       (''snapshot_consistency'', JStr (consistency_text (sm_consistent meta))),
       (''run_complete'', JBool (sm_run_complete meta)),
       (''durable_addr_event_id'', json_opt json_u64 (sm_durable_addr_event_id meta)),
       (''num_snapshot_entries'', JNum (int entries)),
       (''files_sha256'', JObj (map (\<lambda>(n, h). (n, JStr h)) hashes)),
       (''address_sample_semantics'', JStr (''A getaddr response is a capped, partial, potentially 21-27-hour cached '' @
          ''sample; it is not a complete live addrman view.''))]"

definition manifest_name :: string where
  "manifest_name = ''snapshot_manifest.json''"

definition publish_manifest :: "printers \<Rightarrow> string \<Rightarrow> string \<Rightarrow> json \<Rightarrow> fs \<Rightarrow> unit fs_result" where
  "publish_manifest pr run tmp manifest =
     fs_then (write_new run tmp (str_bytes (json_pretty pr 2 manifest @ newline))) (\<lambda>_.
     fs_then (sync_file run tmp) (\<lambda>_.
     fs_then (rename_file run tmp manifest_name) (\<lambda>_.
     sync_dir run)))"

definition result_files :: "settings \<Rightarrow> string list" where
  "result_files st =
     (let rs = st_result_settings st
      in [rs_reachable_nodes rs, rs_handshake_failed_nodes rs, rs_unreachable_nodes rs, rs_crawler_stats rs])"

definition snapshots_dir :: "settings \<Rightarrow> string" where
  "snapshots_dir st = path_join (run_dir st) ''snapshots''"

definition temp_dir :: "settings \<Rightarrow> string \<Rightarrow> string" where
  "temp_dir st gen = path_join (snapshots_dir st) (''.tmp-'' @ gen)"

definition final_dir :: "settings \<Rightarrow> string \<Rightarrow> string" where
  "final_dir st gen = path_join (snapshots_dir st) gen"

text \<open>The directory of the snapshot, complete and under its final name, and the digests of its files.\<close>

definition prepare_snapshot ::
  "crates \<Rightarrow> printers \<Rightarrow> string \<Rightarrow> string list list \<Rightarrow> (addr_key \<times> node_entry) list \<Rightarrow> usize \<Rightarrow>
   settings \<Rightarrow> seed_result list \<Rightarrow> snapshot_meta \<Rightarrow> fs \<Rightarrow> (string \<times> string) list fs_result" where
  "prepare_snapshot cr pr gen reachable snap budget_rejected st seeds meta =
     (let rs = st_result_settings st; d = temp_dir st gen
      in fs_then (write_new d (rs_reachable_nodes rs) (str_bytes (csv_print pr reachable))) (\<lambda>_.
         fs_then (write_new d (rs_handshake_failed_nodes rs) (str_bytes (csv_print pr (write_handshake_failed pr snap)))) (\<lambda>_.
         fs_then (write_new d (rs_unreachable_nodes rs) (str_bytes (csv_print pr (write_unreachable pr snap)))) (\<lambda>_.
         fs_then (write_new d (rs_crawler_stats rs) (str_bytes (stats_text pr snap st seeds meta budget_rejected))) (\<lambda>_.
         fs_then (seal_files cr d (result_files st) []) (\<lambda>hashes.
         fs_then (sync_dir d) (\<lambda>_.
         fs_then (rename_dir d (final_dir st gen)) (\<lambda>_.
         fs_then (sync_dir (snapshots_dir st)) (\<lambda>_.
         fs_return hashes)))))))))"

definition write_files ::
  "crates \<Rightarrow> printers \<Rightarrow> string \<Rightarrow> string \<Rightarrow> string list list \<Rightarrow> (addr_key \<times> node_entry) list \<Rightarrow> usize \<Rightarrow>
   settings \<Rightarrow> seed_result list \<Rightarrow> snapshot_meta \<Rightarrow> fs \<Rightarrow> unit fs_result" where
  "write_files cr pr gen tmp reachable snap budget_rejected st seeds meta =
     fs_then (prepare_snapshot cr pr gen reachable snap budget_rejected st seeds meta) (\<lambda>hashes.
     publish_manifest pr (run_dir st) tmp (manifest_json gen (length snap) meta hashes))"

fun outcome_of :: "'a fs_result \<Rightarrow> 'a outcome \<times> fs" where
  "outcome_of (Inl e, s) = (Failed e, s)"
| "outcome_of (Inr a, s) = (Returned a, s)"

text \<open>
  \<open>gen\<close> and \<open>tmp\<close> are the names made of the time and the process id. A reachable entry without a
  handshake panics in the middle of the first file, unless that file could not be written.
\<close>

definition write_snapshot ::
  "crates \<Rightarrow> printers \<Rightarrow> string \<Rightarrow> string \<Rightarrow> (addr_key \<times> node_entry) list \<Rightarrow> usize \<Rightarrow>
   settings \<Rightarrow> seed_result list \<Rightarrow> snapshot_meta \<Rightarrow> fs \<Rightarrow> unit outcome \<times> fs" where
  "write_snapshot cr pr gen tmp snap budget_rejected st seeds meta s =
     (case fs_then (create_dir_all (snapshots_dir st)) (\<lambda>_. create_dir (temp_dir st gen)) s of
        (Inl e, s) \<Rightarrow> (Failed e, s)
      | (Inr _, s) \<Rightarrow>
          (case write_reachable pr snap of
             None \<Rightarrow>
               (case write_new (temp_dir st gen) (rs_reachable_nodes (st_result_settings st))
                   (str_bytes (csv_print pr (reachable_before_panic pr snap))) s of
                  (Inl e, s) \<Rightarrow> (Failed e, s)
                | (Inr _, s) \<Rightarrow> (Panicked ''reachable has handshake'', s))
           | Some reachable \<Rightarrow>
               outcome_of (write_files cr pr gen tmp reachable snap budget_rejected st seeds meta s)))"

definition write_all_output ::
  "crates \<Rightarrow> printers \<Rightarrow> string \<Rightarrow> string \<Rightarrow> node_store \<Rightarrow> settings \<Rightarrow> seed_result list \<Rightarrow> snapshot_meta \<Rightarrow>
   fs \<Rightarrow> unit outcome \<times> fs" where
  "write_all_output cr pr gen tmp store st seeds meta =
     write_snapshot cr pr gen tmp (snapshot store) (ns_budget_rejected store) st seeds meta"


section \<open>Properties of the result files\<close>

subsection \<open>Rows\<close>

lemma rows_by_mset: "mset (rows_by state key snap) = filter_mset (\<lambda>(k, e). ne_state e = state) (mset snap)"
  by (simp add: rows_by_def)

lemma rows_by_sorted: "sorted (map (key \<circ> snd) (rows_by state key snap))"
  by (simp add: rows_by_def split_def comp_def)

lemma reachable_row_length: "reachable_row pr x = Some row \<Longrightarrow> length row = length reachable_header"
  by (auto simp: reachable_row_def reachable_header_def Let_def split: prod.splits option.splits)

lemma other_row_length:
  "length (handshake_failed_row pr x) = length handshake_failed_header"
  "length (unreachable_row pr x) = length unreachable_header"
  by (simp_all add: handshake_failed_row_def handshake_failed_header_def unreachable_row_def
      unreachable_header_def Let_def split: prod.splits)

lemma option_all_Some: "option_all xs = Some ys \<longleftrightarrow> xs = map Some ys"
proof -
  have "None \<notin> set xs \<Longrightarrow> map Some (map the xs) = xs" by (induction xs) auto
  moreover have "map the (map Some ys) = ys" by (induction ys) auto
  ultimately show ?thesis by (auto simp: option_all_def simp del: map_map)
qed

text \<open>C37: The result files of a snapshot hold each entry with a verdict exactly once, in the file of its
  verdict, in the order of that file's time stamp, every row with as many fields as the header; the other
  entries are in none of them.\<close>

theorem result_rows:
  assumes "write_reachable pr snap = Some reachable"
  shows "\<exists>r f u.
    reachable = reachable_header # map (the \<circ> reachable_row pr) r \<and>
    write_handshake_failed pr snap = handshake_failed_header # map (handshake_failed_row pr) f \<and>
    write_unreachable pr snap = unreachable_header # map (unreachable_row pr) u \<and>
    mset r + mset f + mset u =
      filter_mset (\<lambda>(k, e). ne_state e \<in> {Reachable, HandshakeFailed, Unreachable}) (mset snap) \<and>
    (\<forall>x \<in> set r. ne_state (snd x) = Reachable) \<and> (\<forall>x \<in> set f. ne_state (snd x) = HandshakeFailed) \<and>
    (\<forall>x \<in> set u. ne_state (snd x) = Unreachable) \<and>
    sorted (map (reachable_key \<circ> snd) r) \<and> sorted (map (handshake_failed_key \<circ> snd) f) \<and>
    sorted (map (freshest_ts \<circ> snd) u) \<and>
    (\<forall>row \<in> set reachable. length row = 34) \<and>
    (\<forall>row \<in> set (write_handshake_failed pr snap). length row = 9) \<and>
    (\<forall>row \<in> set (write_unreachable pr snap). length row = 7)"
proof (intro exI conjI)
  let ?r = "rows_by Reachable reachable_key snap" and ?f = "rows_by HandshakeFailed handshake_failed_key snap"
    and ?u = "rows_by Unreachable freshest_ts snap"
  from assms obtain rs where rs: "reachable = reachable_header # rs" "map (reachable_row pr) ?r = map Some rs"
    by (auto simp: write_reachable_def option_all_Some)
  have "map the (map Some rs) = rs" by (induction rs) auto
  then have rs': "rs = map (the \<circ> reachable_row pr) ?r" using rs(2) by (simp flip: map_map)
  show "reachable = reachable_header # map (the \<circ> reachable_row pr) ?r" using rs rs' by simp
  show "write_handshake_failed pr snap = handshake_failed_header # map (handshake_failed_row pr) ?f"
    by (simp add: write_handshake_failed_def)
  show "write_unreachable pr snap = unreachable_header # map (unreachable_row pr) ?u"
    by (simp add: write_unreachable_def)
  show "mset ?r + mset ?f + mset ?u =
      filter_mset (\<lambda>(k, e). ne_state e \<in> {Reachable, HandshakeFailed, Unreachable}) (mset snap)"
    unfolding rows_by_mset by (rule multiset_eqI) (auto simp: count_filter_mset)
  show "\<forall>x \<in> set ?r. ne_state (snd x) = Reachable" "\<forall>x \<in> set ?f. ne_state (snd x) = HandshakeFailed"
    "\<forall>x \<in> set ?u. ne_state (snd x) = Unreachable"
    by (auto simp: rows_by_def)
  show "sorted (map (reachable_key \<circ> snd) ?r)" "sorted (map (handshake_failed_key \<circ> snd) ?f)"
    "sorted (map (freshest_ts \<circ> snd) ?u)"
    by (rule rows_by_sorted)+
  have "length row = 34" if "row \<in> set rs" for row
  proof -
    from that have "Some row \<in> set (map (reachable_row pr) ?r)" using rs(2) by simp
    then obtain x where "reachable_row pr x = Some row" by auto
    from reachable_row_length [OF this] show ?thesis by (simp add: reachable_header_def)
  qed
  then show "\<forall>row \<in> set reachable. length row = 34" using rs by (auto simp: reachable_header_def)
  show "\<forall>row \<in> set (write_handshake_failed pr snap). length row = 9"
    by (auto simp: write_handshake_failed_def other_row_length) (simp_all add: handshake_failed_header_def)
  show "\<forall>row \<in> set (write_unreachable pr snap). length row = 7"
    by (auto simp: write_unreachable_def other_row_length) (simp_all add: unreachable_header_def)
qed


subsection \<open>Statistics\<close>

text \<open>The histogram as a function of the reasons counted.\<close>

definition reason_count :: "string list \<Rightarrow> string \<Rightarrow> u64" where
  "reason_count rs r = word_of_nat (count_list rs r)"

lemma histogram_keys: "set (map fst (histogram_add r h)) = insert r (set (map fst h))"
  by (induction r h rule: histogram_add.induct) auto

lemma histogram_sorted:
  "sorted_wrt (<) (map fst h) \<Longrightarrow> sorted_wrt (<) (map fst (histogram_add r h))"
proof (induction r h rule: histogram_add.induct)
  case (1 r)
  then show ?case by simp
next
  case (2 r s n h)
  then show ?case using histogram_keys [of r h] by (auto simp del: histogram_add.simps(1))
qed

lemma histogram_get:
  "sorted_wrt (<) (map fst h) \<Longrightarrow>
     map_of (histogram_add r h) s =
       (if s = r then Some (case map_of h r of Some n \<Rightarrow> n + 1 | None \<Rightarrow> 1) else map_of h s)"
proof (induction r h rule: histogram_add.induct)
  case (1 r)
  then show ?case by simp
next
  case (2 r q n h)
  have "map_of h r = None" if "r < q"
    using 2(2) that by (force simp: map_of_eq_None_iff)
  with 2 show ?case by auto
qed

lemma histogram_of:
  "sorted_wrt (<) (map fst (fold histogram_add rs [])) \<and>
   map_of (fold histogram_add rs []) s = (if s \<in> set rs then Some (reason_count rs s) else None)"
proof (induction rs rule: rev_induct)
  case Nil
  then show ?case by simp
next
  case (snoc r rs)
  then show ?case
    using histogram_sorted [of "fold histogram_add rs []" r] histogram_get [of "fold histogram_add rs []" r s]
    by (auto simp: reason_count_def count_list_append count_notin)
qed

definition in_state :: "node_state \<Rightarrow> (addr_key \<times> node_entry) list \<Rightarrow> (addr_key \<times> node_entry) list" where
  "in_state state = filter (\<lambda>(k, e). ne_state e = state)"

text \<open>The statistics of a snapshot, read off its entries.\<close>

lemma tally_entries:
  "tally_of snap =
     \<lparr>ta_reachable = fold breakdown_add (map (ne_network \<circ> snd) (in_state Reachable snap)) breakdown_default,
      ta_handshake_failed = fold breakdown_add (map (ne_network \<circ> snd) (in_state HandshakeFailed snap)) breakdown_default,
      ta_unreachable = fold breakdown_add (map (ne_network \<circ> snd) (in_state Unreachable snap)) breakdown_default,
      ta_list_reachable = map (key_render \<circ> fst) (in_state Reachable snap),
      ta_list_handshake_failed = map (key_render \<circ> fst) (in_state HandshakeFailed snap),
      ta_list_unreachable = map (key_render \<circ> fst) (in_state Unreachable snap),
      ta_handshake_failed_reasons = fold histogram_add (map (reason_of \<circ> snd) (in_state HandshakeFailed snap)) [],
      ta_unreachable_reasons = fold histogram_add (map (reason_of \<circ> snd) (in_state Unreachable snap)) []\<rparr>"
  unfolding tally_of_def
proof (induction snap rule: rev_induct)
  case Nil
  then show ?case by (simp add: tally_empty_def in_state_def)
next
  case (snoc x snap)
  obtain k e where x: "x = (k, e)" by fastforce
  have "in_state s (snap @ [x]) = in_state s snap @ (if ne_state e = s then [x] else [])" for s
    by (simp add: in_state_def x)
  moreover note fun_cong [OF tally_add_def, of "(k, e)", unfolded prod.case]
  ultimately show ?case by (cases "ne_state e") (simp_all add: snoc.IH x)
qed

text \<open>What a breakdown of some entries is to say: their number, and for each network the number of those of it.\<close>

definition network_counts :: "(addr_key \<times> node_entry) list \<Rightarrow> network_breakdown" where
  "network_counts xs =
     (let n = net_count (map (ne_network \<circ> snd) xs)
      in \<lparr>nb_total = word_of_nat (length xs), nb_unknown = n Unknown, nb_ipv4 = n Ipv4, nb_ipv6 = n Ipv6,
          nb_onion_v2 = n OnionV2, nb_onion_v3 = n OnionV3, nb_i2p = n I2p, nb_cjdns = n Cjdns\<rparr>)"

text \<open>A histogram of some entries: sorted, each reason that occurs once, with the number of its entries.\<close>

definition counts_reasons :: "(string \<times> u64) list \<Rightarrow> (addr_key \<times> node_entry) list \<Rightarrow> bool" where
  "counts_reasons h xs \<longleftrightarrow>
     (let rs = map (reason_of \<circ> snd) xs
      in sorted_wrt (<) (map fst h) \<and>
         (\<forall>r. map_of h r = (if r \<in> set rs then Some (reason_count rs r) else None)))"

fun json_field :: "json \<Rightarrow> string \<Rightarrow> json option" where
  "json_field (JObj fs) n = map_of fs n"
| "json_field _ n = None"

lemma stats_fields:
  "list_all (\<lambda>(n, v). json_field (stats_json snap st seeds meta rejected) n = Some v)
     (let t = tally_of snap
      in [(''num_reachable'', breakdown_json (ta_reachable t)),
          (''num_handshake_failed'', breakdown_json (ta_handshake_failed t)),
          (''num_unreachable'', breakdown_json (ta_unreachable t)),
          (''list_reachable'', strings_json (ta_list_reachable t)),
          (''list_handshake_failed'', strings_json (ta_list_handshake_failed t)),
          (''list_unreachable'', strings_json (ta_list_unreachable t)),
          (''handshake_failed_reasons'', histogram_json (ta_handshake_failed_reasons t)),
          (''unreachable_reasons'', histogram_json (ta_unreachable_reasons t)),
          (''num_advertised'', JNum (int (length snap)))])"
  by (simp add: stats_json_def Let_def)

lemma rows_of_state: "mset (rows_by state key snap) = mset (in_state state snap)"
  by (simp add: rows_by_mset in_state_def mset_filter)

text \<open>C38: The statistics agree with the rows: for each verdict the list of the file is the rendered addresses of
  the entries with that verdict, which are the addresses of the rows; the breakdown holds their number
  and, network by network, how many are of that network; and the histogram of reasons is sorted, counts
  exactly the reasons that occur, and names each once. The JSON object of the statistics has each of
  them under its name, and the number of all the entries.\<close>

theorem stats_count_entries:
  "(let t = tally_of snap; field = json_field (stats_json snap st seeds meta rejected);
        addrs = map (key_render \<circ> fst)
    in ta_list_reachable t = addrs (in_state Reachable snap) \<and>
       ta_list_handshake_failed t = addrs (in_state HandshakeFailed snap) \<and>
       ta_list_unreachable t = addrs (in_state Unreachable snap) \<and>
       mset (ta_list_reachable t) = mset (addrs (rows_by Reachable reachable_key snap)) \<and>
       mset (ta_list_handshake_failed t) = mset (addrs (rows_by HandshakeFailed handshake_failed_key snap)) \<and>
       mset (ta_list_unreachable t) = mset (addrs (rows_by Unreachable freshest_ts snap)) \<and>
       ta_reachable t = network_counts (in_state Reachable snap) \<and>
       ta_handshake_failed t = network_counts (in_state HandshakeFailed snap) \<and>
       ta_unreachable t = network_counts (in_state Unreachable snap) \<and>
       counts_reasons (ta_handshake_failed_reasons t) (in_state HandshakeFailed snap) \<and>
       counts_reasons (ta_unreachable_reasons t) (in_state Unreachable snap) \<and>
       field ''num_reachable'' = Some (breakdown_json (ta_reachable t)) \<and>
       field ''num_handshake_failed'' = Some (breakdown_json (ta_handshake_failed t)) \<and>
       field ''num_unreachable'' = Some (breakdown_json (ta_unreachable t)) \<and>
       field ''list_reachable'' = Some (strings_json (ta_list_reachable t)) \<and>
       field ''list_handshake_failed'' = Some (strings_json (ta_list_handshake_failed t)) \<and>
       field ''list_unreachable'' = Some (strings_json (ta_list_unreachable t)) \<and>
       field ''handshake_failed_reasons'' = Some (histogram_json (ta_handshake_failed_reasons t)) \<and>
       field ''unreachable_reasons'' = Some (histogram_json (ta_unreachable_reasons t)) \<and>
       field ''num_advertised'' = Some (JNum (int (length snap))))"
proof -
  have "fold breakdown_add (map (ne_network \<circ> snd) xs) breakdown_default = network_counts xs" for xs
    by (simp add: breakdown_counts network_counts_def Let_def)
  moreover have "counts_reasons (fold histogram_add (map (reason_of \<circ> snd) xs) []) xs" for xs
    using histogram_of by (simp add: counts_reasons_def Let_def del: set_map)
  ultimately show ?thesis
    using stats_fields [of snap st seeds meta rejected]
    unfolding Let_def by (simp add: tally_entries rows_of_state del: json_field.simps)
qed


subsection \<open>Publishing\<close>

text \<open>An operation keeps a file if the file is the same after it, whether it succeeds or fails.\<close>

definition keeps :: "string \<times> string \<Rightarrow> (fs \<Rightarrow> 'a fs_result) \<Rightarrow> bool" where
  "keeps x m \<longleftrightarrow> (\<forall>s. fs_files (snd (m s)) x = fs_files s x)"

lemma keeps_then:
  assumes "keeps x m" "\<And>a. keeps x (f a)"
  shows "keeps x (fs_then m f)"
  unfolding keeps_def
proof
  fix s
  obtain r s1 where m: "m s = (r, s1)" by fastforce
  with assms(1) have k: "fs_files s1 x = fs_files s x" unfolding keeps_def by (metis snd_conv)
  show "fs_files (snd (fs_then m f s)) x = fs_files s x"
  proof (cases r)
    case (Inl e)
    with m k show ?thesis by (simp add: fs_then_def)
  next
    case (Inr a)
    with m k assms(2) [of a] show ?thesis by (simp add: fs_then_def keeps_def)
  qed
qed

lemma keeps_faulty:
  assumes "\<And>s. fs_files (snd (m s)) x = fs_files s x"
  shows "keeps x (faulty m)"
  unfolding keeps_def
proof
  fix s
  obtain f s1 where n: "next_fault s = (f, s1)" by fastforce
  with next_fault_fields(2) [of s] have "fs_files s1 = fs_files s" by simp
  with n assms show "fs_files (snd (faulty m s)) x = fs_files s x"
    by (cases f) (auto simp: faulty_def)
qed

lemma keeps_read: "keeps x (read_file d n)"
  unfolding read_file_def by (intro keeps_faulty) (auto split: option.splits)

lemma keeps_sync: "keeps x (sync_file d n)" "keeps x (sync_dir d)"
  unfolding sync_file_def sync_dir_def by (intro keeps_faulty; auto split: option.splits)+

lemma keeps_create: "keeps x (create_dir_all d)" "keeps x (create_dir d)"
  unfolding create_dir_all_def create_dir_def by (intro keeps_faulty; auto)+

lemma keeps_write: "x \<noteq> (d, n) \<Longrightarrow> keeps x (write_new d n bs)"
  unfolding keeps_def
proof
  fix s
  assume x: "x \<noteq> (d, n)"
  obtain f s1 where n: "next_fault s = (f, s1)" by fastforce
  with next_fault_fields(2) [of s] have "fs_files s1 = fs_files s" by simp
  with n x show "fs_files (snd (write_new d n bs s)) x = fs_files s x"
    by (cases f) (auto simp: write_new_def)
qed

lemma keeps_rename_dir: "fst x \<noteq> a \<Longrightarrow> fst x \<noteq> b \<Longrightarrow> keeps x (rename_dir a b)"
  unfolding rename_dir_def by (intro keeps_faulty) (cases x, auto)

lemma keeps_rename_file: "x \<noteq> (d, a) \<Longrightarrow> x \<noteq> (d, b) \<Longrightarrow> keeps x (rename_file d a b)"
  unfolding rename_file_def by (intro keeps_faulty) (auto split: option.splits)

lemma keeps_return: "keeps x (fs_return a)"
  by (simp add: keeps_def fs_return_def)

lemma keeps_seal: "keeps x (seal_files cr d ns hashes)"
proof (induction ns arbitrary: hashes)
  case Nil
  then show ?case by (simp add: keeps_return)
next
  case (Cons n ns)
  then show ?case
    by (auto simp: sha256_file_def intro!: keeps_then keeps_sync keeps_read keeps_return)
qed

lemma path_join_longer:
  "\<not> prefix ''/'' n \<Longrightarrow> n \<noteq> [] \<Longrightarrow> length (path_join d n) > length d"
  by (auto simp: path_join_def)

lemma snapshot_dirs:
  assumes "gen \<noteq> []" "\<not> prefix ''/'' gen"
  shows "temp_dir st gen \<noteq> run_dir st" "final_dir st gen \<noteq> run_dir st" "temp_dir st gen \<noteq> final_dir st gen"
proof -
  have s: "length (run_dir st) < length (snapshots_dir st)"
    unfolding snapshots_dir_def by (rule path_join_longer) simp_all
  have t: "length (snapshots_dir st) < length (temp_dir st gen)"
    unfolding temp_dir_def by (rule path_join_longer) simp_all
  have f: "length (snapshots_dir st) < length (final_dir st gen)"
    unfolding final_dir_def by (rule path_join_longer) (use assms in simp_all)
  from s t show "temp_dir st gen \<noteq> run_dir st" by auto
  from s f show "final_dir st gen \<noteq> run_dir st" by auto
  show "temp_dir st gen \<noteq> final_dir st gen"
  proof
    assume "temp_dir st gen = final_dir st gen"
    then have "length (temp_dir st gen) = length (final_dir st gen)" by simp
    with assms show False by (auto simp: temp_dir_def final_dir_def path_join_def split: if_splits)
  qed
qed

lemma keeps_prepare:
  assumes "gen \<noteq> []" "\<not> prefix ''/'' gen"
  shows "keeps (run_dir st, n) (prepare_snapshot cr pr gen reachable snap rejected st seeds meta)"
  using snapshot_dirs [OF assms, of st] unfolding prepare_snapshot_def Let_def
  by (intro keeps_then keeps_write keeps_seal keeps_sync keeps_rename_dir keeps_return) auto


lemma faulty_Inr: "faulty m s = (Inr a, s') \<Longrightarrow> m (snd (next_fault s)) = (Inr a, s')"
  by (cases "next_fault s") (auto simp: faulty_def split: option.splits)

lemma write_new_Inr:
  "write_new d n bs s = (Inr u, s') \<Longrightarrow>
     fs_files s (d, n) = None \<and> fs_files s' = (fs_files s)((d, n) \<mapsto> bs) \<and> fs_log s' = fs_log s"
  using next_fault_fields [of s]
  by (cases "next_fault s") (auto simp: write_new_def split: option.splits if_splits)

lemma sync_file_Inr:
  "sync_file d n s = (Inr u, s') \<Longrightarrow>
     fs_files s' = fs_files s \<and> fs_log s' = fs_log s @ [SyncedFile d n] \<and> fs_files s (d, n) \<noteq> None"
  unfolding sync_file_def by (drule faulty_Inr) (auto split: option.splits)

lemma read_file_Inr:
  "read_file d n s = (Inr bs, s') \<Longrightarrow> fs_files s' = fs_files s \<and> fs_log s' = fs_log s \<and> fs_files s (d, n) = Some bs"
  unfolding read_file_def by (drule faulty_Inr) (auto split: option.splits)

lemma sync_dir_Inr:
  "sync_dir d s = (Inr u, s') \<Longrightarrow> fs_files s' = fs_files s \<and> fs_log s' = fs_log s @ [SyncedDir d]"
  unfolding sync_dir_def by (drule faulty_Inr) auto

lemma rename_dir_Inr:
  "rename_dir a b s = (Inr u, s') \<Longrightarrow>
     (\<forall>n. fs_files s' (b, n) = fs_files s (a, n)) \<and> fs_log s' = fs_log s @ [RenamedDir a b]"
  unfolding rename_dir_def by (drule faulty_Inr) (auto split: if_splits)

lemma rename_file_Inr:
  "rename_file d a b s = (Inr u, s') \<Longrightarrow>
     (\<exists>bs. fs_files s (d, a) = Some bs \<and> fs_files s' = (fs_files s)((d, a) := None, (d, b) \<mapsto> bs)) \<and>
     fs_log s' = fs_log s @ [RenamedFile d a b]"
  unfolding rename_file_def by (drule faulty_Inr) (auto split: option.splits)

lemma btree_keys: "set (map fst (btree_insert k v m)) = insert k (set (map fst m))"
  by (induction k v m rule: btree_insert.induct) auto

lemma btree_sorted: "sorted_wrt (<) (map fst m) \<Longrightarrow> sorted_wrt (<) (map fst (btree_insert k v m))"
proof (induction k v m rule: btree_insert.induct)
  case (1 k v)
  then show ?case by simp
next
  case (2 k v l w m)
  then show ?case using btree_keys [of k v m] by (auto simp del: btree_insert.simps(1))
qed

lemma btree_get:
  "sorted_wrt (<) (map fst m) \<Longrightarrow> map_of (btree_insert k v m) x = (if x = k then Some v else map_of m x)"
  by (induction k v m rule: btree_insert.induct) auto

text \<open>What sealing the files of a directory returns.\<close>

lemma seal_Inr:
  assumes "seal_files cr d ns hashes s = (Inr hashes', s')" "sorted_wrt (<) (map fst hashes)"
  shows "fs_files s' = fs_files s \<and> fs_log s' = fs_log s @ map (SyncedFile d) ns \<and>
    sorted_wrt (<) (map fst hashes') \<and> set (map fst hashes') = set ns \<union> set (map fst hashes) \<and>
    (\<forall>n \<in> set ns. \<exists>bs. fs_files s (d, n) = Some bs \<and> map_of hashes' n = Some (hex_of (sha256 cr bs))) \<and>
    (\<forall>n. n \<notin> set ns \<longrightarrow> map_of hashes' n = map_of hashes n)"
  using assms
proof (induction ns arbitrary: hashes s)
  case Nil
  then show ?case by (simp add: fs_return_def)
next
  case (Cons n ns)
  from Cons.prems(1) obtain u s1 h s2 where
      s1: "sync_file d n s = (Inr u, s1)" and h: "sha256_file cr d n s1 = (Inr h, s2)"
    and r: "seal_files cr d ns (btree_insert n h hashes) s2 = (Inr hashes', s')"
    by (auto simp: fs_then_Inr)
  from h obtain bs where bs: "read_file d n s1 = (Inr bs, s2)" "h = hex_of (sha256 cr bs)"
    by (auto simp: sha256_file_def fs_then_Inr fs_return_def)
  note f1 = sync_file_Inr [OF s1] and f2 = read_file_Inr [OF bs(1)]
  note IH = Cons.IH [OF r btree_sorted [OF Cons.prems(2)]]
  have g: "map_of (btree_insert n h hashes) x = (if x = n then Some h else map_of hashes x)" for x
    by (rule btree_get [OF Cons.prems(2)])
  have files: "fs_files s2 = fs_files s" using f1 f2 by simp
  have "\<exists>bs. fs_files s (d, m) = Some bs \<and> map_of hashes' m = Some (hex_of (sha256 cr bs))"
    if "m \<in> set (n # ns)" for m
  proof (cases "m \<in> set ns")
    case True
    with IH files show ?thesis by simp
  next
    case False
    with that have m: "m = n" by simp
    from IH False g have "map_of hashes' m = (if m = n then Some h else map_of hashes m)" by simp
    with m f1 f2 bs(2) show ?thesis by simp
  qed
  moreover have "map_of hashes' m = map_of hashes m" if "m \<notin> set (n # ns)" for m
    using IH g that by simp
  ultimately show ?case
    using IH f1 f2 btree_keys [of n h hashes] by (simp del: set_map)
qed

text \<open>The four result files of a snapshot, each with the text it is to hold.\<close>

definition result_texts ::
  "printers \<Rightarrow> string list list \<Rightarrow> (addr_key \<times> node_entry) list \<Rightarrow> usize \<Rightarrow> settings \<Rightarrow> seed_result list \<Rightarrow>
   snapshot_meta \<Rightarrow> (string \<times> string) list" where
  "result_texts pr reachable snap rejected st seeds meta =
     (let rs = st_result_settings st
      in [(rs_reachable_nodes rs, csv_print pr reachable),
          (rs_handshake_failed_nodes rs, csv_print pr (write_handshake_failed pr snap)),
          (rs_unreachable_nodes rs, csv_print pr (write_unreachable pr snap)),
          (rs_crawler_stats rs, stats_text pr snap st seeds meta rejected)])"

lemma result_texts_files: "map fst (result_texts pr reachable snap rejected st seeds meta) = result_files st"
  by (simp add: result_texts_def result_files_def Let_def)

text \<open>
  The directory \<open>d\<close> holds a complete snapshot: under four different names the whole text of each
  result file, with the digests \<open>hashes\<close>, sorted by name and of these files only.
\<close>

definition complete_snapshot ::
  "crates \<Rightarrow> printers \<Rightarrow> (addr_key \<times> node_entry) list \<Rightarrow> usize \<Rightarrow> settings \<Rightarrow> seed_result list \<Rightarrow>
   snapshot_meta \<Rightarrow> string \<Rightarrow> (string \<times> string) list \<Rightarrow> fs \<Rightarrow> bool" where
  "complete_snapshot cr pr snap rejected st seeds meta d hashes s \<longleftrightarrow>
     distinct (result_files st) \<and> sorted_wrt (<) (map fst hashes) \<and> set (map fst hashes) = set (result_files st) \<and>
     (\<exists>reachable. write_reachable pr snap = Some reachable \<and>
        (\<forall>(n, t) \<in> set (result_texts pr reachable snap rejected st seeds meta).
           fs_files s (d, n) = Some (str_bytes t) \<and> map_of hashes n = Some (hex_of (sha256 cr (str_bytes t)))))"

text \<open>What is made durable and moved, in this order, until the manifest has its name.\<close>

definition publish_order :: "settings \<Rightarrow> string \<Rightarrow> string \<Rightarrow> fs_event list" where
  "publish_order st gen tmp =
     map (SyncedFile (temp_dir st gen)) (result_files st) @
     [SyncedDir (temp_dir st gen), RenamedDir (temp_dir st gen) (final_dir st gen), SyncedDir (snapshots_dir st),
      SyncedFile (run_dir st) tmp, RenamedFile (run_dir st) tmp manifest_name]"

lemma create_log:
  "fs_log (snd (create_dir_all p s)) = fs_log s" "fs_log (snd (create_dir p s)) = fs_log s"
  using next_fault_fields(3) [of s] unfolding create_dir_all_def create_dir_def
  by (cases "next_fault s"; auto simp: faulty_def split: option.splits)+

lemma prepare_Inr:
  assumes "prepare_snapshot cr pr gen reachable snap rejected st seeds meta s = (Inr hashes, s')"
    and "write_reachable pr snap = Some reachable"
  shows "complete_snapshot cr pr snap rejected st seeds meta (final_dir st gen) hashes s' \<and>
    fs_log s' = fs_log s @ map (SyncedFile (temp_dir st gen)) (result_files st) @
      [SyncedDir (temp_dir st gen), RenamedDir (temp_dir st gen) (final_dir st gen), SyncedDir (snapshots_dir st)]"
proof -
  let ?rs = "st_result_settings st" and ?d = "temp_dir st gen"
  let ?texts = "result_texts pr reachable snap rejected st seeds meta"
  from assms(1) obtain u1 u2 u3 u4 u v w s1 s2 s3 s4 s5 s6 s7 where
      w1: "write_new ?d (rs_reachable_nodes ?rs) (str_bytes (csv_print pr reachable)) s = (Inr u1, s1)"
    and w2: "write_new ?d (rs_handshake_failed_nodes ?rs) (str_bytes (csv_print pr (write_handshake_failed pr snap))) s1 = (Inr u2, s2)"
    and w3: "write_new ?d (rs_unreachable_nodes ?rs) (str_bytes (csv_print pr (write_unreachable pr snap))) s2 = (Inr u3, s3)"
    and w4: "write_new ?d (rs_crawler_stats ?rs) (str_bytes (stats_text pr snap st seeds meta rejected)) s3 = (Inr u4, s4)"
    and seal: "seal_files cr ?d (result_files st) [] s4 = (Inr hashes, s5)"
    and sd: "sync_dir ?d s5 = (Inr u, s6)"
    and rn: "rename_dir ?d (final_dir st gen) s6 = (Inr v, s7)"
    and sn: "sync_dir (snapshots_dir st) s7 = (Inr w, s')"
    unfolding prepare_snapshot_def Let_def by (auto simp: fs_then_Inr fs_return_def)
  note wr = write_new_Inr [OF w1] write_new_Inr [OF w2] write_new_Inr [OF w3] write_new_Inr [OF w4]
  have names: "distinct (result_files st)" and log4: "fs_log s4 = fs_log s"
    and texts: "\<forall>(n, t) \<in> set ?texts. fs_files s4 (?d, n) = Some (str_bytes t)"
    using wr by (auto simp: result_files_def result_texts_def Let_def split: if_splits)
  note a = seal_Inr [OF seal, simplified] and b = sync_dir_Inr [OF sd] and c = rename_dir_Inr [OF rn]
    and d = sync_dir_Inr [OF sn]
  have files: "fs_files s' (final_dir st gen, n) = fs_files s4 (?d, n)" for n
    using a b c d by simp
  have "fs_files s' (final_dir st gen, n) = Some (str_bytes t) \<and>
      map_of hashes n = Some (hex_of (sha256 cr (str_bytes t)))" if "(n, t) \<in> set ?texts" for n t
  proof -
    from that have "n \<in> set (map fst ?texts)" by force
    then have "n \<in> set (result_files st)" by (simp only: result_texts_files)
    with a obtain bs where "fs_files s4 (?d, n) = Some bs" "map_of hashes n = Some (hex_of (sha256 cr bs))" by blast
    moreover from texts that have "fs_files s4 (?d, n) = Some (str_bytes t)" by blast
    ultimately show ?thesis using files by simp
  qed
  moreover have "sorted_wrt (<) (map fst hashes)" "set (map fst hashes) = set (result_files st)" using a by simp_all
  ultimately have "complete_snapshot cr pr snap rejected st seeds meta (final_dir st gen) hashes s'"
    using names assms(2) unfolding complete_snapshot_def by blast
  then show ?thesis using a b c d log4 by simp
qed

lemma publish_cases:
  assumes "publish_manifest pr run tmp manifest s = (r, s')" "tmp \<noteq> manifest_name"
  obtains (before) "fs_files s' (run, manifest_name) = fs_files s (run, manifest_name)" "r \<noteq> Inr ()"
  | (published) post where "fs_files s' = (fs_files s)((run, tmp) := None,
        (run, manifest_name) \<mapsto> str_bytes (json_pretty pr 2 manifest @ newline))"
      "fs_log s' = fs_log s @ [SyncedFile run tmp, RenamedFile run tmp manifest_name] @ post"
      "r = Inr () \<Longrightarrow> post = [SyncedDir run]"
proof -
  let ?x = "(run, manifest_name)"
  have kx: "fs_files (snd (m s)) ?x = fs_files s ?x" if "keeps ?x m" for m :: "fs \<Rightarrow> unit fs_result" and s
    using that by (simp add: keeps_def)
  obtain r1 s1 where 1: "write_new run tmp (str_bytes (json_pretty pr 2 manifest @ newline)) s = (r1, s1)" by fastforce
  have k1: "fs_files s1 ?x = fs_files s ?x"
    using kx [OF keeps_write [where d = run and n = tmp]] 1 assms(2) by (metis Pair_inject snd_conv)
  obtain r2 s2 where 2: "sync_file run tmp s1 = (r2, s2)" by fastforce
  have k2: "fs_files s2 ?x = fs_files s1 ?x" using kx [OF keeps_sync(1)] 2 by (metis snd_conv)
  obtain r3 s3 where 3: "rename_file run tmp manifest_name s2 = (r3, s3)" by fastforce
  show thesis
  proof (cases "\<exists>e. r1 = Inl e \<or> r2 = Inl e \<or> r3 = Inl e")
    case True
    have f3: "fs_files s3 = fs_files s2" if "r3 = Inl e" for e
      using 3 that next_fault_fields(2) [of s2]
      by (cases "next_fault s2") (auto simp: rename_file_def faulty_def split: option.splits)
    from True assms(1) 1 2 3 k1 k2 f3 have "fs_files s' ?x = fs_files s ?x \<and> r \<noteq> Inr ()"
      unfolding publish_manifest_def by (auto simp: fs_then_def split: sum.splits)
    then show thesis using before by blast
  next
    case False
    then have ok: "r1 = Inr ()" "r2 = Inr ()" "r3 = Inr ()" by (metis sum.exhaust old.unit.exhaust)+
    with assms(1) 1 2 3 have 4: "sync_dir run s3 = (r, s')"
      unfolding publish_manifest_def by (simp add: fs_then_def)
    note f1 = write_new_Inr [OF 1 [unfolded ok]] and f2 = sync_file_Inr [OF 2 [unfolded ok]]
      and f3 = rename_file_Inr [OF 3 [unfolded ok]]
    have f4: "fs_files s' = fs_files s3 \<and> (\<exists>post. fs_log s' = fs_log s3 @ post \<and> (r = Inr () \<longrightarrow> post = [SyncedDir run]))"
      using 4 next_fault_fields [of s3]
      by (cases "next_fault s3") (auto simp: sync_dir_def faulty_def split: option.splits)
    from f1 f2 f3 f4 obtain post where
        "fs_files s' = (fs_files s)((run, tmp) := None, ?x \<mapsto> str_bytes (json_pretty pr 2 manifest @ newline))"
        "fs_log s' = fs_log s @ [SyncedFile run tmp, RenamedFile run tmp manifest_name] @ post"
        "r = Inr () \<longrightarrow> post = [SyncedDir run]"
      by auto
    then show thesis using published by blast
  qed
qed


lemma snapshot_published:
  assumes "write_snapshot cr pr gen tmp snap rejected st seeds meta s = (r, s')"
    and "gen \<noteq> []" "\<not> prefix ''/'' gen" "tmp \<noteq> manifest_name"
  shows "(fs_files s' (run_dir st, manifest_name) = fs_files s (run_dir st, manifest_name) \<and> r \<noteq> Returned ()) \<or>
    (\<exists>hashes post.
       fs_files s' (run_dir st, manifest_name) =
         Some (str_bytes (json_pretty pr 2 (manifest_json gen (length snap) meta hashes) @ newline)) \<and>
       complete_snapshot cr pr snap rejected st seeds meta (final_dir st gen) hashes s' \<and>
       fs_log s' = fs_log s @ publish_order st gen tmp @ post \<and>
       (r = Returned () \<longrightarrow> post = [SyncedDir (run_dir st)]))"
proof -
  let ?x = "(run_dir st, manifest_name)"
  let ?make = "fs_then (create_dir_all (snapshots_dir st)) (\<lambda>_. create_dir (temp_dir st gen))"
  obtain r0 s0 where m: "?make s = (r0, s0)" by fastforce
  have "keeps ?x ?make" by (intro keeps_then keeps_create)
  with m have k0: "fs_files s0 ?x = fs_files s ?x" unfolding keeps_def by (metis snd_conv)
  have l0: "fs_log s0 = fs_log s"
  proof -
    have "fs_log (snd (?make s)) = fs_log s"
      using create_log(1) [of "snapshots_dir st" s] create_log(2) [of "temp_dir st gen"]
      by (auto simp: fs_then_def split: prod.splits sum.splits)
    with m show ?thesis by simp
  qed
  show ?thesis
  proof (cases r0)
    case (Inl e)
    with assms(1) m k0 show ?thesis by (auto simp: write_snapshot_def)
  next
    case (Inr u)
    show ?thesis
    proof (cases "write_reachable pr snap")
      case None
      let ?w = "write_new (temp_dir st gen) (rs_reachable_nodes (st_result_settings st))
        (str_bytes (csv_print pr (reachable_before_panic pr snap)))"
      obtain rw sw where w: "?w s0 = (rw, sw)" by fastforce
      have "keeps ?x ?w" using snapshot_dirs(1) [OF assms(2,3), of st] by (intro keeps_write) auto
      with w have "fs_files sw ?x = fs_files s0 ?x" unfolding keeps_def by (metis snd_conv)
      with assms(1) m Inr None k0 w show ?thesis by (cases rw) (auto simp: write_snapshot_def)
    next
      case (Some reachable)
      obtain r1 s1 where p: "prepare_snapshot cr pr gen reachable snap rejected st seeds meta s0 = (r1, s1)" by fastforce
      from keeps_prepare [OF assms(2,3)] p have k1: "fs_files s1 ?x = fs_files s0 ?x"
        unfolding keeps_def by (metis snd_conv)
      show ?thesis
      proof (cases r1)
        case (Inl e)
        with assms(1) m Inr Some p k0 k1 show ?thesis
          by (auto simp: write_snapshot_def write_files_def fs_then_def)
      next
        case ok: (Inr hashes)
        note pre = prepare_Inr [OF p [unfolded ok] Some]
        let ?mf = "manifest_json gen (length snap) meta hashes"
        obtain r2 where pub: "publish_manifest pr (run_dir st) tmp ?mf s1 = (r2, s')"
          and r: "(r, s') = outcome_of (r2, s')"
        proof -
          obtain r2 s2 where z: "publish_manifest pr (run_dir st) tmp ?mf s1 = (r2, s2)" by fastforce
          with assms(1) m Inr Some p ok have "(r, s') = outcome_of (r2, s2)"
            by (simp add: write_snapshot_def write_files_def fs_then_def)
          moreover have "snd (outcome_of (r2, s2)) = s2" by (cases r2) simp_all
          ultimately show thesis using that z by (metis snd_conv)
        qed
        from pub assms(4) show ?thesis
        proof (cases rule: publish_cases)
          case before
          with r k0 k1 show ?thesis by (cases r2) auto
        next
          case (published post)
          have "complete_snapshot cr pr snap rejected st seeds meta (final_dir st gen) hashes s'"
            using pre snapshot_dirs(2) [OF assms(2,3), of st] unfolding complete_snapshot_def published(1) by simp
          moreover have "fs_log s' = fs_log s @ publish_order st gen tmp @ post"
            using published(2) pre l0 by (simp add: publish_order_def)
          moreover have "r = Returned () \<longrightarrow> post = [SyncedDir (run_dir st)]"
            using r published(3) by (cases r2) auto
          ultimately show ?thesis using published(1) by fastforce
        qed
      qed
    qed
  qed
qed

text \<open>C6: Whatever operation of a snapshot's writing fails, the published manifest is either the one before or
  names a complete snapshot: its directory holds, under four different names, the whole text of the
  rows of each verdict and of the statistics, and the manifest holds the digests of exactly these texts.
  The four files were synced, then their directory, then it got its final name, then the directory above was
  synced, then the manifest, and only then the manifest took its place. When the writing
  succeeds, the new manifest is published and the run directory synced last.\<close>

theorem manifest_names_complete_snapshot:
  assumes "write_snapshot cr pr gen tmp snap rejected st seeds meta s = (r, s')"
    and "gen \<noteq> []" "\<not> prefix ''/'' gen" "tmp \<noteq> manifest_name"
  shows "(fs_files s' (run_dir st, manifest_name) = fs_files s (run_dir st, manifest_name) \<and> r \<noteq> Returned ()) \<or>
    (\<exists>hashes post.
       fs_files s' (run_dir st, manifest_name) =
         Some (str_bytes (json_pretty pr 2 (manifest_json gen (length snap) meta hashes) @ newline)) \<and>
       complete_snapshot cr pr snap rejected st seeds meta (final_dir st gen) hashes s' \<and>
       fs_log s' = fs_log s @ publish_order st gen tmp @ post \<and>
       (r = Returned () \<longrightarrow> post = [SyncedDir (run_dir st)]))"
  using snapshot_published [OF assms] .

text \<open>The names of the result files under the default arguments.\<close>

definition sample_settings :: settings where
  "sample_settings = projr (cli_into_settings ''t'' cli_defaults)"

definition sample_printers :: printers where
  "sample_printers =
     \<lparr>csv_print = (\<lambda>rows. concat (map concat rows)), json_compact = (\<lambda>j. ''[]''), json_pretty = (\<lambda>n j. ''{}'')\<rparr>"

definition empty_fs :: fs where
  "empty_fs = \<lparr>fs_dirs = [], fs_files = Map.empty, fs_faults = [], fs_log = []\<rparr>"

definition sample_meta :: snapshot_meta where
  "sample_meta = \<lparr>sm_runtime_seconds = 60, sm_num_processed = 1, sm_durable_addr_event_id = None,
     sm_consistent = True, sm_run_complete = True\<rparr>"

lemma sample_built:
  "sample_settings = built_settings ''t'' True (networks_of_args common_defaults) 600 common_defaults 172800 None 1000000 False False"
  by (simp add: sample_settings_def default_cli_settings)

lemma sample_result_settings:
  "st_result_settings sample_settings =
     \<lparr>rs_path = ''results'', rs_timestamp = ''t'', rs_reachable_nodes = ''reachable_nodes.csv'',
      rs_handshake_failed_nodes = ''handshake_failed_nodes.csv'', rs_unreachable_nodes = ''unreachable_nodes.csv'',
      rs_crawler_stats = ''crawler_stats.json'', rs_addr_responses = ''addr_responses.csv''\<rparr>"
  by (simp add: sample_built built_settings_def default_args)

definition sample_node :: "addr_key \<times> node_entry" where
  "sample_node = (\<lparr>ak_host = ''1.2.3.4'', ak_port = 8333\<rparr>, node_entry_new Ipv4 5 Unreachable)"

lemma sample_rows: "write_reachable sample_printers [sample_node] = Some [reachable_header]"
  by (simp add: write_reachable_def rows_by_def option_all_def sample_node_def node_entry_new_def)

lemma result_rows_witness:
  "write_reachable sample_printers [sample_node] = Some [reachable_header] \<and>
   length (write_unreachable sample_printers [sample_node]) = 2 \<and>
   list_all (\<lambda>row. length row = 7) (write_unreachable sample_printers [sample_node])"
  using result_rows [OF sample_rows] sample_rows
  by (auto simp: list_all_iff write_unreachable_def rows_by_def sample_node_def node_entry_new_def)

lemma sample_run_dir: "run_dir sample_settings = ''results/t_v0.1.0''"
proof -
  have "vi_version (st_version_info sample_settings) = ''0.1.0''"
    by (simp add: sample_built built_settings_def PKG_VERSION_def)
  then show ?thesis by (simp add: run_dir_def run_prefix_def path_join_def sample_result_settings suffix_def)
qed

lemma sample_published:
  "fst (write_snapshot rfc4648_crates sample_printers ''g'' ''m.tmp'' [sample_node] 0 sample_settings [] sample_meta
     empty_fs) = Returned ()"
proof -
  have d: "snapshots_dir sample_settings = ''results/t_v0.1.0/snapshots''"
    "temp_dir sample_settings ''g'' = ''results/t_v0.1.0/snapshots/.tmp-g''"
    "final_dir sample_settings ''g'' = ''results/t_v0.1.0/snapshots/g''"
    by (simp_all add: snapshots_dir_def temp_dir_def final_dir_def path_join_def sample_run_dir suffix_def)
  show ?thesis
    by (simp add: write_snapshot_def write_files_def prepare_snapshot_def publish_manifest_def d sample_rows
        sample_run_dir sample_result_settings result_files_def Let_def fs_then_def fs_return_def faulty_def
        next_fault_def create_dir_all_def create_dir_def write_new_def sync_file_def sync_dir_def read_file_def
        rename_dir_def rename_file_def sha256_file_def empty_fs_def fs_note_def manifest_name_def)
qed

lemma manifest_names_complete_snapshot_witness:
  "\<exists>s' hashes. write_snapshot rfc4648_crates sample_printers ''g'' ''m.tmp'' [sample_node] 0 sample_settings []
       sample_meta empty_fs = (Returned (), s') \<and>
     fs_files s' (run_dir sample_settings, manifest_name) \<noteq> None \<and>
     complete_snapshot rfc4648_crates sample_printers [sample_node] 0 sample_settings [] sample_meta
       (final_dir sample_settings ''g'') hashes s' \<and>
     fs_log s' = publish_order sample_settings ''g'' ''m.tmp'' @ [SyncedDir (run_dir sample_settings)]"
proof -
  obtain s' where w: "write_snapshot rfc4648_crates sample_printers ''g'' ''m.tmp'' [sample_node] 0 sample_settings []
      sample_meta empty_fs = (Returned (), s')"
    using sample_published by (metis prod.collapse)
  from manifest_names_complete_snapshot [OF w] w show ?thesis by (fastforce simp: manifest_name_def empty_fs_def)
qed

end
