(* ===== verification/Dns.thy ===== *)
theory Dns
  imports Output Crawl_Steps
begin

section \<open>DNS seeds (src/dns.rs) and seeding (seed_from_dns of src/main.rs)\<close>

text \<open>
  The hard-coded seeds, the addresses a seed resolves to and the host text of an address. The
  resolver of the system is a parameter: a function from the query to the addresses it returns or
  an error. A lookup takes no time of the model's clock.
\<close>

datatype ip_addr = V4 bytes | V6 bytes

type_synonym resolver = "string \<Rightarrow> io_error + ip_addr list"

definition SEEDS :: "string list" where
  "SEEDS =
     [''dnsseed.bluematt.me.'', ''seed.bitcoin.jonasschnelli.ch.'', ''seed.btc.petertodd.net.'',
      ''seed.bitcoin.sprovoost.nl.'', ''dnsseed.emzy.de.'', ''seed.bitcoin.wiz.biz.'',
      ''seed.mainnet.achownodes.xyz.'']"

definition MAINNET_PORT :: u16 where
  "MAINNET_PORT = 8333"

text \<open>\<open>BTreeSet<IpAddr>\<close> as the sorted list of its elements; IPv4 comes before IPv6, then the octets decide.\<close>

fun octets_of :: "ip_addr \<Rightarrow> bytes" where
  "octets_of (V4 bs) = bs"
| "octets_of (V6 bs) = bs"

definition ip_rank :: "ip_addr \<Rightarrow> nat list" where
  "ip_rank ip = (case ip of V4 _ \<Rightarrow> 0 | V6 _ \<Rightarrow> 1) # map unat (octets_of ip)"

fun ip_set_insert :: "ip_addr \<Rightarrow> ip_addr list \<Rightarrow> ip_addr list" where
  "ip_set_insert x [] = [x]"
| "ip_set_insert x (y # ys) =
     (if x = y then y # ys
      else if ip_rank x < ip_rank y then x # y # ys
      else y # ip_set_insert x ys)"

definition resolve_seed :: "resolver \<Rightarrow> string \<Rightarrow> ip_addr list" where
  "resolve_seed res seed =
     (let host = rev (dropWhile (\<lambda>c. c = CHR ''.'') (rev seed));
          query = host @ '':'' @ show_dec (unat MAINNET_PORT)
      in case res query of
           Inr ips \<Rightarrow> fold ip_set_insert ips []
         | Inl e \<Rightarrow> [])"

definition show_ipv4_octets :: "bytes \<Rightarrow> string" where
  "show_ipv4_octets bs = show_ipv4 (unat (bs ! 0)) (unat (bs ! 1)) (unat (bs ! 2)) (unat (bs ! 3))"

definition ip_to_host :: "ip_addr \<Rightarrow> string" where
  "ip_to_host ip =
     (case ip of
        V4 o4 \<Rightarrow> show_ipv4_octets o4
      | V6 o16 \<Rightarrow> if is_ipv4_mapped o16 then show_ipv4_octets (drop 12 o16) else show_ipv6 o16)"

subsection \<open>Seeding the crawl\<close>

definition seed_addr ::
  "crates \<Rightarrow> settings \<Rightarrow> int \<Rightarrow> ip_addr \<Rightarrow> crawler \<times> (addr_key \<times> network_type) list \<Rightarrow>
   crawler \<times> (addr_key \<times> network_type) list" where
  "seed_addr cr st now ip = (\<lambda>(c, addrs).
     let host = ip_to_host ip; net = classify cr host
     in if \<not> is_enabled st net then (c, addrs)
        else let key = \<lparr>ak_host = host, ak_port = MAINNET_PORT\<rparr>
             in (seed_key cr now key c, addrs @ [(key, net)]))"

definition seed_one_name ::
  "crates \<Rightarrow> settings \<Rightarrow> resolver \<Rightarrow> int \<Rightarrow> string \<Rightarrow> crawler \<times> seed_result list \<Rightarrow>
   crawler \<times> seed_result list" where
  "seed_one_name cr st res now seed = (\<lambda>(c, results).
     case fold (seed_addr cr st now) (resolve_seed res seed) (c, []) of
       (c, addrs) \<Rightarrow> (c, results @ [\<lparr>sr_seed = seed, sr_addrs = addrs\<rparr>]))"

definition seed_from_dns ::
  "crates \<Rightarrow> settings \<Rightarrow> resolver \<Rightarrow> int \<Rightarrow> crawler \<Rightarrow> crawler \<times> seed_result list" where
  "seed_from_dns cr st res now c = fold (seed_one_name cr st res now) SEEDS (c, [])"


subsection \<open>The set of resolved addresses\<close>

definition ip_ok :: "ip_addr \<Rightarrow> bool" where
  "ip_ok ip \<longleftrightarrow> length (octets_of ip) = (case ip of V4 _ \<Rightarrow> 4 | V6 _ \<Rightarrow> 16)"

lemma map_unat_inj: "map unat xs = map unat ys \<longleftrightarrow> xs = (ys :: bytes)"
  by (rule inj_map_eq_map) (simp add: inj_on_def unsigned_word_eqI)

lemma ip_rank_inj [simp]: "ip_rank x = ip_rank y \<longleftrightarrow> x = y"
  by (cases x; cases y) (simp_all add: ip_rank_def map_unat_inj)

lemma ip_set_insert_set [simp]: "set (ip_set_insert x ys) = insert x (set ys)"
  by (induction x ys rule: ip_set_insert.induct) auto

lemma ip_set_insert_sorted:
  "sorted_wrt (\<lambda>a b. ip_rank a < ip_rank b) ys \<Longrightarrow> sorted_wrt (\<lambda>a b. ip_rank a < ip_rank b) (ip_set_insert x ys)"
proof (induction x ys rule: ip_set_insert.induct)
  case (1 x)
  then show ?case by simp
next
  case (2 x y ys)
  moreover have "ip_rank y < ip_rank x" if "x \<noteq> y" "\<not> ip_rank x < ip_rank y"
    using that by (metis ip_rank_inj linorder_neqE)
  ultimately show ?case by auto
qed

text \<open>A seed gives each address of the answer once, in order, and nothing else.\<close>

lemma resolve_seed_set:
  "sorted_wrt (\<lambda>a b. ip_rank a < ip_rank b) (fold ip_set_insert ips ys) \<and>
   set (fold ip_set_insert ips ys) = set ips \<union> set ys"
  if "sorted_wrt (\<lambda>a b. ip_rank a < ip_rank b) ys"
  using that by (induction ips arbitrary: ys) (auto simp: ip_set_insert_sorted)

text \<open>What a resolver returns has the length of its family.\<close>

definition resolver_ok :: "resolver \<Rightarrow> bool" where
  "resolver_ok res \<longleftrightarrow> (\<forall>q ips. res q = Inr ips \<longrightarrow> list_all ip_ok ips)"

lemma resolve_seed_ok:
  assumes "resolver_ok res" "ip \<in> set (resolve_seed res seed)"
  shows "ip_ok ip"
proof -
  obtain q ips where "res q = Inr ips" "ip \<in> set (fold ip_set_insert ips [])"
    using assms(2) unfolding resolve_seed_def Let_def by (auto split: sum.splits intro: sym)
  then show ?thesis using resolve_seed_set [of "[]" ips] assms(1) by (auto simp: resolver_ok_def list_all_iff)
qed

lemma resolve_seed_sorted: "sorted_wrt (\<lambda>a b. ip_rank a < ip_rank b) (resolve_seed res seed)"
  using resolve_seed_set [of "[]"] by (auto simp: resolve_seed_def Let_def split: sum.splits)

subsection \<open>Hosts\<close>

lemma length4E:
  assumes "length bs = 4"
  obtains a b c d where "bs = [a, b, c, d]"
  using assms by (auto simp: numeral_eq_Suc length_Suc_conv)

lemma show_ipv4_octets_read:
  assumes "length bs = 4"
  shows "parse_ip (show_ipv4_octets bs) = Some bs" "classify cr (show_ipv4_octets bs) = Ipv4"
proof -
  obtain a b c d where bs: "bs = [a, b, c, d]" using assms by (rule length4E)
  have "unat x < 256" for x :: u8 using unat_u8_less by simp
  then show "parse_ip (show_ipv4_octets bs) = Some bs" "classify cr (show_ipv4_octets bs) = Ipv4"
    by (simp_all add: bs show_ipv4_octets_def parse_ip_show_ipv4 classify_ipv4)
qed

text \<open>The seeding of \<open>main\<close> is a run of seedings of single enabled addresses.\<close>

lemma seed_addr_seeded:
  "seeded cr st c \<Longrightarrow> seeded cr st (fst (seed_addr cr st now ip (c, addrs)))"
  by (auto simp: seed_addr_def Let_def intro: seed_one)

lemma seed_addrs_seeded:
  "seeded cr st (fst x) \<Longrightarrow> seeded cr st (fst (fold (seed_addr cr st now) ips x))"
proof (induction ips arbitrary: x)
  case Nil
  then show ?case by simp
next
  case (Cons ip ips)
  then show ?case using seed_addr_seeded [of cr st "fst x" now ip "snd x"] by simp
qed

lemma seed_names_seeded:
  "seeded cr st (fst x) \<Longrightarrow> seeded cr st (fst (fold (seed_one_name cr st res now) names x))"
proof (induction names arbitrary: x)
  case Nil
  then show ?case by simp
next
  case (Cons n names)
  have "seeded cr st (fst (seed_one_name cr st res now n x))"
    using seed_addrs_seeded [of cr st "(fst x, [])" now "resolve_seed res n"] Cons.prems
    by (auto simp: seed_one_name_def split: prod.splits)
  with Cons.IH show ?case by simp
qed

lemma seed_from_dns_seeded:
  "seeded cr st c \<Longrightarrow> seeded cr st (fst (seed_from_dns cr st res now c))"
  using seed_names_seeded [of cr st "(c, [])"] by (simp add: seed_from_dns_def)


section \<open>Properties of seeding\<close>

text \<open>C40: A seed gives each address its name resolves to, once and in order, and every one becomes a host that the
  TCP transport reads back as the address meant (the embedded one of an IPv4-mapped address) and that is
  classified as the network of that address: Ipv4 for four octets, Cjdns for sixteen in fc00::/8, Ipv6 for all others.\<close>

theorem dns_hosts_dialable:
  assumes "resolver_ok res" "ip \<in> set (resolve_seed res seed)"
  shows "sorted_wrt (\<lambda>a b. ip_rank a < ip_rank b) (resolve_seed res seed) \<and>
   (\<exists>q ips. res q = Inr ips \<and> set (resolve_seed res seed) = set ips) \<and>
   (\<exists>octets. parse_ip (ip_to_host ip) = Some octets \<and>
    octets = (if is_ipv4_mapped (octets_of ip) then drop 12 (octets_of ip) else octets_of ip) \<and>
    (length octets = 4 \<or> length octets = 16) \<and>
    network_transport (classify cr (ip_to_host ip)) = TransportIp \<and>
    classify cr (ip_to_host ip) = (if length octets = 4 then Ipv4 else if octets ! 0 = 0xfc then Cjdns else Ipv6))"
proof -
  have answer: "\<exists>q ips. res q = Inr ips \<and> set (resolve_seed res seed) = set ips"
  proof -
    let ?q = "rev (dropWhile (\<lambda>c. c = CHR ''.'') (rev seed)) @ '':'' @ show_dec (unat MAINNET_PORT)"
    obtain ips where r: "res ?q = Inr ips"
      using assms(2) by (cases "res ?q") (simp_all add: resolve_seed_def Let_def)
    then have "set (resolve_seed res seed) = set ips"
      using resolve_seed_set [of "[]" ips] by (simp add: resolve_seed_def Let_def)
    with r show ?thesis by blast
  qed
  have n4: "\<not> is_ipv4_mapped bs" if "length bs = 4" for bs
    using arg_cong [of _ _ length] that by (fastforce simp: is_ipv4_mapped_def)
  show ?thesis
  proof (cases ip)
    case (V4 o4)
    with resolve_seed_ok [OF assms] have "length o4 = 4" by (simp add: ip_ok_def)
    with V4 n4 show ?thesis
      using answer by (simp add: ip_to_host_def show_ipv4_octets_read resolve_seed_sorted)
  next
    case (V6 o16)
    with resolve_seed_ok [OF assms] have l: "length o16 = 16" by (simp add: ip_ok_def)
    show ?thesis
    proof (cases "is_ipv4_mapped o16")
      case True
      with V6 l answer show ?thesis by (simp add: ip_to_host_def show_ipv4_octets_read resolve_seed_sorted)
    next
      case False
      with V6 l answer show ?thesis
        by (simp add: ip_to_host_def parse_ip_show_ipv6 classify_ipv6 resolve_seed_sorted)
    qed
  qed
qed

lemma dns_hosts_dialable_witness:
  "\<exists>ips. resolve_seed (\<lambda>q. Inr [V4 [1, 2, 3, 4]]) ''seed.'' = ips \<and> V4 [1, 2, 3, 4] \<in> set ips \<and>
   parse_ip (ip_to_host (V4 [1, 2, 3, 4])) = Some [1, 2, 3, 4] \<and>
   classify rfc4648_crates (ip_to_host (V4 [1, 2, 3, 4])) = Ipv4"
proof -
  let ?res = "\<lambda>q. Inr [V4 [1, 2, 3, 4]]"
  have "resolver_ok ?res" "\<not> is_ipv4_mapped [1, 2, 3, 4]"
    by (simp_all add: resolver_ok_def ip_ok_def is_ipv4_mapped_def)
  moreover have m: "V4 [1, 2, 3, 4] \<in> set (resolve_seed ?res ''seed.'')" by (simp add: resolve_seed_def)
  ultimately show ?thesis
    using dns_hosts_dialable [of ?res "V4 [1, 2, 3, 4]" "''seed.''" rfc4648_crates] by auto
qed

end
