(* ===== verification/Preflight.thy ===== *)
theory Preflight
  imports Dns
begin

section \<open>Network preflight (src/preflight.rs)\<close>

text \<open>
  The probe of each network, the table of a dry run and the list of failures. The network, the
  resolver and the text of \<open>/proc/net/if_inet6\<close> are parameters; the clock passes from probe to
  probe. \<open>None\<close> is a panic, which only the slicing of a non-ASCII text can cause.
\<close>

subsection \<open>Results\<close>

datatype probe_result = ProbeReachable | ProbeUnreachable string | ProbeSkipped

definition probe_is_ok :: "probe_result \<Rightarrow> bool" where
  "probe_is_ok r \<longleftrightarrow> r = ProbeReachable"

definition probe_render :: "probe_result \<Rightarrow> string" where
  "probe_render r =
     (case r of
        ProbeReachable \<Rightarrow> ''reachable''
      | ProbeUnreachable why \<Rightarrow> ''unreachable ('' @ why @ '')''
      | ProbeSkipped \<Rightarrow> ''skipped'')"

record preflight_row =
  pr_network :: string
  pr_enabled :: bool
  pr_result :: probe_result

subsection \<open>Lines and words of a text\<close>

definition strip_cr :: "string \<Rightarrow> string" where
  "strip_cr l = (case rev l of c # r \<Rightarrow> if c = CHR 0x0D then rev r else l | [] \<Rightarrow> l)"

definition text_lines :: "string \<Rightarrow> string list" where
  "text_lines s =
     (let ps = split_on (CHR 0x0A) s
      in map strip_cr (butlast ps) @ (if last ps = [] then [] else [last ps]))"

fun until_white :: "string \<Rightarrow> string" where
  "until_white [] = []"
| "until_white (c # s) =
     (if list_ex (\<lambda>w. w \<noteq> [] \<and> prefix w (c # s)) white_space then [] else c # until_white s)"

definition first_word :: "string \<Rightarrow> string option" where
  "first_word s = (let t = strip_words white_space s in if t = [] then None else Some (until_white t))"

subsection \<open>The CJDNS probe\<close>

text \<open>\<open>u8::from_str_radix(s, 16)\<close>, which takes a leading plus sign.\<close>

definition parse_hex_u8 :: "string \<Rightarrow> nat option" where
  "parse_hex_u8 s =
     (let ds = (case s of [] \<Rightarrow> [] | c # cs \<Rightarrow> if c = CHR ''+'' then cs else s)
      in if ds = [] then None
         else case read_digits 16 0 ds of
           None \<Rightarrow> None
         | Some n \<Rightarrow> if n < 256 then Some n else None)"

text \<open>A slice panics when it cuts a character in two.\<close>

definition cuts_char :: "string \<Rightarrow> nat \<Rightarrow> bool" where
  "cuts_char s i \<longleftrightarrow> i < length s \<and> 128 \<le> (of_char (s ! i) :: nat) \<and> (of_char (s ! i) :: nat) < 192"

fun decode_hex_from :: "string \<Rightarrow> nat \<Rightarrow> nat \<Rightarrow> bytes option option" where
  "decode_hex_from s i 0 = Some (Some [])"
| "decode_hex_from s i (Suc n) =
     (if cuts_char s (2 * i) \<or> cuts_char s (2 * i + 2) then None
      else case parse_hex_u8 (take 2 (drop (2 * i) s)) of
        None \<Rightarrow> Some None
      | Some b \<Rightarrow> map_option (map_option (Cons (word_of_nat b))) (decode_hex_from s (Suc i) n))"

definition decode_hex16 :: "string \<Rightarrow> bytes option option" where
  "decode_hex16 s = (if length s \<noteq> 32 then Some None else decode_hex_from s 0 16)"

definition inet6_line :: "string \<Rightarrow> bytes list \<Rightarrow> bytes list option" where
  "inet6_line line out =
     (case first_word line of
        None \<Rightarrow> Some out
      | Some hex \<Rightarrow>
          if length hex = 32
          then (case decode_hex16 hex of
                  None \<Rightarrow> None
                | Some None \<Rightarrow> Some out
                | Some (Some bs) \<Rightarrow> Some (out @ [bs]))
          else Some out)"

fun inet6_lines :: "string list \<Rightarrow> bytes list \<Rightarrow> bytes list option" where
  "inet6_lines [] out = Some out"
| "inet6_lines (l # ls) out = Option.bind (inet6_line l out) (inet6_lines ls)"

definition local_ipv6_addrs :: "io_error + string \<Rightarrow> (io_error + bytes list) option" where
  "local_ipv6_addrs content =
     (case content of
        Inl e \<Rightarrow> Some (Inl e)
      | Inr text \<Rightarrow> map_option Inr (inet6_lines (text_lines text) []))"

definition probe_cjdns :: "io_error + string \<Rightarrow> probe_result option" where
  "probe_cjdns content =
     (case local_ipv6_addrs content of
        None \<Rightarrow> None
      | Some (Inr addrs) \<Rightarrow>
          Some (if list_ex (\<lambda>a. a ! 0 = 0xfc) addrs then ProbeReachable
                else ProbeUnreachable ''no cjdns interface'')
      | Some (Inl e) \<Rightarrow> Some (ProbeUnreachable ''no cjdns interface''))"

subsection \<open>The IP probes\<close>

definition is_v6 :: "ip_addr \<Rightarrow> bool" where
  "is_v6 ip = (case ip of V4 _ \<Rightarrow> False | V6 o16 \<Rightarrow> CHR '':'' \<in> set (show_ipv6 o16))"

text \<open>The inner and the outer loop: whether an address accepted, the number tried and the clock.\<close>

fun probe_ips :: "dialer \<Rightarrow> bool \<Rightarrow> nat \<Rightarrow> ip_addr list \<Rightarrow> nat \<Rightarrow> nat \<Rightarrow> bool \<times> nat \<times> nat" where
  "probe_ips net want_ipv6 connect_timeout [] tried now = (False, tried, now)"
| "probe_ips net want_ipv6 connect_timeout (ip # ips) tried now =
     (if is_v6 ip \<noteq> want_ipv6 then probe_ips net want_ipv6 connect_timeout ips tried now
      else case connect_tcp net (ip_to_host ip) MAINNET_PORT connect_timeout now of
        (Inr _, fin) \<Rightarrow> (True, tried + 1, fin)
      | (Inl _, fin) \<Rightarrow>
          if tried + 1 \<ge> 5 then (False, tried + 1, fin)
          else probe_ips net want_ipv6 connect_timeout ips (tried + 1) fin)"

fun probe_seeds :: "dialer \<Rightarrow> resolver \<Rightarrow> bool \<Rightarrow> nat \<Rightarrow> string list \<Rightarrow> nat \<Rightarrow> nat \<Rightarrow> bool \<times> nat \<times> nat" where
  "probe_seeds net res want_ipv6 connect_timeout [] tried now = (False, tried, now)"
| "probe_seeds net res want_ipv6 connect_timeout (seed # seeds) tried now =
     (if tried \<ge> 5 then (False, tried, now)
      else case probe_ips net want_ipv6 connect_timeout (resolve_seed res seed) tried now of
        (True, r) \<Rightarrow> (True, r)
      | (False, tried, now) \<Rightarrow> probe_seeds net res want_ipv6 connect_timeout seeds tried now)"

definition probe_ip :: "dialer \<Rightarrow> resolver \<Rightarrow> bool \<Rightarrow> nat \<Rightarrow> nat \<Rightarrow> probe_result \<times> nat" where
  "probe_ip net res want_ipv6 connect_timeout now =
     (case probe_seeds net res want_ipv6 connect_timeout SEEDS 0 now of
        (True, tried, fin) \<Rightarrow> (ProbeReachable, fin)
      | (False, tried, fin) \<Rightarrow>
          (ProbeUnreachable
             (if tried = 0 then ''no seed addresses resolved for this family''
              else ''no resolved node accepted a connection''), fin))"

subsection \<open>The table\<close>

definition ip_row :: "string \<Rightarrow> bool \<Rightarrow> dialer \<Rightarrow> resolver \<Rightarrow> bool \<Rightarrow> nat \<Rightarrow> nat \<Rightarrow> preflight_row \<times> nat" where
  "ip_row name enabled net res want_ipv6 connect_timeout now =
     (case (if enabled then probe_ip net res want_ipv6 connect_timeout now else (ProbeSkipped, now)) of
        (r, fin) \<Rightarrow> (\<lparr>pr_network = name, pr_enabled = enabled, pr_result = r\<rparr>, fin))"

definition proxy_row ::
  "string \<Rightarrow> bool \<Rightarrow> string \<Rightarrow> string \<Rightarrow> u16 \<Rightarrow> (nat \<Rightarrow> (io_error + tcp_stream) \<times> nat) \<Rightarrow> nat \<Rightarrow>
   preflight_row \<times> nat" where
  "proxy_row name enabled what host port probe now =
     (case (if enabled
            then (case probe now of
                    (Inr _, fin) \<Rightarrow> (ProbeReachable, fin)
                  | (Inl e, fin) \<Rightarrow>
                      (ProbeUnreachable (what @ '' '' @ host @ '':'' @ show_dec (unat port) @ '': '' @ err_text e), fin))
            else (ProbeSkipped, now)) of
        (r, fin) \<Rightarrow> (\<lparr>pr_network = name, pr_enabled = enabled, pr_result = r\<rparr>, fin))"

definition run_preflight ::
  "dialer \<Rightarrow> resolver \<Rightarrow> io_error + string \<Rightarrow> settings \<Rightarrow> nat \<Rightarrow> preflight_row list option \<times> nat" where
  "run_preflight net res inet6 st now =
     (let en = st_enabled_networks st; ts = ns_timeouts (st_node_settings st);
          ep = ns_endpoints (st_node_settings st);
          ms = \<lambda>t. 1000 * unat (to_connect t)
      in case ip_row ''ipv4'' (en_ipv4 en) net res False (ms (ts_ip ts)) now of (r4, t1) \<Rightarrow>
         case ip_row ''ipv6'' (en_ipv6 en) net res True (ms (ts_ip ts)) t1 of (r6, t2) \<Rightarrow>
         case proxy_row ''tor'' (en_tor en) ''SOCKS5 proxy'' (tor_proxy_host ep) (tor_proxy_port ep)
             (socks5_probe net (tor_proxy_host ep) (tor_proxy_port ep) (ms (ts_tor ts))) t2 of (rt, t3) \<Rightarrow>
         case proxy_row ''i2p'' (en_i2p en) ''SAM router'' (i2p_sam_host ep) (i2p_sam_port ep)
             (sam_probe net (i2p_sam_host ep) (i2p_sam_port ep) (ms (ts_i2p ts))) t3 of (ri, t4) \<Rightarrow>
         (map_option (\<lambda>rc. [r4, r6, rt, ri, \<lparr>pr_network = ''cjdns'', pr_enabled = en_cjdns en, pr_result = rc\<rparr>])
            (if en_cjdns en then probe_cjdns inet6 else Some ProbeSkipped), t4))"

definition pad_right :: "nat \<Rightarrow> string \<Rightarrow> string" where
  "pad_right n s = s @ replicate (n - length s) (CHR '' '')"

definition print_row :: "preflight_row \<Rightarrow> string list \<times> bool \<Rightarrow> string list \<times> bool" where
  "print_row row = (\<lambda>(out, all_ok).
     (out @ [pad_right 8 (pr_network row) @ '' '' @ pad_right 8 (if pr_enabled row then ''yes'' else ''no'') @
         '' '' @ probe_render (pr_result row)],
      if pr_enabled row \<and> \<not> probe_is_ok (pr_result row) then False else all_ok))"

definition print_table :: "preflight_row list \<Rightarrow> string list \<times> bool" where
  "print_table rows = fold print_row rows ([''Network  Enabled  Probe result''], True)"

definition any_enabled_failed :: "preflight_row list \<Rightarrow> string list" where
  "any_enabled_failed rows =
     map (\<lambda>r. pr_network r @ '': '' @ probe_render (pr_result r))
       (filter (\<lambda>r. pr_enabled r \<and> \<not> probe_is_ok (pr_result r)) rows)"


section \<open>Properties of the preflight\<close>

subsection \<open>The IP probe against its specification\<close>

text \<open>The specification: the first five addresses of the family, over all seeds, are dialed in order.\<close>

definition family_candidates :: "resolver \<Rightarrow> bool \<Rightarrow> string list \<Rightarrow> ip_addr list" where
  "family_candidates res want_ipv6 seeds =
     filter (\<lambda>ip. is_v6 ip = want_ipv6) (concat (map (resolve_seed res) seeds))"

fun dial_in_order :: "dialer \<Rightarrow> nat \<Rightarrow> ip_addr list \<Rightarrow> nat \<Rightarrow> bool \<times> nat" where
  "dial_in_order net connect_timeout [] now = (False, now)"
| "dial_in_order net connect_timeout (ip # ips) now =
     (case connect_tcp net (ip_to_host ip) MAINNET_PORT connect_timeout now of
        (Inr _, fin) \<Rightarrow> (True, fin)
      | (Inl _, fin) \<Rightarrow> dial_in_order net connect_timeout ips fin)"

lemma dial_in_order_append:
  "dial_in_order net t (xs @ ys) now =
     (case dial_in_order net t xs now of (True, fin) \<Rightarrow> (True, fin) | (False, fin) \<Rightarrow> dial_in_order net t ys fin)"
  by (induction xs arbitrary: now) (auto split: prod.splits sum.splits)

lemma probe_ips_dial:
  assumes "tried < 5"
  shows "case probe_ips net w t ips tried now of (found, tried', fin) \<Rightarrow>
    dial_in_order net t (take (5 - tried) (filter (\<lambda>ip. is_v6 ip = w) ips)) now = (found, fin) \<and>
    (\<not> found \<longrightarrow> tried' = min 5 (tried + length (filter (\<lambda>ip. is_v6 ip = w) ips)))"
  using assms
proof (induction ips arbitrary: tried now)
  case Nil
  then show ?case by simp
next
  case (Cons ip ips)
  obtain r fin where c: "connect_tcp net (ip_to_host ip) MAINNET_PORT t now = (r, fin)" by fastforce
  show ?case
  proof (cases "is_v6 ip = w")
    case False
    with Cons show ?thesis by simp
  next
    case True
    have five: "5 - tried = Suc (5 - Suc tried)" using Cons.prems by simp
    show ?thesis
    proof (cases r)
      case (Inr s)
      with True c show ?thesis by (simp add: five)
    next
      case (Inl e)
      show ?thesis
      proof (cases "tried + 1 \<ge> 5")
        case True
        with Cons.prems have "5 - Suc tried = 0" "tried = 4" by simp_all
        with \<open>is_v6 ip = w\<close> c Inl show ?thesis by (simp add: five)
      next
        case False
        with Cons.IH [where tried = "tried + 1" and now = fin] \<open>is_v6 ip = w\<close> c Inl show ?thesis by (simp add: five split: prod.splits)
      qed
    qed
  qed
qed

lemma probe_seeds_dial:
  assumes "tried \<le> 5"
  shows "case probe_seeds net res w t seeds tried now of (found, tried', fin) \<Rightarrow>
    dial_in_order net t (take (5 - tried) (family_candidates res w seeds)) now = (found, fin) \<and>
    (\<not> found \<longrightarrow> tried' = min 5 (tried + length (family_candidates res w seeds)))"
  using assms
proof (induction seeds arbitrary: tried now)
  case Nil
  then show ?case by (simp add: family_candidates_def)
next
  case (Cons seed seeds)
  let ?ips = "filter (\<lambda>ip. is_v6 ip = w) (resolve_seed res seed)"
  have fc: "family_candidates res w (seed # seeds) = ?ips @ family_candidates res w seeds"
    by (simp add: family_candidates_def)
  show ?case
  proof (cases "tried \<ge> 5")
    case True
    with Cons.prems show ?thesis by simp
  next
    case False
    obtain found tried1 fin where p: "probe_ips net w t (resolve_seed res seed) tried now = (found, tried1, fin)"
      by (metis prod_cases3)
    with probe_ips_dial [where tried = tried and net = net and w = w and t = t and ips = "resolve_seed res seed" and now = now] False
    have d: "dial_in_order net t (take (5 - tried) ?ips) now = (found, fin)"
      "\<not> found \<longrightarrow> tried1 = min 5 (tried + length ?ips)" by simp_all
    have tk: "take (5 - tried) (?ips @ ys) = take (5 - tried) ?ips @ take (5 - tried - length ?ips) ys" for ys
      by simp
    show ?thesis
    proof (cases found)
      case True
      with p d False show ?thesis by (simp add: fc tk dial_in_order_append)
    next
      case nf: False
      with d(2) have t1: "tried1 = min 5 (tried + length ?ips)" by simp
      then have "5 - tried1 = 5 - tried - length ?ips" "tried1 \<le> 5" by simp_all
      with Cons.IH [where tried = tried1 and now = fin] p d False nf t1 show ?thesis
        by (auto simp: fc tk dial_in_order_append split: prod.splits)
    qed
  qed
qed

text \<open>C39: The IPv4 and the IPv6 probe dial the first five resolved addresses of their family, over all seeds in
  order, and report the network as reachable exactly when one of them accepts; otherwise the reason says
  whether there was any address to try.\<close>

theorem probe_ip_dials_five:
  "probe_ip net res w t now =
     (case dial_in_order net t (take 5 (family_candidates res w SEEDS)) now of (found, fin) \<Rightarrow>
        (if found then ProbeReachable
         else ProbeUnreachable
           (if family_candidates res w SEEDS = [] then ''no seed addresses resolved for this family''
            else ''no resolved node accepted a connection''), fin))"
  using probe_seeds_dial [where tried = 0 and net = net and res = res and w = w and t = t and seeds = SEEDS and now = now]
  by (auto simp: probe_ip_def min_def split: prod.splits bool.splits if_splits)

subsection \<open>The verdict\<close>

lemma print_row_fold:
  "snd (fold print_row rows (out, ok)) \<longleftrightarrow> ok \<and> any_enabled_failed rows = []"
  by (induction rows arbitrary: out ok) (auto simp: print_row_def any_enabled_failed_def)

lemma print_table_ok: "snd (print_table rows) \<longleftrightarrow> any_enabled_failed rows = []"
  by (simp add: print_table_def print_row_fold)

text \<open>The address of an interface as the kernel prints it is read back.\<close>

lemma hex_pair: "parse_hex_u8 [digit_char (unat b div 16), digit_char (unat b mod 16)] = Some (unat (b :: u8))"
proof -
  have b: "unat b div 16 < 16" "unat b mod 16 < 16" using unat_u8_less [of b] by (simp_all add: less_mult_imp_div_less)
  have "digit_char d \<noteq> CHR ''+''" if "d < 16" for d
    using digit_of_digit_char [of 16 d] that by (auto simp: digit_of_def)
  with b have "digit_char (unat b div 16) \<noteq> CHR ''+''" by blast
  with b show ?thesis using unat_u8_less [of b]
    by (simp add: parse_hex_u8_def digit_of_digit_char)
qed

lemma hex_of_ascii: "c \<in> set (hex_of bs) \<Longrightarrow> (of_char c :: nat) < 128"
proof (induction bs)
  case Nil
  then show ?case by (simp add: hex_of_def)
next
  case (Cons b bs)
  have d: "(of_char (digit_char n) :: nat) < 128" if "n < 16" for n
    using that by (auto simp: digit_char_def of_char_of)
  have "unat b div 16 < 16" "unat b mod 16 < 16" using unat_u8_less [of b] by (simp_all add: less_mult_imp_div_less)
  with d [of "unat b div 16"] d [of "unat b mod 16"] Cons show ?case by (auto simp: hex_of_Cons)
qed

lemma hex_of_drop: "drop (2 * i) (hex_of bs) = hex_of (drop i bs)"
proof (induction bs arbitrary: i)
  case Nil
  then show ?case by (simp add: hex_of_def)
next
  case (Cons b bs)
  then show ?case by (cases i) (simp_all add: hex_of_Cons)
qed

lemma hex_of_no_cut: "\<not> cuts_char (hex_of bs) i"
  using hex_of_ascii [of "hex_of bs ! i" bs] by (auto simp: cuts_char_def)

lemma decode_hex_from_hex_of:
  "i + n = length bs \<Longrightarrow> decode_hex_from (hex_of bs) i n = Some (Some (drop i bs))"
proof (induction n arbitrary: i)
  case 0
  then show ?case by simp
next
  case (Suc n)
  then have d: "drop i bs = bs ! i # drop (Suc i) bs" by (simp add: Cons_nth_drop_Suc)
  have "take 2 (drop (2 * i) (hex_of bs)) = [digit_char (unat (bs ! i) div 16), digit_char (unat (bs ! i) mod 16)]"
    by (simp add: hex_of_drop d hex_of_Cons)
  then have "parse_hex_u8 (take 2 (drop (2 * i) (hex_of bs))) = Some (unat (bs ! i))" by (simp add: hex_pair)
  with Suc d show ?case by (simp add: hex_of_no_cut)
qed

lemma decode_hex16_hex_of: "length bs = 16 \<Longrightarrow> decode_hex16 (hex_of bs) = Some (Some bs)"
proof -
  assume l: "length bs = 16"
  with decode_hex_from_hex_of [of 0 16 bs] show ?thesis by (simp add: decode_hex16_def)
qed

end
