(* ===== verification/Main_Program.thy ===== *)
theory Main_Program
  imports Preflight Observation
begin

section \<open>The crawler binary (src/main.rs, src/logging.rs)\<close>

text \<open>
  \<open>main\<close> in three parts: what happens before the crawl (settings, run directory, preflight, log,
  seeds), the crawl together with the checkpoint task, and what follows it (flush, result files,
  exit code). The world is a parameter: the network, the resolver, the interface file, the clock and
  the faults of the log. A panic is \<open>None\<close> in place of an exit code.
\<close>

subsection \<open>Before the crawl\<close>

datatype exit_code = ExitSuccess | ExitFailure | ExitConfigError

definition EXIT_CONFIG_ERROR :: u8 where
  "EXIT_CONFIG_ERROR = 2"

text \<open>\<open>ExitCode::SUCCESS\<close> and \<open>FAILURE\<close> are 0 and 1.\<close>

fun exit_number :: "exit_code \<Rightarrow> u8" where
  "exit_number ExitSuccess = 0"
| "exit_number ExitFailure = 1"
| "exit_number ExitConfigError = EXIT_CONFIG_ERROR"

record world =
  wd_net :: dialer
  wd_resolver :: resolver
  wd_inet6 :: "io_error + string"
  wd_now_text :: string
  wd_now :: int
  wd_log_faults :: "(nat \<times> io_error) option list"

definition create_run_dir :: "settings \<Rightarrow> fs \<Rightarrow> unit fs_result" where
  "create_run_dir st =
     fs_then (create_dir_all (rs_path (st_result_settings st))) (\<lambda>_. create_dir (run_dir st))"

text \<open>The debug log is optional: without it the program goes on. The result says whether there is one.\<close>

definition logging_init :: "settings \<Rightarrow> fs \<Rightarrow> bool \<times> fs" where
  "logging_init st s =
     (if st_store_debug_log st \<and> \<not> st_dry_run st
      then (case create_file (run_dir st) ''debug_log.txt'' s of
              (Inr _, s) \<Rightarrow> (True, s)
            | (Inl e, s) \<Rightarrow> (False, s))
      else (False, s))"

definition preflight_gate :: "settings \<Rightarrow> preflight_row list \<Rightarrow> exit_code option" where
  "preflight_gate st rows =
     (if st_dry_run st then Some (if snd (print_table rows) then ExitSuccess else ExitConfigError)
      else if any_enabled_failed rows \<noteq> [] \<and> st_strict_networks st then Some ExitConfigError
      else None)"

definition open_addr_log :: "(nat \<times> io_error) option list \<Rightarrow> settings \<Rightarrow> fs \<Rightarrow> addr_log option fs_result" where
  "open_addr_log faults st =
     (if st_record_addr_responses st
      then fs_then (write_new (run_dir st) (rs_addr_responses (st_result_settings st)) [])
             (\<lambda>_. fs_return (Some (addr_log_create faults)))
      else fs_return None)"

type_synonym started = "settings \<times> crawler \<times> seed_result list"

text \<open>The preflight, after the delay the settings ask for.\<close>

definition start_rows :: "world \<Rightarrow> settings \<Rightarrow> preflight_row list option" where
  "start_rows w st =
     fst (run_preflight (wd_net w) (wd_resolver w) (wd_inet6 w) st (1000 * unat (st_delay_start st)))"

definition async_start :: "crates \<Rightarrow> world \<Rightarrow> settings \<Rightarrow> fs \<Rightarrow> (exit_code + started) option \<times> fs" where
  "async_start cr w st s =
     (case start_rows w st of
        None \<Rightarrow> (None, s)
      | Some rows \<Rightarrow>
          (case preflight_gate st rows of
             Some code \<Rightarrow> (Some (Inl code), s)
           | None \<Rightarrow>
               (case open_addr_log (wd_log_faults w) st s of
                  (Inl e, s) \<Rightarrow> (Some (Inl ExitFailure), s)
                | (Inr log, s) \<Rightarrow>
                    (case seed_from_dns cr st (wd_resolver w) (wd_now w)
                        (crawler_new (with_limit (st_max_addresses st)) st log) of
                       (c, seeds) \<Rightarrow> (Some (Inr (st, c, seeds)), s)))))"

definition main_start :: "crates \<Rightarrow> world \<Rightarrow> cli \<Rightarrow> fs \<Rightarrow> (exit_code + started) option \<times> fs" where
  "main_start cr w a s =
     (case cli_into_settings (wd_now_text w) a of
        Inl e \<Rightarrow> (Some (Inl ExitConfigError), s)
      | Inr st \<Rightarrow>
          (case (if st_dry_run st then (Inr (), s) else create_run_dir st s) of
             (Inl e, s) \<Rightarrow> (Some (Inl ExitConfigError), s)
           | (Inr _, s) \<Rightarrow> async_start cr w st (snd (logging_init st s))))"

subsection \<open>Checkpoints\<close>

text \<open>
  Flushing the log, if there is one: whether that succeeded and the id of the last event that is on
  disk. A failure marks the output as failed.
\<close>

definition flush_log :: "crawler \<Rightarrow> (bool \<times> u64 option) \<times> crawler" where
  "flush_log c =
     (case cw_addr_log c of
        None \<Rightarrow> ((True, None), c)
      | Some log \<Rightarrow>
          (case writer_flush log of
             (Inr i, log) \<Rightarrow> ((True, Some i), c\<lparr>cw_addr_log := Some log\<rparr>)
           | (Inl e, log) \<Rightarrow> ((False, None), mark_output_failed (c\<lparr>cw_addr_log := Some log\<rparr>))))"

text \<open>
  The checkpoint task waits for its next tick, reads the counters, takes the barrier, which it gets when
  no worker is inside, flushes the log, copies the entries one after another, drops the barrier and writes
  the files. An iteration over the store meets each entry once that is there from its start to
  its end; one that is added meanwhile it may meet. The task ends when it is told to stop while it waits,
  or when the log cannot be flushed. \<open>gen\<close> and \<open>tmp\<close> are names made of the time and the process id.
\<close>

datatype checkpoint =
  CpOff
| CpWaiting
| CpTicked int usize
| CpLocked int usize
| CpCopying int usize "u64 option" "addr_key list" "(addr_key \<times> node_entry) list"
| CpWriting "(addr_key \<times> node_entry) list" usize snapshot_meta
| CpStopped

definition spawn_checkpoint :: "settings \<Rightarrow> checkpoint" where
  "spawn_checkpoint st = (if st_checkpoint_interval st \<le> 0 then CpOff else CpWaiting)"

text \<open>The barrier is held.\<close>

fun holds_barrier :: "checkpoint \<Rightarrow> bool" where
  "holds_barrier (CpLocked runtime processed) \<longleftrightarrow> True"
| "holds_barrier (CpCopying runtime processed durable ks copied) \<longleftrightarrow> True"
| "holds_barrier _ \<longleftrightarrow> False"

definition checkpoint_flush_log :: "int \<Rightarrow> usize \<Rightarrow> crawler \<Rightarrow> checkpoint \<times> crawler" where
  "checkpoint_flush_log runtime processed c =
     (case flush_log c of
        ((True, durable), c) \<Rightarrow> (CpCopying runtime processed durable (map fst (snapshot (cw_store c))) [], c)
      | ((False, _), c) \<Rightarrow> (CpStopped, c))"

definition checkpoint_meta :: "int \<Rightarrow> usize \<Rightarrow> u64 option \<Rightarrow> snapshot_meta" where
  "checkpoint_meta runtime processed durable =
     \<lparr>sm_runtime_seconds = runtime, sm_num_processed = processed, sm_durable_addr_event_id = durable,
      sm_consistent = False, sm_run_complete = False\<rparr>"

definition names_ok :: "string \<Rightarrow> string \<Rightarrow> bool" where
  "names_ok gen tmp \<longleftrightarrow> gen \<noteq> [] \<and> \<not> prefix ''/'' gen \<and> tmp \<noteq> manifest_name"

inductive checkpoint_step ::
  "crates \<Rightarrow> printers \<Rightarrow> settings \<Rightarrow> seed_result list \<Rightarrow> phase list \<Rightarrow>
   checkpoint \<times> crawler \<times> fs \<Rightarrow> checkpoint \<times> crawler \<times> fs \<Rightarrow> bool"
  for cr :: crates and pr :: printers and st :: settings and seeds :: "seed_result list" and phs :: "phase list" where
  cp_tick: "checkpoint_step cr pr st seeds phs (CpWaiting, c, s) (CpTicked runtime (cw_num_processed c), c, s)"
| cp_lock: "no_guard phs \<Longrightarrow>
    checkpoint_step cr pr st seeds phs (CpTicked runtime processed, c, s) (CpLocked runtime processed, c, s)"
| cp_flush: "checkpoint_flush_log runtime processed c = (cp, c') \<Longrightarrow>
    checkpoint_step cr pr st seeds phs (CpLocked runtime processed, c, s) (cp, c', s)"
| cp_copy: "lookup (cw_store c) k = Some e \<Longrightarrow> k \<notin> fst ` set copied \<Longrightarrow>
    checkpoint_step cr pr st seeds phs (CpCopying runtime processed durable ks copied, c, s)
      (CpCopying runtime processed durable ks (copied @ [(k, e)]), c, s)"
| cp_copied: "set ks \<subseteq> fst ` set copied \<Longrightarrow>
    checkpoint_step cr pr st seeds phs (CpCopying runtime processed durable ks copied, c, s)
      (CpWriting copied (ns_budget_rejected (cw_store c)) (checkpoint_meta runtime processed durable), c, s)"
| cp_write: "names_ok gen tmp \<Longrightarrow> write_snapshot cr pr gen tmp snap rejected st seeds meta s = (r, s') \<Longrightarrow>
    checkpoint_step cr pr st seeds phs (CpWriting snap rejected meta, c, s) (CpWaiting, c, s')"
| cp_stop: "checkpoint_step cr pr st seeds phs (CpWaiting, c, s) (CpStopped, c, s)"

subsection \<open>The crawl and its checkpoints\<close>

type_synonym main_state = "checkpoint \<times> observed \<times> fs"

inductive main_step :: "crates \<Rightarrow> printers \<Rightarrow> settings \<Rightarrow> seed_result list \<Rightarrow> main_state \<Rightarrow> main_state \<Rightarrow> bool"
  for cr :: crates and pr :: printers and st :: settings and seeds :: "seed_result list" where
  main_crawl: "observed_step cr st (holds_barrier cp) x y \<Longrightarrow> main_step cr pr st seeds (cp, x, s) (cp, y, s)"
| main_checkpoint: "checkpoint_step cr pr st seeds phs (cp, c, s) (cp', c', s') \<Longrightarrow>
    main_step cr pr st seeds (cp, ((c, ws), phs, h), s) (cp', ((c', ws), phs, h), s')"

text \<open>Nobody has observed anything when the workers start.\<close>

definition main_begin :: "settings \<Rightarrow> crawler \<Rightarrow> fs \<Rightarrow> main_state" where
  "main_begin st c0 s0 =
     (spawn_checkpoint st,
      ((run_start c0, spawn_workers st), replicate (length (spawn_workers st)) Outside, []), s0)"

inductive main_reach ::
  "crates \<Rightarrow> printers \<Rightarrow> settings \<Rightarrow> seed_result list \<Rightarrow> crawler \<Rightarrow> fs \<Rightarrow> main_state \<Rightarrow> bool"
  for cr :: crates and pr :: printers and st :: settings and seeds :: "seed_result list"
    and c0 :: crawler and s0 :: fs where
  main_init: "main_reach cr pr st seeds c0 s0 (main_begin st c0 s0)"
| main_next: "main_reach cr pr st seeds c0 s0 x \<Longrightarrow> main_step cr pr st seeds x y \<Longrightarrow>
    main_reach cr pr st seeds c0 s0 y"

text \<open>\<open>run\<close> returns when all workers have returned; the checkpoint task has then been stopped and joined.\<close>

definition run_over :: "checkpoint \<Rightarrow> (transport \<times> pc) list \<Rightarrow> bool" where
  "run_over cp ws \<longleftrightarrow> (\<forall>(t, p) \<in> set ws. p = Exited) \<and> (cp = CpOff \<or> cp = CpStopped)"

subsection \<open>After the crawl\<close>

definition final_meta :: "int \<Rightarrow> crawler \<Rightarrow> bool \<Rightarrow> u64 option \<Rightarrow> bool \<Rightarrow> snapshot_meta" where
  "final_meta runtime c flushed durable crawl_ok =
     \<lparr>sm_runtime_seconds = runtime, sm_num_processed = cw_num_processed c, sm_durable_addr_event_id = durable,
      sm_consistent = True, sm_run_complete = crawl_ok \<and> flushed \<and> \<not> terminated_early c\<rparr>"

definition main_end ::
  "crates \<Rightarrow> printers \<Rightarrow> string \<Rightarrow> string \<Rightarrow> settings \<Rightarrow> seed_result list \<Rightarrow> int \<Rightarrow> crawler \<Rightarrow> fs \<Rightarrow>
   exit_code option \<times> crawler \<times> fs" where
  "main_end cr pr gen tmp st seeds runtime c0 s0 =
     (let crawl_ok = (run_result c0 = Inr ())
      in case flush_log c0 of
           ((flushed, durable), c) \<Rightarrow>
             (case write_all_output cr pr gen tmp (cw_store c) st seeds (final_meta runtime c flushed durable crawl_ok) s0 of
                (Panicked _, s) \<Rightarrow> (None, c, s)
              | (Failed e, s) \<Rightarrow> (Some ExitFailure, c, s)
              | (Returned _, s) \<Rightarrow>
                  (Some (if \<not> crawl_ok then ExitFailure else if \<not> flushed then ExitFailure else ExitSuccess), c, s)))"


section \<open>Properties of the crawler binary\<close>

subsection \<open>The crawl within the program\<close>

lemma flush_log_side:
  assumes "flush_log c = ((flushed, durable), c')"
  shows "\<exists>log. c' = side_update (cw_sam c) log (\<not> flushed) c"
    and "flushed \<longrightarrow> (\<forall>log. cw_addr_log c' = Some log \<longrightarrow> lg_synced log = length (lg_written log))"
proof -
  have "c' = side_update (cw_sam c) (cw_addr_log c') (\<not> flushed) c \<and>
    (flushed \<longrightarrow> (\<forall>log. cw_addr_log c' = Some log \<longrightarrow> lg_synced log = length (lg_written log)))"
  proof (cases "cw_addr_log c")
    case None
    with assms show ?thesis by (auto simp: flush_log_def side_update_def)
  next
    case (Some log)
    obtain r log' where w: "writer_flush log = (r, log')" by fastforce
    show ?thesis
    proof (cases r)
      case (Inl e)
      with Some w assms show ?thesis by (auto simp: flush_log_def side_update_def mark_output_failed_def)
    next
      case (Inr i)
      have "lg_synced log' = length (lg_written log')"
        using w Inr by (auto simp: writer_flush_def split: if_splits list.splits option.splits)
      with Some w assms Inr show ?thesis by (auto simp: flush_log_def side_update_def)
    qed
  qed
  then show "\<exists>log. c' = side_update (cw_sam c) log (\<not> flushed) c"
    "flushed \<longrightarrow> (\<forall>log. cw_addr_log c' = Some log \<longrightarrow> lg_synced log = length (lg_written log))" by blast+
qed

lemma checkpoint_is_crawl_step:
  assumes "checkpoint_step cr pr st seeds phs (cp, c, s) (cp', c', s')"
  shows "c' = c \<or> crawl_step cr st (c, ws) (c', ws)"
  using assms
proof cases
  case (cp_flush runtime processed)
  obtain flushed durable c1 where f: "flush_log c = ((flushed, durable), c1)" by (metis prod.collapse)
  with cp_flush have "c' = c1" by (cases flushed) (auto simp: checkpoint_flush_log_def)
  moreover obtain log where "c1 = side_update (cw_sam c) log (\<not> flushed) c" using flush_log_side(1) [OF f] by blast
  ultimately show ?thesis using checkpoint_flush by metis
qed simp_all

text \<open>The program refines the crawl: seen without checkpoints and files, its states are states of a crawl.\<close>

definition crawl_of :: "main_state \<Rightarrow> crawler \<times> (transport \<times> pc) list" where
  "crawl_of = (\<lambda>(cp, x, s). fst x)"

interpretation main_runs: run_system
  "\<lambda>x. seeded cr st c0 \<and> x = main_begin st c0 s0"
  "main_step cr pr st seeds" "\<lambda>x. seeded cr st c0 \<and> main_reach cr pr st seeds c0 s0 x"
  for cr pr st seeds c0 s0
proof
  fix s s' P
  let ?start = "\<lambda>x. seeded cr st c0 \<and> x = main_begin st c0 s0"
  let ?reach = "\<lambda>x. seeded cr st c0 \<and> main_reach cr pr st seeds c0 s0 x"
  show "?start s \<Longrightarrow> ?reach s" by (auto intro: main_init)
  show "?reach s \<Longrightarrow> main_step cr pr st seeds s s' \<Longrightarrow> ?reach s'" by (auto intro: main_next)
  show "P s" if r: "?reach s" and p: "\<And>s. ?start s \<Longrightarrow> P s"
    "\<And>s s'. ?reach s \<Longrightarrow> P s \<Longrightarrow> main_step cr pr st seeds s s' \<Longrightarrow> P s'"
    using conjunct2 [OF r]
  proof induction
    case main_init
    show ?case using r by (intro p(1)) simp
  next
    case (main_next x y)
    then show ?case using r by (intro p(2) [of x y]) simp_all
  qed
qed

interpretation main_crawls: simulation
  "\<lambda>x. seeded cr st c0 \<and> x = main_begin st c0 s0"
  "main_step cr pr st seeds" "\<lambda>x. seeded cr st c0 \<and> main_reach cr pr st seeds c0 s0 x"
  "crawl_start cr st" "crawl_step cr st" "crawl_reach cr st" crawl_of
  for cr pr st seeds c0 s0
proof
  show "crawl_start cr st (crawl_of x)" if "seeded cr st c0 \<and> x = main_begin st c0 s0" for x
    using that by (auto simp: crawl_start_def crawl_of_def main_begin_def)
  show "(crawl_step cr st)\<^sup>*\<^sup>* (crawl_of x) (crawl_of y)" if "main_step cr pr st seeds x y" for x y
    using that
  proof cases
    case (main_crawl cp x y s)
    then show ?thesis
      using observed_step_crawl [of cr st "holds_barrier cp" "fst x" "fst (snd x)" "snd (snd x)" "fst y"
          "fst (snd y)" "snd (snd y)"]
      by (simp add: crawl_of_def)
  next
    case (main_checkpoint phs cp c s cp' c' s' ws h)
    from checkpoint_is_crawl_step [OF main_checkpoint(3), of ws] main_checkpoint(1,2)
    show ?thesis by (auto simp: crawl_of_def)
  qed
qed

lemma main_reach_crawl:
  "main_reach cr pr st seeds c0 s0 (cp, x, s) \<Longrightarrow> seeded cr st c0 \<Longrightarrow> crawl_reach cr st (fst x)"
  using main_crawls.reach_matched [of cr st c0 pr seeds s0 "(cp, x, s)"] by (simp add: crawl_of_def)


subsection \<open>Nothing is written before the checks\<close>

lemma logging_init_dirs: "fs_dirs (snd (logging_init st s)) = fs_dirs s"
  using next_fault_fields(1) [of s]
  by (cases "next_fault s") (auto simp: logging_init_def create_file_def faulty_def split: option.splits)

lemma create_run_dir_fresh:
  assumes "create_run_dir st s = (Inr u, s')"
  shows "run_dir st \<notin> set (fs_dirs s)"
proof -
  from assms obtain v s1 where 1: "create_dir_all (rs_path (st_result_settings st)) s = (Inr v, s1)"
    and 2: "create_dir (run_dir st) s1 = (Inr u, s')"
    by (auto simp: create_run_dir_def fs_then_Inr)
  have "set (fs_dirs s) \<subseteq> set (fs_dirs s1)"
    using faulty_Inr [OF 1 [unfolded create_dir_all_def]] next_fault_fields(1) [of s] by (auto split: if_splits)
  moreover have "run_dir st \<notin> set (fs_dirs s1)"
    using faulty_Inr [OF 2 [unfolded create_dir_def]] next_fault_fields(1) [of s1] by (auto split: if_splits)
  ultimately show ?thesis by blast
qed

lemma async_start_dry:
  assumes "st_dry_run st" "async_start cr w st s = (r, s')"
  shows "s' = s \<and> (\<forall>x. r \<noteq> Some (Inr x))"
  using assms by (auto simp: async_start_def preflight_gate_def split: option.splits)

lemma async_start_goes_on:
  assumes "async_start cr w st s = (Some (Inr (st', c, seeds)), s')"
  shows "st' = st" "\<not> st_dry_run st" "seeded cr st c"
    "\<exists>rows. start_rows w st = Some rows \<and> (st_strict_networks st \<longrightarrow> any_enabled_failed rows = [])"
proof -
  obtain rows where r: "start_rows w st = Some rows"
    using assms by (cases "start_rows w st") (simp_all add: async_start_def)
  have g: "preflight_gate st rows = None"
    using assms r by (cases "preflight_gate st rows") (simp_all add: async_start_def)
  obtain x s1 where o: "open_addr_log (wd_log_faults w) st s = (x, s1)" by fastforce
  then obtain log where x: "x = Inr log" using assms r g by (cases x) (simp_all add: async_start_def)
  obtain c1 seeds1 where
    sd: "seed_from_dns cr st (wd_resolver w) (wd_now w) (crawler_new (with_limit (st_max_addresses st)) st log) = (c1, seeds1)"
    by fastforce
  have eqs: "st' = st" "c1 = c" using assms r g o x sd by (simp_all add: async_start_def)
  show "st' = st" by (rule eqs)
  from g show "\<not> st_dry_run st" by (simp add: preflight_gate_def split: if_splits)
  show "seeded cr st c"
    using seed_from_dns_seeded [OF seed_none [of cr st log], of "wd_resolver w" "wd_now w"] sd eqs(2) by simp
  from g have "st_strict_networks st \<longrightarrow> any_enabled_failed rows = []"
    by (auto simp: preflight_gate_def split: if_splits)
  with r show "\<exists>rows. start_rows w st = Some rows \<and> (st_strict_networks st \<longrightarrow> any_enabled_failed rows = [])"
    by blast
qed

lemma main_start_goes_on:
  assumes "main_start cr w a s = (Some (Inr (st, c, seeds)), s')"
  shows "cli_into_settings (wd_now_text w) a = Inr st" "run_dir st \<notin> set (fs_dirs s)"
    "\<exists>s1. async_start cr w st s1 = (Some (Inr (st, c, seeds)), s')"
proof -
  from assms obtain st1 s1 where st1: "cli_into_settings (wd_now_text w) a = Inr st1"
    and d: "(if st_dry_run st1 then (Inr (), s) else create_run_dir st1 s) = (Inr (), s1)"
    and as: "async_start cr w st1 (snd (logging_init st1 s1)) = (Some (Inr (st, c, seeds)), s')"
    by (auto simp: main_start_def split: sum.splits prod.splits)
  note go = async_start_goes_on [OF as]
  from go(1) st1 show "cli_into_settings (wd_now_text w) a = Inr st" by simp
  from go(1,2) d create_run_dir_fresh [of st s] show "run_dir st \<notin> set (fs_dirs s)" by auto
  from go(1) as show "\<exists>s1. async_start cr w st s1 = (Some (Inr (st, c, seeds)), s')" by blast
qed

subsection \<open>A run with nothing to crawl\<close>

definition quiet_args :: common_args where
  "quiet_args = common_defaults\<lparr>ca_no_ipv4 := True, ca_no_ipv6 := True, ca_no_tor := True, ca_no_i2p := True,
     ca_no_cjdns := True, ca_ip_concurrency := 0, ca_tor_concurrency := 0, ca_i2p_concurrency := 0,
     ca_no_record_addr_responses := True, ca_no_store_debug_log := True, ca_checkpoint_interval := ''0''\<rparr>"

definition quiet_cli :: cli where
  "quiet_cli = cli_defaults\<lparr>cli_common := quiet_args\<rparr>"

definition quiet_settings :: settings where
  "quiet_settings = projr (cli_into_settings ''t'' quiet_cli)"

definition quiet_world :: world where
  "quiet_world = \<lparr>wd_net = (\<lambda>target now. None), wd_resolver = (\<lambda>q. Inl not_found), wd_inet6 = Inl not_found,
     wd_now_text = ''t'', wd_now = 0, wd_log_faults = []\<rparr>"

definition quiet_crawler :: crawler where
  "quiet_crawler = crawler_new (with_limit (st_max_addresses quiet_settings)) quiet_settings None"

lemma quiet_args:
  "ca_timestamp quiet_args = None" "ca_record_addr_responses quiet_args" "ca_no_record_addr_responses quiet_args"
  "ca_checkpoint_interval quiet_args = ''0''" "ca_handshake_attempts quiet_args = 3" "ca_ip_concurrency quiet_args = 0"
  "ca_tor_concurrency quiet_args = 0" "ca_i2p_concurrency quiet_args = 0" "ca_result_path quiet_args = ''results''"
  "ca_delay_start quiet_args = 0" "\<not> ca_strict_networks quiet_args" "ca_no_store_debug_log quiet_args"
  "networks_of_args quiet_args =
     \<lparr>en_ipv4 = False, en_ipv6 = False, en_tor = False, en_i2p = False, en_cjdns = False\<rparr>"
  by (simp_all add: quiet_args_def default_args networks_of_args_def)

lemma quiet_built:
  "cli_into_settings ''t'' quiet_cli =
     Inr (built_settings ''t'' False (networks_of_args quiet_args) 0 quiet_args 172800 None 1000000 False False)"
  by (simp add: cli_into_settings_def quiet_cli_def cli_defaults_def quiet_args default_durations
      common_into_settings_def Let_def ensure_def MAX_CONCURRENCY_def)

lemma quiet_settings:
  "cli_into_settings ''t'' quiet_cli = Inr quiet_settings" "\<not> st_dry_run quiet_settings"
  "\<not> st_record_addr_responses quiet_settings" "\<not> st_store_debug_log quiet_settings"
  "\<not> st_strict_networks quiet_settings" "st_checkpoint_interval quiet_settings = 0" "st_delay_start quiet_settings = 0"
  "st_enabled_networks quiet_settings =
     \<lparr>en_ipv4 = False, en_ipv6 = False, en_tor = False, en_i2p = False, en_cjdns = False\<rparr>"
  "workers_for quiet_settings t = 0" "run_dir quiet_settings = ''results/t_v0.1.0''"
  "st_result_settings quiet_settings = st_result_settings sample_settings"
proof -
  note b = quiet_settings_def quiet_built built_settings_def quiet_args
  show "cli_into_settings ''t'' quiet_cli = Inr quiet_settings" by (simp add: quiet_settings_def quiet_built)
  show "\<not> st_dry_run quiet_settings" "\<not> st_record_addr_responses quiet_settings"
    "\<not> st_store_debug_log quiet_settings" "\<not> st_strict_networks quiet_settings"
    "st_checkpoint_interval quiet_settings = 0" "st_delay_start quiet_settings = 0"
    "st_enabled_networks quiet_settings =
      \<lparr>en_ipv4 = False, en_ipv6 = False, en_tor = False, en_i2p = False, en_cjdns = False\<rparr>"
    "st_result_settings quiet_settings = st_result_settings sample_settings"
    by (simp_all add: b sample_result_settings)
  show "workers_for quiet_settings t = 0" by (cases t) (simp_all add: workers_for_def b)
  show "run_dir quiet_settings = ''results/t_v0.1.0''"
    by (simp add: run_dir_def run_prefix_def path_join_def PKG_VERSION_def suffix_def b)
qed

lemma quiet_seeds:
  "\<exists>seeds. seed_from_dns cr st (\<lambda>q. Inl e) now c = (c, seeds)"
proof -
  have "seed_one_name cr st (\<lambda>q. Inl e) now n (c, rs) = (c, rs @ [\<lparr>sr_seed = n, sr_addrs = []\<rparr>])" for n rs
    by (simp add: seed_one_name_def resolve_seed_def)
  then have "\<exists>seeds. fold (seed_one_name cr st (\<lambda>q. Inl e) now) names (c, rs) = (c, seeds)" for names rs
    by (induction names arbitrary: rs) auto
  then show ?thesis by (simp add: seed_from_dns_def)
qed

definition quiet_fs :: fs where
  "quiet_fs = empty_fs\<lparr>fs_dirs := [''results'', ''results/t_v0.1.0'']\<rparr>"

lemma quiet_start:
  "\<exists>seeds. main_start cr quiet_world quiet_cli empty_fs =
     (Some (Inr (quiet_settings, quiet_crawler, seeds)), quiet_fs)"
proof -
  obtain seeds where sd: "seed_from_dns cr quiet_settings (\<lambda>q. Inl not_found) 0 quiet_crawler = (quiet_crawler, seeds)"
    using quiet_seeds by blast
  have "create_run_dir quiet_settings empty_fs = (Inr (), quiet_fs)"
    by (simp add: create_run_dir_def fs_then_def create_dir_all_def create_dir_def faulty_def next_fault_def
        empty_fs_def quiet_settings sample_result_settings quiet_fs_def)
  moreover have "start_rows quiet_world quiet_settings = Some
     [\<lparr>pr_network = ''ipv4'', pr_enabled = False, pr_result = ProbeSkipped\<rparr>,
      \<lparr>pr_network = ''ipv6'', pr_enabled = False, pr_result = ProbeSkipped\<rparr>,
      \<lparr>pr_network = ''tor'', pr_enabled = False, pr_result = ProbeSkipped\<rparr>,
      \<lparr>pr_network = ''i2p'', pr_enabled = False, pr_result = ProbeSkipped\<rparr>,
      \<lparr>pr_network = ''cjdns'', pr_enabled = False, pr_result = ProbeSkipped\<rparr>]"
    by (simp add: start_rows_def run_preflight_def quiet_settings Let_def ip_row_def proxy_row_def)
  ultimately show ?thesis
    using sd by (simp add: main_start_def quiet_world_def quiet_settings logging_init_def async_start_def
        preflight_gate_def any_enabled_failed_def open_addr_log_def fs_return_def quiet_crawler_def)
qed

text \<open>C15: The crawl starts only when the settings were accepted, the run directory did not exist, and under strict
  networks every enabled network passed its probe; it starts from enabled seeds. A dry run never
  starts it and leaves directories and files as they are.\<close>

theorem crawl_starts_checked:
  assumes "main_start cr w a s = (r, s')"
  shows "(\<forall>st c seeds. r = Some (Inr (st, c, seeds)) \<longrightarrow>
      cli_into_settings (wd_now_text w) a = Inr st \<and> \<not> st_dry_run st \<and> run_dir st \<notin> set (fs_dirs s) \<and>
      seeded cr st c \<and>
      (\<exists>rows. start_rows w st = Some rows \<and>
         (st_strict_networks st \<longrightarrow> (\<forall>row \<in> set rows. pr_enabled row \<longrightarrow> pr_result row = ProbeReachable)))) \<and>
    (\<forall>st. cli_into_settings (wd_now_text w) a = Inr st \<and> st_dry_run st \<longrightarrow> s' = s)"
proof -
  have "cli_into_settings (wd_now_text w) a = Inr st \<and> \<not> st_dry_run st \<and> run_dir st \<notin> set (fs_dirs s) \<and>
      seeded cr st c \<and>
      (\<exists>rows. start_rows w st = Some rows \<and>
         (st_strict_networks st \<longrightarrow> (\<forall>row \<in> set rows. pr_enabled row \<longrightarrow> pr_result row = ProbeReachable)))"
    if r: "r = Some (Inr (st, c, seeds))" for st c seeds
  proof -
    from assms r have m: "main_start cr w a s = (Some (Inr (st, c, seeds)), s')" by simp
    note go = main_start_goes_on [OF m]
    from go(3) obtain s1 where as: "async_start cr w st s1 = (Some (Inr (st, c, seeds)), s')" by blast
    from go(1,2) async_start_goes_on [OF as] show ?thesis
      by (auto simp: any_enabled_failed_def filter_empty_conv probe_is_ok_def)
  qed
  moreover have "s' = s" if "cli_into_settings (wd_now_text w) a = Inr st" "st_dry_run st" for st
    using that assms async_start_dry [where st = st and cr = cr and w = w and s = s and r = r and s' = s']
    by (simp add: main_start_def logging_init_def)
  ultimately show ?thesis by blast
qed

lemma crawl_starts_checked_witness:
  "\<exists>seeds s0. main_start rfc4648_crates quiet_world quiet_cli empty_fs =
       (Some (Inr (quiet_settings, quiet_crawler, seeds)), s0) \<and>
     run_dir quiet_settings \<notin> set (fs_dirs empty_fs) \<and> seeded rfc4648_crates quiet_settings quiet_crawler"
proof -
  obtain seeds where m: "main_start rfc4648_crates quiet_world quiet_cli empty_fs =
      (Some (Inr (quiet_settings, quiet_crawler, seeds)), quiet_fs)"
    using quiet_start by blast
  from crawl_starts_checked [OF m] m show ?thesis by blast
qed

subsection \<open>What a run leaves behind\<close>

lemma rows_never_panic:
  assumes "\<forall>(k, e) \<in> set snap. ne_state e = Reachable \<longrightarrow> ne_handshake e \<noteq> None"
  shows "write_reachable pr snap \<noteq> None"
proof -
  have "reachable_row pr x \<noteq> None" if "x \<in> set (rows_by Reachable reachable_key snap)" for x
  proof -
    obtain k e where x: "x = (k, e)" by fastforce
    with that assms have "ne_handshake e \<noteq> None" by (auto simp: rows_by_def)
    with x show ?thesis by (auto simp: reachable_row_def Let_def)
  qed
  then have "None \<notin> reachable_row pr ` set (rows_by Reachable reachable_key snap)" by (metis imageE)
  then show ?thesis by (simp add: write_reachable_def option_all_def)
qed

lemma store_ok_snapshot:
  "store_ok s \<Longrightarrow> (k, e) \<in> set (snapshot s) \<Longrightarrow> lookup s k = Some e"
  by (simp add: snapshot_def store_ok_def)

lemma crawl_rows:
  assumes "crawl_reach cr st (c, ws)" "runnable st"
  shows "write_reachable pr (snapshot (cw_store c)) \<noteq> None"
proof (rule rows_never_panic)
  have inv: "crawl_inv st (c, ws)" by (rule crawl_reach_inv [OF assms])
  then have e: "entries_ok st c" and so: "store_ok (cw_store c)" by (simp_all add: crawl_inv_def consistent_def balanced_def)
  have "lookup (cw_store c) k = Some e" if "(k, e) \<in> set (snapshot (cw_store c))" for k e
    using store_ok_snapshot [OF so that] .
  with e show "\<forall>(k, e) \<in> set (snapshot (cw_store c)). ne_state e = Reachable \<longrightarrow> ne_handshake e \<noteq> None"
    by (fastforce simp: entries_ok_def entry_ok_def)
qed

lemma cli_max_addresses_kept: "cli_into_settings now_text a = Inr st \<Longrightarrow> st_max_addresses st = cli_max_addresses a"
  unfolding cli_into_settings_def common_into_settings_def Let_def and_then_Inr_iff
  by (auto simp: built_settings_def)

lemma outcome_of_no_panic: "fst (outcome_of x) \<noteq> Panicked m"
  by (cases x rule: outcome_of.cases) auto

lemma write_snapshot_no_panic:
  assumes "write_reachable pr snap \<noteq> None"
  shows "fst (write_snapshot cr pr gen tmp snap rejected st seeds meta s) \<noteq> Panicked m"
proof -
  obtain rows where "write_reachable pr snap = Some rows" using assms by blast
  moreover obtain x s1 where "fs_then (create_dir_all (snapshots_dir st)) (\<lambda>_. create_dir (temp_dir st gen)) s = (x, s1)"
    by fastforce
  ultimately show ?thesis by (cases x) (simp_all add: write_snapshot_def outcome_of_no_panic)
qed

text \<open>What \<open>main_end\<close> returns when the rows can be written.\<close>

lemma main_end_cases:
  assumes "main_end cr pr gen tmp st seeds runtime c s1 = (code, c', s2)"
    and "write_reachable pr (snapshot (cw_store c)) \<noteq> None" "names_ok gen tmp"
  obtains (failure) "code = Some ExitFailure"
  | (success) durable hashes where "code = Some ExitSuccess" "run_result c = Inr ()"
      "\<forall>log. cw_addr_log c' = Some log \<longrightarrow> lg_synced log = length (lg_written log)"
      "fs_files s2 (run_dir st, manifest_name) =
         Some (str_bytes (json_pretty pr 2 (manifest_json gen (length (snapshot (cw_store c)))
           (final_meta runtime c True durable True) hashes) @ newline))"
      "complete_snapshot cr pr (snapshot (cw_store c)) (ns_budget_rejected (cw_store c)) st seeds
         (final_meta runtime c True durable True) (final_dir st gen) hashes s2"
      "fs_log s2 = fs_log s1 @ publish_order st gen tmp @ [SyncedDir (run_dir st)]"
proof -
  obtain flushed durable c1 where f: "flush_log c = ((flushed, durable), c1)" by (metis prod.collapse)
  from flush_log_side(1) [OF f] have same: "cw_store c1 = cw_store c" "terminated_early c1 = terminated_early c"
    "cw_num_processed c1 = cw_num_processed c"
    by (auto simp: side_update_def terminated_early_def)
  define meta where "meta = final_meta runtime c1 flushed durable (run_result c = Inr ())"
  obtain r s' where w: "write_snapshot cr pr gen tmp (snapshot (cw_store c)) (ns_budget_rejected (cw_store c)) st
      seeds meta s1 = (r, s')"
    by fastforce
  have me: "main_end cr pr gen tmp st seeds runtime c s1 =
      (case r of Panicked _ \<Rightarrow> (None, c1, s') | Failed e \<Rightarrow> (Some ExitFailure, c1, s')
       | Returned _ \<Rightarrow> (Some (if run_result c = Inr () \<and> flushed then ExitSuccess else ExitFailure), c1, s'))"
    using w by (cases r) (simp_all add: main_end_def f write_all_output_def same(1) meta_def)
  show thesis
  proof (cases r)
    case (Returned u)
    show thesis
    proof (cases "run_result c = Inr () \<and> flushed")
      case False
      with assms(1) me Returned have "code = Some ExitFailure" by auto
      then show thesis by (rule failure)
    next
      case True
      with assms(1) me Returned have e: "code = Some ExitSuccess" "c' = c1" "s2 = s'" by auto
      have m: "meta = final_meta runtime c True durable True" using True same by (simp add: meta_def final_meta_def)
      from assms(3) Returned snapshot_published [OF w] obtain hashes where
        "fs_files s' (run_dir st, manifest_name) =
           Some (str_bytes (json_pretty pr 2 (manifest_json gen (length (snapshot (cw_store c))) meta hashes) @ newline))"
        "complete_snapshot cr pr (snapshot (cw_store c)) (ns_budget_rejected (cw_store c)) st seeds meta
           (final_dir st gen) hashes s'"
        "fs_log s' = fs_log s1 @ publish_order st gen tmp @ [SyncedDir (run_dir st)]"
        by (auto simp: names_ok_def)
      with success e m True flush_log_side(2) [OF f] show thesis by auto
    qed
  next
    case (Failed e)
    with assms(1) me have "code = Some ExitFailure" by auto
    then show thesis by (rule failure)
  next
    case (Panicked m)
    with write_snapshot_no_panic [OF assms(2)] w show thesis by (metis fst_conv)
  qed
qed


lemma quiet_published:
  "fst (write_snapshot rfc4648_crates sample_printers ''g'' ''m.tmp'' [] rejected quiet_settings seeds meta quiet_fs) =
     Returned ()"
proof -
  have d: "snapshots_dir quiet_settings = ''results/t_v0.1.0/snapshots''"
    "temp_dir quiet_settings ''g'' = ''results/t_v0.1.0/snapshots/.tmp-g''"
    "final_dir quiet_settings ''g'' = ''results/t_v0.1.0/snapshots/g''"
    by (simp_all add: snapshots_dir_def temp_dir_def final_dir_def path_join_def quiet_settings suffix_def)
  have r: "write_reachable sample_printers [] = Some [reachable_header]"
    by (simp add: write_reachable_def rows_by_def option_all_def)
  show ?thesis
    by (simp add: write_snapshot_def write_files_def prepare_snapshot_def publish_manifest_def d r quiet_settings
        sample_result_settings result_files_def Let_def fs_then_def fs_return_def faulty_def
        next_fault_def create_dir_all_def create_dir_def write_new_def sync_file_def sync_dir_def read_file_def
        rename_dir_def rename_file_def sha256_file_def quiet_fs_def empty_fs_def fs_note_def manifest_name_def)
qed

lemma quiet_end:
  "\<exists>c' s2. main_end rfc4648_crates sample_printers ''g'' ''m.tmp'' quiet_settings seeds 0 (run_start quiet_crawler) quiet_fs =
     (Some ExitSuccess, c', s2)"
proof -
  let ?c = "run_start quiet_crawler"
  have c: "cw_addr_log ?c = None" "run_result ?c = Inr ()" "snapshot (cw_store ?c) = []"
    by (simp_all add: run_start_def quiet_crawler_def crawler_new_def close_queues_def run_result_def snapshot_def
        with_limit_def)
  obtain s2 where "write_all_output rfc4648_crates sample_printers ''g'' ''m.tmp'' (cw_store ?c) quiet_settings seeds
      (final_meta 0 ?c True None True) quiet_fs = (Returned (), s2)"
    using quiet_published unfolding write_all_output_def c(3) by (metis prod.collapse)
  with c show ?thesis by (simp add: main_end_def flush_log_def)
qed


end
