(* ===== verification/Checkpoint.thy ===== *)
theory Checkpoint
  imports Main_Program
begin

section \<open>What a checkpoint publishes\<close>

text \<open>
  The observation barrier makes a snapshot and the log agree, although workers run while the entries
  are copied and the files are written: the snapshot is the tally of the events up to a moment of the
  history, and the id in its manifest is that moment.
\<close>

subsection \<open>Snapshots and moments\<close>

text \<open>The entries of a snapshot have the statistics that the events give them, and no event is missing.\<close>

definition reports :: "event list \<Rightarrow> (addr_key \<times> node_entry) list \<Rightarrow> bool" where
  "reports h snap \<longleftrightarrow>
     distinct (map fst snap) \<and> (\<forall>(k, e) \<in> set snap. seen (ne_stats e) = tally h k) \<and>
     (\<forall>ev \<in> set h. ob_key ev \<in> fst ` set snap)"

text \<open>The id of the manifest divides the history: the first \<open>n\<close> events have ids up to it, the later ones
  greater ids; and the first \<open>n\<close> are on disk as they were observed, unless an append failed.\<close>

definition divides :: "event list \<Rightarrow> nat \<Rightarrow> u64 option \<Rightarrow> addr_log option \<Rightarrow> bool" where
  "divides h n durable lg \<longleftrightarrow>
     (case lg of
        None \<Rightarrow> durable = None
      | Some log \<Rightarrow>
          (case durable of
             None \<Rightarrow> False
           | Some m \<Rightarrow>
               (\<forall>j < length h. \<forall>i. ob_id (h ! j) = Some i \<longrightarrow> (i \<le> m \<longleftrightarrow> j < n)) \<and>
               (all_logged (take n h) \<longrightarrow> prefix (log_bytes (take n h)) (on_disk log))))"

definition marks :: "event list \<Rightarrow> u64 option \<Rightarrow> addr_log option \<Rightarrow> bool" where
  "marks h durable lg \<longleftrightarrow>
     (case lg of
        None \<Rightarrow> durable = None
      | Some log \<Rightarrow>
          durable = Some (last (0 # ids h)) \<and> (all_logged h \<longrightarrow> prefix (log_bytes h) (on_disk log)))"

lemma ids_append: "ids (h @ h') = ids h @ ids h'"
  by (simp add: ids_def map_filter_def)

lemma id_member: "j < length h \<Longrightarrow> ob_id (h ! j) = Some i \<Longrightarrow> i \<in> set (ids h)"
  using nth_mem [of j h] by (force simp: ids_def map_filter_def)

lemma marks_divides:
  assumes a: "log_agrees lg (h1 @ h2)" and len: "length (h1 @ h2) < 2 ^ 64 - 1" and m: "marks h1 durable lg"
  shows "divides (h1 @ h2) (length h1) durable lg"
proof (cases lg)
  case None
  with m show ?thesis by (simp add: marks_def divides_def)
next
  case (Some log)
  let ?m = "last (0 # ids h1)"
  have s: "sorted_wrt (<) ((0 # ids h1) @ ids h2)"
    using a len Some by (simp add: log_agrees_def ids_append)
  have low: "i \<le> ?m" if "i \<in> set (ids h1)" for i
  proof -
    have "sorted_wrt (<) (butlast (0 # ids h1) @ [?m])"
      using s by (metis append_butlast_last_id list.distinct(1) sorted_wrt_append)
    moreover from that have "i \<in> set (butlast (0 # ids h1) @ [?m])"
      by (metis append_butlast_last_id list.distinct(1) list.set_intros(2))
    ultimately show ?thesis by (auto simp: sorted_wrt_append)
  qed
  have high: "?m < i" if "i \<in> set (ids h2)" for i
    using s that last_in_set [of "0 # ids h1"] unfolding sorted_wrt_append by blast
  have "i \<le> ?m \<longleftrightarrow> j < length h1" if "j < length (h1 @ h2)" "ob_id ((h1 @ h2) ! j) = Some i" for i j
  proof (cases "j < length h1")
    case True
    then have "i \<in> set (ids h1)" using that(2) by (intro id_member) (simp_all add: nth_append)
    with low True show ?thesis by blast
  next
    case False
    then have "i \<in> set (ids h2)"
      using that by (intro id_member [of "j - length h1"]) (auto simp: nth_append)
    with high False show ?thesis by (meson leD)
  qed
  with m Some show ?thesis by (simp add: marks_def divides_def)
qed

lemma marks_grows: "marks h durable lg \<Longrightarrow> log_grows lg lg' \<Longrightarrow> marks h durable lg'"
  by (auto simp: marks_def log_grows_def split: option.splits intro: prefix_order.trans)

subsection \<open>The flush\<close>

lemma flush_log_marks:
  assumes "flush_log c = ((flushed, durable), c')" "log_agrees (cw_addr_log c) h"
  shows "log_agrees (cw_addr_log c') h" "log_grows (cw_addr_log c) (cw_addr_log c')"
    "flushed \<Longrightarrow> marks h durable (cw_addr_log c')"
proof -
  have "log_agrees (cw_addr_log c') h \<and> log_grows (cw_addr_log c) (cw_addr_log c') \<and>
      (flushed \<longrightarrow> marks h durable (cw_addr_log c'))"
  proof (cases "cw_addr_log c")
    case None
    with assms show ?thesis by (auto simp: flush_log_def marks_def)
  next
    case (Some log)
    obtain r log' where w: "writer_flush log = (r, log')" by fastforce
    note f = writer_flush_step [OF w]
    have c': "cw_addr_log c' = Some log'" "flushed \<longleftrightarrow> (\<exists>i. r = Inr i)" "flushed \<Longrightarrow> durable = Some (lg_durable_event_id log)"
      using assms(1) Some w f by (auto simp: flush_log_def mark_output_failed_def split: sum.splits)
    have sy: "lg_synced log' = lg_synced log \<or> lg_synced log' = length (lg_written log)"
      using w by (auto simp: writer_flush_def split: if_splits list.splits option.splits)
    have old: "lg_synced log \<le> length (lg_written log)" "all_logged h \<longrightarrow> lg_written log = log_bytes h"
      "lg_durable_event_id log = last (0 # ids h)"
      using assms(2) Some by (simp_all add: log_agrees_def)
    have "log_agrees (cw_addr_log c') h" using assms(2) Some c'(1) f sy by (auto simp: log_agrees_def)
    moreover have "prefix (on_disk log) (on_disk log')"
      using sy f old(1) by (auto simp: on_disk_def take_is_prefix)
    then have "log_grows (cw_addr_log c) (cw_addr_log c')" using Some c'(1) by (simp add: log_grows_def)
    moreover have "marks h durable (cw_addr_log c')" if "flushed"
    proof -
      have "on_disk log' = lg_written log" using f that c'(2) by (auto simp: on_disk_def)
      with old c' that show ?thesis by (simp add: marks_def)
    qed
    ultimately show ?thesis by blast
  qed
  then show "log_agrees (cw_addr_log c') h" "log_grows (cw_addr_log c) (cw_addr_log c')"
    "flushed \<Longrightarrow> marks h durable (cw_addr_log c')" by blast+
qed

lemma flush_log_ok:
  assumes "flush_log c = ((flushed, durable), c')" "observed_ok cr ((c, ws), phs, h)"
  shows "observed_ok cr ((c', ws), phs, h)"
proof -
  from flush_log_side(1) [OF assms(1)] have "cw_store c' = cw_store c" by (auto simp: side_update_def)
  with flush_log_marks(1) [OF assms(1)] assms(2) show ?thesis
    by (simp add: observed_ok_def tallied_def known_def)
qed

subsection \<open>The invariant of the checkpoint task\<close>

fun checkpoint_ok :: "checkpoint \<Rightarrow> addr_log option \<Rightarrow> phase list \<Rightarrow> event list \<Rightarrow> bool" where
  "checkpoint_ok (CpLocked runtime processed) lg phs h \<longleftrightarrow> no_guard phs"
| "checkpoint_ok (CpCopying runtime processed durable ks copied) lg phs h \<longleftrightarrow>
     no_guard phs \<and> marks h durable lg \<and> (\<forall>ev \<in> set h. ob_key ev \<in> set ks) \<and> distinct (map fst copied) \<and>
     (\<forall>(k, e) \<in> set copied. seen (ne_stats e) = tally h k)"
| "checkpoint_ok (CpWriting snap rejected meta) lg phs h \<longleftrightarrow>
     (\<exists>h1. prefix h1 h \<and> reports h1 snap \<and> marks h1 (sm_durable_addr_event_id meta) lg)"
| "checkpoint_ok _ lg phs h \<longleftrightarrow> True"

definition agrees :: "crates \<Rightarrow> main_state \<Rightarrow> bool" where
  "agrees cr = (\<lambda>(cp, ((c, ws), phs, h), s).
     observed_ok cr ((c, ws), phs, h) \<and> checkpoint_ok cp (cw_addr_log c) phs h)"

lemma checkpoint_ok_crawl:
  assumes o: "observed_step cr st (holds_barrier cp) ((c, ws), phs, h) ((c', ws'), phs', h')"
    and ok: "observed_ok cr ((c, ws), phs, h)" and cp: "checkpoint_ok cp (cw_addr_log c) phs h"
  shows "checkpoint_ok cp (cw_addr_log c') phs' h'"
proof -
  note g = observed_step_grows [OF o ok]
  have len: "length phs = length ws" using ok by (simp add: observed_ok_def phases_ok_def)
  have still: "phs' = phs \<and> h' = h" if "holds_barrier cp" "no_guard phs"
    using barred_still [OF _ that(2) len] o that(1) by simp
  show ?thesis
  proof (cases cp)
    case (CpLocked runtime processed)
    with cp still show ?thesis by simp
  next
    case (CpCopying runtime processed durable ks copied)
    with cp still g show ?thesis by (auto intro: marks_grows)
  next
    case (CpWriting snap rejected meta)
    with cp g show ?thesis by (auto intro: marks_grows prefix_order.trans)
  qed simp_all
qed

lemma checkpoint_ok_step:
  assumes k: "checkpoint_step cr pr st seeds phs (cp, c, s) (cp', c', s')"
    and ok: "observed_ok cr ((c, ws), phs, h)" and cp: "checkpoint_ok cp (cw_addr_log c) phs h"
  shows "observed_ok cr ((c', ws), phs, h) \<and> checkpoint_ok cp' (cw_addr_log c') phs h"
  using k
proof cases
  case (cp_flush runtime processed)
  obtain flushed durable c1 where f: "flush_log c = ((flushed, durable), c1)" by (metis prod.collapse)
  have la: "log_agrees (cw_addr_log c) h" using ok by (simp add: observed_ok_def)
  have c1: "c' = c1" "cp' = (if flushed then CpCopying runtime processed durable (map fst (snapshot (cw_store c1))) []
      else CpStopped)"
    using cp_flush f by (auto simp: checkpoint_flush_log_def split: bool.splits)
  from flush_log_ok [OF f ok] have ok1: "observed_ok cr ((c1, ws), phs, h)" .
  then have "\<forall>ev \<in> set h. ob_key ev \<in> fst ` set (ns_map (cw_store c1))"
    by (auto simp: observed_ok_def known_def map_of_eq_None_iff)
  with ok1 c1 cp cp_flush(1) flush_log_marks(3) [OF f la] show ?thesis by (auto simp: snapshot_def)
next
  case (cp_copy k e copied runtime processed durable ks)
  have "seen (ne_stats e) = tally h k"
    using no_guard_tally [OF ok _ cp_copy(5)] cp cp_copy(1) by simp
  with cp ok cp_copy show ?thesis by auto
next
  case (cp_copied ks copied runtime processed durable)
  with cp have "reports h copied" by (auto simp: reports_def)
  with cp ok cp_copied show ?thesis by (auto simp: checkpoint_meta_def)
qed (use ok in auto)

lemma main_agrees:
  assumes r: "main_reach cr pr st seeds c0 s0 x" and sd: "seeded cr st c0" and n: "new_log c0" and run: "runnable st"
  shows "agrees cr x"
proof -
  have j: "sole (fst (fst y)) (snd (fst y))" if "seeded cr st c0 \<and> main_reach cr pr st seeds c0 s0 (cp, y, s)" for cp y s
    using crawl_sole [OF _ run, of cr "fst (fst y)" "snd (fst y)"] main_reach_crawl [of cr pr st seeds c0 s0 cp y s] that
    by simp
  show ?thesis
  proof (rule main_runs.invariant_under [where J = "\<lambda>(cp, y, s). sole (fst (fst y)) (snd (fst y))"
        and I = "agrees cr" and cr = cr and pr = pr and st = st and seeds = seeds and ?c0.0 = c0 and ?s0.0 = s0])
    show "seeded cr st c0 \<and> main_reach cr pr st seeds c0 s0 x" using r sd by simp
    show "case y of (cp, y, s) \<Rightarrow> sole (fst (fst y)) (snd (fst y))"
      if "seeded cr st c0 \<and> main_reach cr pr st seeds c0 s0 y" for y
      using j that by (cases y) auto
    show "agrees cr y" if "seeded cr st c0 \<and> y = main_begin st c0 s0" for y
      using that observed_init [OF sd n, of "spawn_workers st"]
      by (simp add: agrees_def main_begin_def spawn_checkpoint_def)
    show "agrees cr z" if y: "case y of (cp, y, s) \<Rightarrow> sole (fst (fst y)) (snd (fst y))" "agrees cr y"
      and z: "main_step cr pr st seeds y z" for y z
      using z
    proof cases
      case (main_crawl cp u v s)
      obtain c ws phs h c' ws' phs' h' where uv: "u = ((c, ws), phs, h)" "v = ((c', ws'), phs', h')"
        by (metis prod.collapse)
      from main_crawl(3) y main_crawl(1) have "observed_ok cr v"
        by (intro observed_step_ok [OF main_crawl(3)]) (auto simp: agrees_def uv)
      with checkpoint_ok_crawl [of cr st cp c ws phs h c' ws' phs' h'] main_crawl y uv show ?thesis
        by (simp add: agrees_def)
    next
      case (main_checkpoint phs cp c s cp' c' s' ws h)
      with checkpoint_ok_step [OF main_checkpoint(3), of ws h] y(2) show ?thesis by (simp add: agrees_def)
    qed
  qed
qed

section \<open>The property of a checkpoint\<close>

lemma over_no_guard:
  assumes "phases_ok cr ws phs" "\<forall>(t, p) \<in> set ws. p = Exited"
  shows "no_guard phs"
  unfolding no_guard_def
proof
  fix ph assume "ph \<in> set phs"
  then obtain i where i: "i < length phs" "phs ! i = ph" by (metis in_set_conv_nth)
  with assms(1) have "i < length ws" "phase_ok cr (snd (ws ! i)) ph" by (auto simp: phases_ok_def)
  moreover obtain t p where "ws ! i = (t, p)" by fastforce
  then have "snd (ws ! i) = Exited" using nth_mem [OF \<open>i < length ws\<close>] assms(2) by auto
  ultimately show "ph = Outside" by (cases ph) simp_all
qed

text \<open>The log of a crawl that \<open>main\<close> starts is new.\<close>

lemma fold_new_log:
  assumes "\<And>x y. new_log (fst y) \<Longrightarrow> new_log (fst (f x y))" "new_log (fst y)"
  shows "new_log (fst (fold f xs y))"
  using assms(2) by (induction xs arbitrary: y) (simp_all add: assms(1))

lemma seed_from_dns_new_log:
  assumes "new_log c"
  shows "new_log (fst (seed_from_dns cr st res now c))"
  unfolding seed_from_dns_def
proof (rule fold_new_log)
  fix n and y :: "crawler \<times> seed_result list"
  assume y: "new_log (fst y)"
  have "new_log (fst (fold (seed_addr cr st now) (resolve_seed res n) (fst y, [])))"
  proof (rule fold_new_log)
    show "new_log (fst (seed_addr cr st now ip x))" if "new_log (fst x)" for ip x
      using that by (cases x) (simp add: seed_addr_def Let_def new_log_def seeded_log_kept)
  qed (simp add: y)
  then show "new_log (fst (seed_one_name cr st res now n y))"
    by (cases y) (auto simp: seed_one_name_def split: prod.splits)
qed (simp add: assms)

lemma started_new_log:
  assumes "main_start cr w a s = (Some (Inr (st, c0, seeds)), s0)"
  shows "new_log c0"
proof -
  from main_start_goes_on(3) [OF assms] obtain s1 where as: "async_start cr w st s1 = (Some (Inr (st, c0, seeds)), s0)"
    by blast
  then obtain log s2 where o: "open_addr_log (wd_log_faults w) st s1 = (Inr log, s2)"
    and c0: "c0 = fst (seed_from_dns cr st (wd_resolver w) (wd_now w)
      (crawler_new (with_limit (st_max_addresses st)) st log))"
    by (auto simp: async_start_def split: option.splits prod.splits sum.splits)
  have "\<exists>faults. l = addr_log_create faults" if "log = Some l" for l
    using o that by (auto simp: open_addr_log_def fs_then_Inr fs_return_def split: if_splits)
  then have "new_log (crawler_new (with_limit (st_max_addresses st)) st log)"
    by (simp add: new_log_def crawler_new_def)
  then show ?thesis unfolding c0 by (rule seed_from_dns_new_log)
qed

text \<open>C5: What a checkpoint publishes agrees with the log, in every interleaving of workers, checkpoints and
  failing writes. For the snapshot that is being written there is a moment of the history such that the
  statistics of every entry are the tally of the events before it, no event before it is missing, and the
  durable id in the manifest is the boundary: events before it have ids up to it and are on disk with
  the text of what was observed, later ones have greater ids. For the snapshot at the end that moment is
  the end of the history.\<close>

theorem checkpoint_matches_log:
  assumes "main_reach cr pr st seeds c0 s0 (cp, ((c, ws), phs, h), s)" "seeded cr st c0" "new_log c0"
    and "runnable st" "length h < 2 ^ 64 - 1"
  shows "(\<forall>ev \<in> set h. describes cr (ob_key ev) (ob_what ev) (ob_text ev)) \<and>
    (cp = CpWriting snap rejected meta \<longrightarrow>
      (\<exists>n \<le> length h. reports (take n h) snap \<and>
         divides h n (sm_durable_addr_event_id meta) (cw_addr_log c))) \<and>
    (run_over cp ws \<and> flush_log c = ((True, durable), c') \<longrightarrow>
      reports h (snapshot (cw_store c)) \<and> divides h (length h) durable (cw_addr_log c'))"
proof (intro conjI impI)
  have ag: "observed_ok cr ((c, ws), phs, h)" "checkpoint_ok cp (cw_addr_log c) phs h"
    using main_agrees [OF assms(1-4)] by (simp_all add: agrees_def)
  then show "\<forall>ev \<in> set h. describes cr (ob_key ev) (ob_what ev) (ob_text ev)"
    by (simp add: observed_ok_def described_def)
  have la: "log_agrees (cw_addr_log c) h" and po: "phases_ok cr ws phs" and kn: "known c h"
    using ag(1) by (simp_all add: observed_ok_def)
  {
    assume "cp = CpWriting snap rejected meta"
    with ag(2) obtain h1 h2 where h: "h = h1 @ h2" "reports h1 snap" "marks h1 (sm_durable_addr_event_id meta) (cw_addr_log c)"
      by (auto simp: prefix_def)
    with marks_divides [of "cw_addr_log c" h1 h2] la assms(5)
    have "divides h (length h1) (sm_durable_addr_event_id meta) (cw_addr_log c)" by simp
    with h show "\<exists>n \<le> length h. reports (take n h) snap \<and> divides h n (sm_durable_addr_event_id meta) (cw_addr_log c)"
      by (intro exI [of _ "length h1"]) simp
  next
    assume over: "run_over cp ws \<and> flush_log c = ((True, durable), c')"
    then have "no_guard phs" using over_no_guard [OF po] by (simp add: run_over_def)
    note t = no_guard_tally [OF ag(1) this]
    have "store_ok (cw_store c)"
      using crawl_reach_inv [OF _ assms(4)] main_reach_crawl [OF assms(1,2)] by (fastforce simp: crawl_inv_def balanced_def)
    then have d: "distinct (map fst (snapshot (cw_store c)))" "\<And>k e. (k, e) \<in> set (snapshot (cw_store c)) \<Longrightarrow> lookup (cw_store c) k = Some e"
      by (auto simp: snapshot_def store_ok_def)
    have "\<forall>ev \<in> set h. ob_key ev \<in> fst ` set (snapshot (cw_store c))"
      using kn by (auto simp: known_def snapshot_def map_of_eq_None_iff)
    with d t show "reports h (snapshot (cw_store c))" by (auto simp: reports_def)
    have "marks h durable (cw_addr_log c')" "log_agrees (cw_addr_log c') h"
      using over flush_log_marks [of c True durable c' h] la by simp_all
    with marks_divides [of "cw_addr_log c'" h "[]" durable] assms(5)
    show "divides h (length h) durable (cw_addr_log c')" by simp
  }
qed

text \<open>A crawl of one node whose peer sends a malformed reply, and a checkpoint after it.\<close>

definition ticking :: settings where
  "ticking = solo_settings\<lparr>st_checkpoint_interval := 60\<rparr>"

definition solo_logged :: "addr_log \<Rightarrow> node_entry \<Rightarrow> bool \<Rightarrow> usize \<Rightarrow> usize \<Rightarrow> crawler" where
  "solo_logged log e waiting outstanding processed =
     (solo e waiting outstanding processed False)\<lparr>cw_addr_log := Some log\<rparr>"

lemma ticking_runnable: "runnable ticking"
proof -
  have "settings_ok ticking \<longleftrightarrow> settings_ok solo_settings"
    by (simp add: settings_ok_def ticking_def all_transport all_network workers_for_def is_enabled_def)
  with solo_runnable show ?thesis by (simp add: runnable_def ticking_def)
qed

lemma solo_logged_seeded: "seeded rfc4648_crates ticking (solo_logged log (solo_entry Queued) True 1 0)"
proof -
  let ?c = "crawler_new (with_limit (st_max_addresses ticking)) ticking (Some log)"
  have "seeded rfc4648_crates ticking (seed_key rfc4648_crates 5 solo_key ?c)"
    by (intro seed_one seed_none) (simp add: solo_classify, simp add: ticking_def solo_settings_def is_enabled_def)
  moreover have "seed_key rfc4648_crates 5 solo_key ?c = solo_logged log (solo_entry Queued) True 1 0"
    by (simp add: seed_key_def observe_seed_def crawler_new_def with_limit_def ticking_def solo_settings_def
        reserve_entry_def insert_entry_def solo_classify enqueue_seed_def enqueue_def key_network_def
        network_of_def node_entry_new_def send_key_def incr_outstanding_def queues_new_def queue_bounded_def
        try_send_def solo_def solo_logged_def solo_entry_def Let_def)
  ultimately show ?thesis by simp
qed

text \<open>The states of the one worker and the checkpoint task.\<close>

definition ticks :: "checkpoint \<Rightarrow> crawler \<Rightarrow> pc \<Rightarrow> phase \<Rightarrow> event list \<Rightarrow> bool" where
  "ticks cp c p ph h \<longleftrightarrow>
     main_reach rfc4648_crates sample_printers ticking [] (solo_logged (addr_log_create []) (solo_entry Queued) True 1 0)
       empty_fs (cp, ((c, [(TransportIp, p)]), [ph], h), empty_fs)"

lemma ticks_start: "ticks CpWaiting (solo_logged (addr_log_create []) (solo_entry Queued) True 1 0) AtLoop Outside []"
proof -
  have "run_start (solo_logged log e True 1 0) = solo_logged log e True 1 0" for log e
    by (simp add: run_start_def solo_logged_def solo_def)
  moreover have "spawn_workers ticking = [(TransportIp, AtLoop)]"
    using solo_spawn by (simp add: spawn_workers_def ticking_def workers_for_def)
  ultimately show ?thesis
    using main_init [of rfc4648_crates sample_printers ticking "[]"
        "solo_logged (addr_log_create []) (solo_entry Queued) True 1 0" empty_fs]
    by (simp add: ticks_def main_begin_def spawn_checkpoint_def ticking_def)
qed

lemma ticks_worker:
  assumes "ticks cp c p ph h" "ostep rfc4648_crates ticking (holds_barrier cp) TransportIp (c, p, ph, h) (c', p', ph', h')"
  shows "ticks cp c' p' ph' h'"
proof -
  have "observed_step rfc4648_crates ticking (holds_barrier cp) ((c, [(TransportIp, p)]), [ph], h)
      ((c', [(TransportIp, p')]), [ph'], h')"
    using observed_worker [of 0 "[(TransportIp, p)]" TransportIp p rfc4648_crates ticking "holds_barrier cp" c "[ph]" h c' p' ph' h']
      assms(2) by simp
  with assms(1) show ?thesis unfolding ticks_def by (blast intro: main_next main_crawl)
qed

lemma ticks_moves:
  assumes "ticks cp c p Outside h" "wstep rfc4648_crates ticking TransportIp (c, p) (c', p')" "p' \<noteq> p"
  shows "ticks cp c' p' Outside h"
proof -
  have "keeps_seen c c'"
  proof (rule wstep_keeps_seen [OF assms(2)])
    show "keeps_seen c c'" if "p = Busy k n" "p' = Busy k n" for k n using that assms(3) by simp
    show "keeps_seen c c'" if "p = Busy k n" "p' = Busy k n" for k n using that assms(3) by simp
  qed
  with assms show ?thesis by (intro ticks_worker [OF assms(1)] o_plain) simp_all
qed

lemma ticks_task:
  assumes "ticks cp c p ph h" "checkpoint_step rfc4648_crates sample_printers ticking [] [ph] (cp, c, empty_fs) (cp', c', empty_fs)"
  shows "ticks cp' c' p ph h"
  using assms unfolding ticks_def by (blast intro: main_next main_checkpoint)

lemma ticks_busy: "ticks CpWaiting (solo_logged (addr_log_create []) solo_busy False 1 1) (Busy solo_key 1) Outside []"
proof -
  let ?s = "solo_logged (addr_log_create [])"
  have "ticks CpWaiting (?s (solo_entry Queued) True 1 0) AtRecv Outside []"
    by (rule ticks_moves [OF ticks_start loop_recv]) (simp_all add: solo_logged_def solo_def)
  then have "ticks CpWaiting (?s (solo_entry Queued) False 1 0) (Got solo_key) Outside []"
    by (rule ticks_moves)
      (use recv_got [of TransportIp "?s (solo_entry Queued) True 1 0"] in
        \<open>simp_all add: solo_logged_def solo_def queue_recv_def\<close>)
  then have "ticks CpWaiting (?s (solo_entry Queued) False 1 1) (Slot solo_key) Outside []"
    by (rule ticks_moves)
      (rule slot_free, simp_all add: reserve_node_slot_def ticking_def solo_settings_def solo_logged_def solo_def)
  then have "ticks CpWaiting (on_entry solo_key (set_state Processing) (?s (solo_entry Queued) False 1 1))
      (Started solo_key) Outside []"
    by (rule ticks_moves [OF _ begin_node]) simp
  moreover have "on_entry solo_key (set_state Processing) (?s (solo_entry Queued) False 1 1) = ?s (solo_entry Processing) False 1 1"
    by (simp add: on_entry_def update_entry_eq solo_logged_def solo_def set_state_def solo_entry_def node_entry_new_def)
  ultimately have "ticks CpWaiting (?s (solo_entry Processing) False 1 1) (Started solo_key) Outside []" by simp
  then show ?thesis
    by (rule ticks_moves)
      (rule begin_attempt, simp_all add: start_attempt_eq on_entry_def update_entry_eq solo_logged_def solo_def
        solo_busy_def solo_entry_def node_entry_new_def stats_default_def)
qed

text \<open>The peer's reply is malformed.\<close>

definition bad_reply :: "u64 \<Rightarrow> string" where
  "bad_reply = malformed_text rfc4648_crates (ak_host solo_key) (ak_port solo_key) ''addr'' NonCanonicalOrTruncated []"

definition bad_event :: event where
  "bad_event = \<lparr>ob_key = solo_key, ob_what = ObsMalformed, ob_text = bad_reply, ob_id = Some 1\<rparr>"

definition bad_entry :: node_entry where
  "bad_entry = solo_busy\<lparr>ne_stats := observe ObsMalformed (ne_stats solo_busy)\<rparr>"

definition bad_log :: "nat \<Rightarrow> addr_log" where
  "bad_log synced =
     \<lparr>lg_next_event_id = 2, lg_written = str_bytes (bad_reply 1), lg_synced = synced, lg_durable_event_id = 1,
      lg_faults = [], lg_stopped = False\<rparr>"

lemma ticks_observed: "ticks CpWaiting (solo_logged (bad_log 0) bad_entry False 1 1) (Busy solo_key 1) Outside [bad_event]"
proof -
  let ?log = "addr_log_create []"
  have "describes rfc4648_crates solo_key ObsMalformed bad_reply"
    unfolding bad_reply_def by (rule describes_malformed)
  then have "ticks CpWaiting (solo_logged ?log solo_busy False 1 1) (Busy solo_key 1) (Entered ObsMalformed bad_reply) []"
    by (intro ticks_worker [OF ticks_busy] o_enter) simp_all
  then have "ticks CpWaiting (on_stats solo_key (observe ObsMalformed) (solo_logged ?log solo_busy False 1 1))
      (Busy solo_key 1) (Counted ObsMalformed bad_reply) []"
    by (rule ticks_worker [OF _ o_count])
  moreover have "on_stats solo_key (observe ObsMalformed) (solo_logged ?log solo_busy False 1 1) =
      solo_logged ?log bad_entry False 1 1"
    by (simp add: on_stats_def on_entry_def update_entry_eq solo_logged_def solo_def bad_entry_def)
  moreover have "record_event bad_reply (solo_logged ?log bad_entry False 1 1) =
      (Some 1, solo_logged (bad_log 0) bad_entry False 1 1)"
    by (simp add: record_event_def solo_logged_def solo_def log_event_def writer_append_def addr_log_create_def bad_log_def)
  ultimately have "ticks CpWaiting (solo_logged (bad_log 0) bad_entry False 1 1) (Busy solo_key 1) Recorded [bad_event]"
    unfolding bad_event_def using ticks_worker [OF _ o_record] by fastforce
  then show ?thesis by (rule ticks_worker [OF _ o_leave])
qed

lemma ticks_written:
  "\<exists>meta. sm_durable_addr_event_id meta = Some 1 \<and>
     ticks (CpWriting [(solo_key, bad_entry)] 0 meta) (solo_logged (bad_log (length (str_bytes (bad_reply 1)))) bad_entry False 1 1)
       (Busy solo_key 1) Outside [bad_event]"
proof -
  let ?c = "\<lambda>synced. solo_logged (bad_log synced) bad_entry False 1 1"
  let ?n = "length (str_bytes (bad_reply 1))"
  note ticks_observed
  then have "ticks (CpTicked 60 (cw_num_processed (?c 0))) (?c 0) (Busy solo_key 1) Outside [bad_event]"
    by (rule ticks_task [OF _ cp_tick])
  then have "ticks (CpLocked 60 (cw_num_processed (?c 0))) (?c 0) (Busy solo_key 1) Outside [bad_event]"
    by (rule ticks_task) (rule cp_lock, simp add: no_guard_def)
  then have "ticks (CpCopying 60 (cw_num_processed (?c 0)) (Some 1) [solo_key] []) (?c ?n) (Busy solo_key 1) Outside [bad_event]"
    by (rule ticks_task)
      (rule cp_flush, simp add: checkpoint_flush_log_def flush_log_def solo_logged_def solo_def writer_flush_def
        bad_log_def snapshot_def)
  then have "ticks (CpCopying 60 (cw_num_processed (?c 0)) (Some 1) [solo_key] ([] @ [(solo_key, bad_entry)])) (?c ?n)
      (Busy solo_key 1) Outside [bad_event]"
    by (rule ticks_task) (rule cp_copy, simp_all add: solo_logged_def solo_def)
  then have "ticks (CpWriting ([] @ [(solo_key, bad_entry)]) (ns_budget_rejected (cw_store (?c ?n)))
      (checkpoint_meta 60 (cw_num_processed (?c 0)) (Some 1))) (?c ?n) (Busy solo_key 1) Outside [bad_event]"
    by (rule ticks_task) (rule cp_copied, simp)
  then show ?thesis
    by (intro exI [of _ "checkpoint_meta 60 (cw_num_processed (?c 0)) (Some 1)"])
      (simp add: checkpoint_meta_def solo_logged_def solo_def)
qed

lemma checkpoint_matches_log_witness:
  "\<exists>(meta :: snapshot_meta) lg. sm_durable_addr_event_id meta = Some 1 \<and> malformed_addr_messages (ne_stats bad_entry) = 1 \<and>
     (\<exists>n. n \<le> 1 \<and> reports (take n [bad_event]) [(solo_key, bad_entry)] \<and>
        divides [bad_event] n (sm_durable_addr_event_id meta) lg)"
proof -
  obtain meta where m: "sm_durable_addr_event_id meta = Some 1"
    and t: "ticks (CpWriting [(solo_key, bad_entry)] 0 meta) (solo_logged (bad_log (length (str_bytes (bad_reply 1)))) bad_entry False 1 1)
       (Busy solo_key 1) Outside [bad_event]"
    using ticks_written by blast
  have n: "new_log (solo_logged (addr_log_create []) (solo_entry Queued) True 1 0)"
    by (auto simp: new_log_def solo_logged_def)
  have "malformed_addr_messages (ne_stats bad_entry) = 1"
    by (simp add: bad_entry_def solo_busy_def solo_entry_def node_entry_new_def attempt_begun_def stats_default_def Let_def)
  moreover define lg where "lg = cw_addr_log (solo_logged (bad_log (length (str_bytes (bad_reply 1)))) bad_entry False 1 1)"
  have "\<exists>n \<le> length [bad_event]. reports (take n [bad_event]) [(solo_key, bad_entry)] \<and>
      divides [bad_event] n (sm_durable_addr_event_id meta) lg"
    unfolding lg_def
    using checkpoint_matches_log [OF t [unfolded ticks_def] solo_logged_seeded n ticking_runnable,
        THEN conjunct2, THEN conjunct1, of "[(solo_key, bad_entry)]" 0 meta] by simp
  then obtain n where "n \<le> 1" "reports (take n [bad_event]) [(solo_key, bad_entry)]"
      "divides [bad_event] n (sm_durable_addr_event_id meta) lg" by auto
  ultimately show ?thesis using m by blast
qed

section \<open>The turn of a worker within the program\<close>

lemma main_reach_steps:
  assumes "(observed_step cr st (holds_barrier cp))\<^sup>*\<^sup>* x y" "main_reach cr pr st seeds c0 s0 (cp, x, s)"
  shows "main_reach cr pr st seeds c0 s0 (cp, y, s)"
  using assms by (induction rule: rtranclp_induct) (auto intro: main_next main_crawl)

text \<open>C3: The turn of a worker as the functions of the code compose it is, within the whole program, a run of
  its steps: every message, malformed reply and outcome is entered under the barrier, counted, appended
  to the log and left, and nothing else the worker does is seen by a checkpoint. So what holds of the
  reachable states of the program, its checkpoints included, holds after every turn.\<close>

theorem turn_refines_program:
  assumes "main_reach cr pr st seeds c0 s0 (cp, ((c, ws), phs, h), s)" "seeded cr st c0" "new_log c0" "runnable st"
    and "\<not> holds_barrier cp" "shuffles ev" "i < length ws" "ws ! i = (t, AtLoop)"
    and "worker_turn cr ev st t None now c = (r, c')" "r \<noteq> WorkerStuck"
  shows "\<exists>h'. main_reach cr pr st seeds c0 s0 (cp, ((c', ws[i := (t, turn_pc r)]), phs, h @ h'), s)"
proof -
  have reach: "crawl_reach cr st (c, ws)" using main_reach_crawl [OF assms(1,2)] by simp
  have b: "balanced st (c, ws)" using crawl_reach_inv [OF reach assms(4)] by (simp add: crawl_inv_def)
  have "(t, AtLoop) \<in> set ws" using assms(7,8) nth_mem by force
  from balanced_apart [OF b this] have "set (queued (cw_queues c)) \<subseteq> set_mset (active_keys (cw_store c))"
    by (simp add: apart_def)
  moreover have "store_ok (cw_store c)" using b by (simp add: balanced_def)
  ultimately have "observes cr st t (c, AtLoop) (c', turn_pc r)"
    using observed_turn.turn_run [OF assms(6) _ _ assms(9,10)] by blast
  then obtain h' where o: "osteps cr st t (c, AtLoop, Outside, h) (c', turn_pc r, Outside, h @ h')"
    unfolding observes_def by fastforce
  have po: "phases_ok cr ws phs"
    using main_agrees [OF assms(1-4)] by (simp add: agrees_def observed_ok_def)
  then have len: "length phs = length ws" and "phase_ok cr AtLoop (phs ! i)"
    using assms(7,8) by (auto simp: phases_ok_def)
  then have out: "phs ! i = Outside" by (cases "phs ! i") simp_all
  then have "phs[i := Outside] = phs" by (metis list_update_id)
  with osteps_observed [OF o assms(7,8) len out]
  have "(observed_step cr st (holds_barrier cp))\<^sup>*\<^sup>* ((c, ws), phs, h) ((c', ws[i := (t, turn_pc r)]), phs, h @ h')"
    using assms(5) by simp
  from main_reach_steps [OF this assms(1)] show ?thesis by blast
qed

lemma turn_refines_program_witness:
  "\<exists>r c' h'. worker_turn rfc4648_crates silent_env ticking TransportIp None 0
       (solo_logged (addr_log_create []) (solo_entry Queued) True 1 0) = (r, c') \<and>
     ticks CpWaiting c' (turn_pc r) Outside h'"
proof -
  let ?c = "solo_logged (addr_log_create []) (solo_entry Queued) True 1 0"
  obtain r c' where t: "worker_turn rfc4648_crates silent_env ticking TransportIp None 0 ?c = (r, c')" by fastforce
  have r: "r \<noteq> WorkerStuck" using turn_not_stuck [OF silent_answers, of rfc4648_crates ticking TransportIp None 0 ?c] t by simp
  have n: "new_log ?c" by (auto simp: new_log_def solo_logged_def)
  have sh: "shuffles silent_env" by (simp add: shuffles_def silent_env_def)
  have "\<exists>h'. ticks CpWaiting c' (turn_pc r) Outside h'"
    using turn_refines_program [OF ticks_start [unfolded ticks_def] solo_logged_seeded n ticking_runnable _ sh _ _ t r, of 0]
    by (simp add: ticks_def)
  with t show ?thesis by blast
qed

end
