(* ===== verification/Probe.thy ===== *)
theory Probe
  imports Main_Program
begin

section \<open>The probe binary (src/bin/probe.rs)\<close>

text \<open>
  Gathering and parsing the nodes to probe, seeding the crawler with them, and the report. Reading
  files and the standard input is a parameter, as is the \<open>Debug\<close> text of a string, which depends on
  Unicode tables.
\<close>

record probe_cli =
  pc_common :: common_args
  pc_nodes :: "string list"
  pc_nodes_file :: "string option"
  pc_port :: u16

record inputs =
  in_read_file :: "string \<Rightarrow> io_error + string"
  in_terminal :: bool
  in_stdin :: "io_error + string"

subsection \<open>Node texts\<close>

definition split_lines :: "string \<Rightarrow> string list" where
  "split_lines content =
     filter (\<lambda>l. l \<noteq> []) (map (\<lambda>l. trim (takeWhile (\<lambda>c. c \<noteq> CHR ''#'') l)) (text_lines content))"

definition split_once :: "char \<Rightarrow> string \<Rightarrow> (string \<times> string) option" where
  "split_once c s =
     (case dropWhile (\<lambda>x. x \<noteq> c) s of [] \<Rightarrow> None | _ # r \<Rightarrow> Some (takeWhile (\<lambda>x. x \<noteq> c) s, r))"

definition rsplit_once :: "char \<Rightarrow> string \<Rightarrow> (string \<times> string) option" where
  "rsplit_once c s = map_option (\<lambda>(a, b). (rev b, rev a)) (split_once c (rev s))"

definition parse_port :: "string \<Rightarrow> u16 option" where
  "parse_port s = map_option word_of_nat (parse_unsigned 16 s)"

definition parse_node :: "string \<Rightarrow> u16 \<Rightarrow> addr_key option" where
  "parse_node s0 default_port =
     (let s = trim s0
      in if s = [] then None
         else case strip_prefix ''['' s of
           Some inner \<Rightarrow>
             (case split_once (CHR '']'') inner of
                None \<Rightarrow> None
              | Some (host, after) \<Rightarrow>
                  map_option (\<lambda>port. \<lparr>ak_host = host, ak_port = port\<rparr>)
                    (case strip_prefix '':'' after of
                       Some p \<Rightarrow> parse_port p
                     | None \<Rightarrow> if after = [] then Some default_port else None))
         | None \<Rightarrow>
             if parse_ipv6 s \<noteq> None then Some \<lparr>ak_host = s, ak_port = default_port\<rparr>
             else case Option.bind (rsplit_once (CHR '':'') s)
                 (\<lambda>(host, p). map_option (\<lambda>port. \<lparr>ak_host = host, ak_port = port\<rparr>) (parse_port p)) of
               Some key \<Rightarrow> Some key
             | None \<Rightarrow> Some \<lparr>ak_host = s, ak_port = default_port\<rparr>)"

definition gather_raw_nodes :: "inputs \<Rightarrow> probe_cli \<Rightarrow> io_error + string list" where
  "gather_raw_nodes inp a =
     and_then (case pc_nodes_file a of
                 None \<Rightarrow> Inr (pc_nodes a)
               | Some path \<Rightarrow>
                   and_then (in_read_file inp path) (\<lambda>content. Inr (pc_nodes a @ split_lines content))) (\<lambda>out.
     if out = [] \<and> \<not> in_terminal inp
     then and_then (in_stdin inp) (\<lambda>buf. Inr (out @ split_lines buf))
     else Inr out)"

subsection \<open>Before and after the crawl\<close>

definition probe_targets :: "crates \<Rightarrow> u16 \<Rightarrow> string list \<Rightarrow> addr_key list" where
  "probe_targets cr port raw =
     filter (\<lambda>key. classify cr (ak_host key) \<noteq> Unknown) (List.map_filter (\<lambda>s. parse_node s port) raw)"

definition probe_seed :: "crates \<Rightarrow> settings \<Rightarrow> int \<Rightarrow> addr_key list \<Rightarrow> crawler" where
  "probe_seed cr st now targets =
     fold (seed_key cr now) targets (crawler_new (with_limit (st_max_addresses st)) st None)"

definition probe_start ::
  "crates \<Rightarrow> world \<Rightarrow> inputs \<Rightarrow> probe_cli \<Rightarrow> fs \<Rightarrow> (exit_code + settings \<times> crawler) \<times> fs" where
  "probe_start cr w inp a s =
     (case gather_raw_nodes inp a of
        Inl e \<Rightarrow> (Inl ExitConfigError, s)
      | Inr raw \<Rightarrow>
          if raw = [] then (Inl ExitConfigError, s)
          else case common_into_settings (wd_now_text w) (pc_common a) 0 None 1000000 False True of
            Inl e \<Rightarrow> (Inl ExitConfigError, s)
          | Inr st \<Rightarrow>
              let targets = probe_targets cr (pc_port a) raw
              in if targets = [] then (Inl ExitConfigError, s)
                 else case create_run_dir st s of
                   (Inl e, s) \<Rightarrow> (Inl ExitConfigError, s)
                 | (Inr _, s) \<Rightarrow>
                     (Inr (st, probe_seed cr st (wd_now w) targets), snd (logging_init st s)))"

definition state_name :: "node_state \<Rightarrow> string" where
  "state_name x =
     (case x of Queued \<Rightarrow> ''Queued'' | Processing \<Rightarrow> ''Processing'' | Reachable \<Rightarrow> ''Reachable''
      | HandshakeFailed \<Rightarrow> ''HandshakeFailed'' | Unreachable \<Rightarrow> ''Unreachable''
      | StaleDiscarded \<Rightarrow> ''StaleDiscarded'' | BudgetDiscarded \<Rightarrow> ''BudgetDiscarded'')"

definition describe_node :: "(string \<Rightarrow> string) \<Rightarrow> addr_key \<Rightarrow> node_entry \<Rightarrow> string" where
  "describe_node debug key e =
     (let addr = key_render key; net = network_as_str (ne_network e);
          attempts = show_word (handshake_attempts (ne_stats e));
          failed = ''  ('' @ net @ '')  reason='' @ reason_of e @ ''  attempts='' @ attempts
      in case ne_state e of
           Reachable \<Rightarrow>
             ''REACHABLE         '' @ addr @ ''  ('' @ net @ '')  connect='' @
             or_empty (\<lambda>ms. show_word ms @ ''ms'') (time_connect_ms (ne_stats e)) @ ''  ua='' @
             debug (or_empty hd_user_agent (ne_handshake e))
         | HandshakeFailed \<Rightarrow> ''HANDSHAKE_FAILED  '' @ addr @ failed
         | Unreachable \<Rightarrow> ''UNREACHABLE       '' @ addr @ failed
         | other \<Rightarrow> state_name other @ ''          '' @ addr @ ''  ('' @ net @ '')'')"

definition pad_left :: "nat \<Rightarrow> string \<Rightarrow> string" where
  "pad_left n s = replicate (n - length s) (CHR '' '') @ s"

text \<open>The lines of the report. A blank line comes before each heading.\<close>

definition print_report :: "(string \<Rightarrow> string) \<Rightarrow> node_store \<Rightarrow> string list" where
  "print_report debug store =
     (let snap = sort_key (\<lambda>(key, e). key_render key) (snapshot store);
          reasons = List.map_filter (\<lambda>(key, e). map_option fail_as_str (ne_failure e)) snap;
          hist = fold histogram_add reasons []
      in [[], ''=== Probe results ==='' ] @ map (\<lambda>(key, e). describe_node debug key e) snap @
         (if hist = [] then []
          else [[], ''=== Failure reasons ===''] @
            map (\<lambda>(reason, n). pad_left 5 (show_word n) @ ''  '' @ reason) hist))"

definition probe_end ::
  "crates \<Rightarrow> printers \<Rightarrow> (string \<Rightarrow> string) \<Rightarrow> string \<Rightarrow> string \<Rightarrow> settings \<Rightarrow> int \<Rightarrow> crawler \<Rightarrow> fs \<Rightarrow>
   (exit_code \<times> string list) option \<times> fs" where
  "probe_end cr pr debug gen tmp st runtime c s0 =
     (let crawl_ok = (run_result c = Inr ())
      in case write_all_output cr pr gen tmp (cw_store c) st [] (final_meta runtime c True None crawl_ok) s0 of
           (Panicked _, s) \<Rightarrow> (None, s)
         | (Failed e, s) \<Rightarrow> (Some (ExitFailure, []), s)
         | (Returned _, s) \<Rightarrow>
             (Some (if crawl_ok then ExitSuccess else ExitFailure, print_report debug (cw_store c)), s))"

text \<open>The crawl of the probe, as long as nobody presses Ctrl+C: only the workers move.\<close>

inductive worker_moves ::
  "crates \<Rightarrow> settings \<Rightarrow> crawler \<times> (transport \<times> pc) list \<Rightarrow> crawler \<times> (transport \<times> pc) list \<Rightarrow> bool"
  for cr :: crates and st :: settings where
  worker_move: "i < length ws \<Longrightarrow> ws ! i = (t, p) \<Longrightarrow> wstep cr st t (c, p) (c', p') \<Longrightarrow>
    worker_moves cr st (c, ws) (c', ws[i := (t, p')])"

inductive probe_reach ::
  "crates \<Rightarrow> settings \<Rightarrow> crawler \<Rightarrow> crawler \<times> (transport \<times> pc) list \<Rightarrow> bool"
  for cr :: crates and st :: settings and c0 :: crawler where
  probe_init: "probe_reach cr st c0 (run_start c0, spawn_workers st)"
| probe_next: "probe_reach cr st c0 x \<Longrightarrow> worker_moves cr st x y \<Longrightarrow> probe_reach cr st c0 y"


inductive_cases moves_cases: "worker_moves cr st x y"


section \<open>Properties of the probe\<close>

subsection \<open>Reading a rendered address\<close>

lemma split_once_sep: "c \<notin> set xs \<Longrightarrow> split_once c (xs @ c # ys) = Some (xs, ys)"
  by (induction xs) (auto simp: split_once_def split: list.splits)

lemma rsplit_once_sep: "c \<notin> set ys \<Longrightarrow> rsplit_once c (xs @ c # ys) = Some (xs, ys)"
  using split_once_sep [of c "rev ys" "rev xs"] by (simp add: rsplit_once_def)

lemma parse_port_show: "parse_port (show_dec (unat p)) = Some p"
proof -
  have "unat p < 2 ^ 16" using unsigned_less [of p] by simp
  then show ?thesis by (simp add: parse_port_def parse_unsigned_show_dec)
qed

lemma b32_lower_plain: "b32_lower c \<Longrightarrow> plain c \<and> c \<noteq> CHR ''[''"
  by (auto simp: b32_lower_def plain_def Let_def)

lemma decode_base32_lower: "decode_base32 cr l n \<noteq> None \<Longrightarrow> c \<in> set l \<Longrightarrow> b32_lower c"
  by (auto simp: decode_base32_def list_ex_iff split: if_splits)

text \<open>A host without a colon that is classified starts with a printable character other than the bracket.\<close>

lemma classified_head:
  assumes "classify cr host \<noteq> Unknown" "CHR '':'' \<notin> set host"
  shows "host \<noteq> [] \<and> plain (hd host) \<and> hd host \<noteq> CHR ''[''"
proof -
  have label: "host \<noteq> [] \<and> plain (hd host) \<and> hd host \<noteq> CHR ''[''"
    if "host = l @ sfx" "l \<noteq> []" "decode_base32 cr l n \<noteq> None" for l sfx n
    using decode_base32_lower [OF that(3), of "hd l"] b32_lower_plain [of "hd l"] that by (cases l) auto
  consider (onion) l where "host = l @ ''.onion''" "length l = 16" "decode_base32 cr l 10 \<noteq> None"
    | (onion3) l where "host = l @ ''.onion''" "length l = 56" "valid_onion_v3 cr l"
    | (i2p) l where "host = l @ ''.b32.i2p''" "length l = 52" "decode_base32 cr l 32 \<noteq> None"
    | (ipv4) "is_ipv4_dotted host"
    using assms by (auto simp: classify_def strip_suffix_Some split: option.splits if_splits)
  then show ?thesis
  proof cases
    case onion
    then show ?thesis using label [of l "''.onion''" 10] by (cases l) auto
  next
    case onion3
    then have "decode_base32 cr l 35 \<noteq> None" by (auto simp: valid_onion_v3_def split: option.splits)
    then show ?thesis using label [of l "''.onion''" 35] onion3 by (cases l) auto
  next
    case i2p
    then show ?thesis using label [of l "''.b32.i2p''" 32] by (cases l) auto
  next
    case ipv4
    then obtain p where p: "is_ipv4_part p" "split_on (CHR ''.'') host = p # tl (split_on (CHR ''.'') host)"
      unfolding is_ipv4_dotted_def Let_def
      by (cases "split_on (CHR ''.'') host") (auto split: if_splits)
    then have "p \<noteq> []" "is_ascii_digit (hd p)" by (cases p; auto simp: is_ipv4_part_def)+
    moreover obtain r where "host = p @ r"
    proof -
      have "\<exists>r. s = hd (split_on c s) @ r" for c and s :: string
        by (induction s) (auto split: list.splits)
      with p(2) that show thesis by (metis list.sel(1))
    qed
    ultimately have h: "host \<noteq> []" "is_ascii_digit (hd host)" by auto
    moreover have "hd host \<noteq> CHR ''[''" using h(2) by (auto simp: is_ascii_digit_def digit_of_def)
    ultimately show ?thesis using plain_digit by blast
  qed
qed

text \<open>C16: Every address the crawler can name is read back by the probe from its rendered text, whatever the
  default port: the addresses of the result files and reports can be given to the probe.\<close>

theorem parse_node_render:
  assumes "classify cr (ak_host key) \<noteq> Unknown"
  shows "parse_node (key_render key) default_port = Some key"
proof -
  let ?h = "ak_host key" and ?p = "show_dec (unat (ak_port key))"
  have last: "plain (last (xs @ ?p))" for xs
    using plain_digit digits_show_dec [of "last ?p" "unat (ak_port key)"] by simp
  show ?thesis
  proof (cases "CHR '':'' \<in> set ?h")
    case True
    then have "parse_ipv6 ?h \<noteq> None" using assms by (auto simp: classify_def split: option.splits)
    then have nb: "CHR '']'' \<notin> set ?h" using parse_ipv6_text(2) by blast
    have r: "key_render key = ''['' @ ?h @ CHR '']'' # CHR '':'' # ?p"
      using True by (simp add: key_render_def render_addr_def)
    have "trim (key_render key) = key_render key"
      using last [of "''['' @ ?h @ '']:''"] by (intro trim_plain) (simp_all add: r plain_def)
    then show ?thesis
      by (simp add: parse_node_def r strip_prefix_def split_once_sep [OF nb] parse_port_show)
  next
    case False
    note hd = classified_head [OF assms False]
    have r: "key_render key = ?h @ CHR '':'' # ?p" using False by (simp add: key_render_def render_addr_def)
    have t: "trim (key_render key) = key_render key"
      using last [of "?h @ '':''"] hd by (intro trim_plain) (simp_all add: r)
    have "colons (key_render key) = 1" using False colon_not_in_show_dec [of "unat (ak_port key)"]
      by (simp add: r count_list_append count_notin)
    then have n6: "parse_ipv6 (key_render key) = None" using parse_ipv6_text(1) [of "key_render key"] by force
    have np: "strip_prefix ''['' (key_render key) = None" using hd by (cases ?h) (auto simp: r strip_prefix_def)
    have "rsplit_once (CHR '':'') (key_render key) = Some (?h, ?p)"
      unfolding r by (rule rsplit_once_sep [OF colon_not_in_show_dec])
    then have "Option.bind (rsplit_once (CHR '':'') (key_render key))
        (\<lambda>(host, p). map_option (\<lambda>port. \<lparr>ak_host = host, ak_port = port\<rparr>) (parse_port p)) = Some key"
      by (simp add: parse_port_show)
    moreover have "key_render key \<noteq> []" by (simp add: r)
    ultimately show ?thesis by (simp add: parse_node_def t n6 np)
  qed
qed

lemma parse_node_render_witness:
  "parse_node (key_render solo_key) 1 = Some solo_key \<and> classify rfc4648_crates (ak_host solo_key) = Ipv4"
  using parse_node_render [of rfc4648_crates solo_key 1] solo_classify by simp

subsection \<open>Nodes of disabled networks\<close>

text \<open>When every node is of an enabled network, the probe is a crawl from seeds, and what is proved of
  crawls holds for it.\<close>

lemma probe_seeded:
  "\<forall>key \<in> set targets. is_enabled st (classify cr (ak_host key)) \<Longrightarrow> seeded cr st (probe_seed cr st now targets)"
proof -
  have "seeded cr st c \<Longrightarrow> seeded cr st (fold (seed_key cr now) targets c)"
    if "\<forall>key \<in> set targets. is_enabled st (classify cr (ak_host key))" for c
    using that by (induction targets arbitrary: c) (auto intro: seed_one)
  then show "\<forall>key \<in> set targets. is_enabled st (classify cr (ak_host key)) \<Longrightarrow>
      seeded cr st (probe_seed cr st now targets)"
    unfolding probe_seed_def by (metis seed_none)
qed

interpretation probe_runs: run_system
  "\<lambda>x. x = (run_start c0, spawn_workers st)" "worker_moves cr st" "probe_reach cr st c0" for cr st c0
proof
  fix s s' P
  show "s = (run_start c0, spawn_workers st) \<Longrightarrow> probe_reach cr st c0 s" by (auto intro: probe_init)
  show "probe_reach cr st c0 s \<Longrightarrow> worker_moves cr st s s' \<Longrightarrow> probe_reach cr st c0 s'" by (rule probe_next)
  show "P s" if "probe_reach cr st c0 s" "\<And>s. s = (run_start c0, spawn_workers st) \<Longrightarrow> P s"
    "\<And>s s'. probe_reach cr st c0 s \<Longrightarrow> P s \<Longrightarrow> worker_moves cr st s s' \<Longrightarrow> P s'"
    using that(1)
  proof induction
    case probe_init
    show ?case by (rule that(2)) simp
  next
    case (probe_next x y)
    then show ?case by (intro that(3) [of x y])
  qed
qed

lemma probe_reach_crawl: "probe_reach cr st c0 x \<Longrightarrow> seeded cr st c0 \<Longrightarrow> crawl_reach cr st x"
  by (erule probe_runs.invariant [where I = "crawl_reach cr st"])
    (auto elim!: moves_cases intro: reach_init reach_step worker_step)

text \<open>
  The targets as seeds: within the address budget each has an entry of its own network, queued for that
  network's transport, enabled or not.
\<close>

lemma probe_placed:
  assumes "length targets \<le> unat (st_max_addresses st)"
  shows "seeds_placed st (probe_seed cr st now targets) \<and>
    length (ns_map (cw_store (probe_seed cr st now targets))) \<le> length targets \<and>
    (\<forall>k \<in> set targets. lookup (cw_store (probe_seed cr st now targets)) k \<noteq> None) \<and>
    (\<forall>k e. lookup (cw_store (probe_seed cr st now targets)) k = Some e \<longrightarrow> ne_network e = classify cr (ak_host k))"
  using assms
proof (induction targets rule: rev_induct)
  case Nil
  have "ns_map (cw_store (probe_seed cr st now [])) = []"
    by (simp add: probe_seed_def crawler_new_def with_limit_def)
  moreover have "seeds_placed st (probe_seed cr st now [])"
    using seeds_placed_new by (simp add: probe_seed_def)
  ultimately show ?case by simp
next
  case (snoc key targets)
  let ?c = "probe_seed cr st now targets"
  have c': "probe_seed cr st now (targets @ [key]) = seed_key cr now key ?c" by (simp add: probe_seed_def)
  have IH: "seeds_placed st ?c" "length (ns_map (cw_store ?c)) \<le> length targets"
    "\<forall>k \<in> set targets. lookup (cw_store ?c) k \<noteq> None"
    "\<forall>k e. lookup (cw_store ?c) k = Some e \<longrightarrow> ne_network e = classify cr (ak_host k)"
    using snoc by simp_all
  note sk = seed_key_placed [OF IH(1), of cr now key]
  consider (known) e where "lookup (cw_store ?c) key = Some e"
      "lookup (cw_store (seed_key cr now key ?c)) =
         (lookup (cw_store ?c))(key \<mapsto> e\<lparr>freshest_ts := max (freshest_ts e) now\<rparr>)"
      "length (ns_map (cw_store (seed_key cr now key ?c))) = length (ns_map (cw_store ?c))"
    | (new) "lookup (cw_store (seed_key cr now key ?c)) =
         (lookup (cw_store ?c))(key \<mapsto> node_entry_new (classify cr (ak_host key)) now Queued)"
      "length (ns_map (cw_store (seed_key cr now key ?c))) = Suc (length (ns_map (cw_store ?c)))"
    | (full) "length (ns_map (cw_store ?c)) = unat (st_max_addresses st)"
    using sk by blast
  then show ?case
  proof cases
    case known
    with IH sk show ?thesis by (simp add: c')
  next
    case new
    with IH sk show ?thesis by (simp add: c' node_entry_new_def)
  next
    case full
    with IH(2) snoc.prems show ?thesis by simp
  qed
qed

text \<open>A worker takes addresses from the queue of its own transport only.\<close>

lemma wstep_other_queue:
  assumes "wstep cr st t (c, p) (c', p')" "u \<noteq> t"
    and "k \<in> set (q_items (queue_of u (cw_queues c)))"
  shows "k \<in> set (q_items (queue_of u (cw_queues c')))"
proof -
  have sent: "k \<in> set (q_items (queue_of u (cw_queues c')))" if "send_key v a c = (b, c')" for v a b
    using that assms(3) send_key_True(3) [of v a c c' u] send_key_False(1) [of v a c c'] by (cases b) auto
  from assms show ?thesis
    by (cases rule: wstep.cases) (auto simp: start_simps queue_close_def intro: sent)
qed

text \<open>Without a node limit and without Ctrl+C, only a failed worker ends the crawl early.\<close>

lemma wstep_unlimited:
  assumes "wstep cr st t (c, p) (c', p')" "st_max_nodes st = None" "terminated_early c \<longrightarrow> cw_worker_failed c"
  shows "terminated_early c' \<longrightarrow> cw_worker_failed c'"
  using assms
  by (cases rule: wstep.cases)
    (auto simp: terminated_early_def start_simps send_key_def reserve_node_slot_def split: prod.splits)

text \<open>What stays true while workers of other transports work.\<close>

definition left_waiting :: "settings \<Rightarrow> addr_key \<Rightarrow> transport \<Rightarrow> crawler \<times> (transport \<times> pc) list \<Rightarrow> bool" where
  "left_waiting st key t0 = (\<lambda>(c, ws).
     balanced st (c, ws) \<and> well_closed (c, ws) \<and> key \<in> set (q_items (queue_of t0 (cw_queues c))) \<and>
     map_option ne_state (lookup (cw_store c) key) = Some Queued \<and> (terminated_early c \<longrightarrow> cw_worker_failed c))"

lemma queue_in_queued: "k \<in> set (q_items (queue_of u qs)) \<Longrightarrow> k \<in> set (queued qs)"
  by (cases u) (auto simp: queued_def)

lemma left_waiting_step:
  assumes "worker_moves cr st x y" "left_waiting st key t0 x" "runnable st" "st_max_nodes st = None"
    and "workers_for st t0 = 0"
  shows "left_waiting st key t0 y"
proof -
  obtain i ws t p c c' p' where x: "x = (c, ws)" and y: "y = (c', ws[i := (t, p')])"
    and mv: "i < length ws" "ws ! i = (t, p)" "wstep cr st t (c, p) (c', p')"
    using assms(1) by (auto elim: moves_cases)
  have b: "balanced st (c, ws)" and wc: "well_closed (c, ws)"
    and q: "key \<in> set (q_items (queue_of t0 (cw_queues c)))"
    and e: "map_option ne_state (lookup (cw_store c) key) = Some Queued"
    and early: "terminated_early c \<longrightarrow> cw_worker_failed c"
    using assms(2) x by (simp_all add: left_waiting_def)
  have m: "(t, p) \<in> set ws" using mv(1,2) nth_mem by force
  have "map fst ws = map fst (spawn_workers st)" using b by (simp add: balanced_def)
  with m have "t \<in> set (map fst (spawn_workers st))" by (metis fst_conv imageI list.set_map)
  then have "t \<noteq> t0" using assms(5) by (auto simp only: spawned)
  then have q': "key \<in> set (q_items (queue_of t0 (cw_queues c')))"
    using wstep_other_queue [OF mv(3) _ q] by simp
  have "key \<notin># held p"
    using apart_queue [OF balanced_apart [OF b m]] queue_in_queued [OF q] by blast
  moreover obtain en where en: "lookup (cw_store c) key = Some en" "ne_state en = Queued" using e by auto
  ultimately obtain ts where "lookup (cw_store c') key = Some (en\<lparr>freshest_ts := ts\<rparr>)"
    using wstep_others [OF mv(3)] unfolding others_keep_def by (metis is_active_def)
  then have e': "map_option ne_state (lookup (cw_store c') key) = Some Queued" using en(2) by simp
  have cs: "crawl_step cr st (c, ws) (c', ws[i := (t, p')])" using worker_step [OF mv] .
  show ?thesis
    using balanced_step [OF cs b assms(3)] well_closed_step [OF cs b wc assms(3)] q' e'
      wstep_unlimited [OF mv(3) assms(4) early]
    by (simp add: left_waiting_def y)
qed

text \<open>While an address is queued, it is counted as outstanding.\<close>

lemma queued_outstanding:
  assumes "balanced st (c, ws)" "queued (cw_queues c) \<noteq> []"
  shows "0 < ns_outstanding (cw_store c)"
proof -
  have "over_workers not_yet_counted ws \<le> over_workers (\<lambda>p. size (held p)) ws"
    by (rule over_workers_le) (case_tac p; simp)
  then have "over_workers not_yet_counted ws \<le> size (over_workers held ws)" by (simp add: size_over_workers)
  moreover have "size (active_keys (cw_store c)) = length (queued (cw_queues c)) + size (over_workers held ws)"
    using assms(1) by (simp add: balanced_def flip: size_mset size_union)
  moreover have "unat (ns_outstanding (cw_store c)) + over_workers not_yet_counted ws =
      size (active_keys (cw_store c)) + over_workers still_counted ws"
    using assms(1) by (simp add: balanced_def)
  moreover have "0 < length (queued (cw_queues c))" using assms(2) by simp
  ultimately have "0 < unat (ns_outstanding (cw_store c))" by linarith
  then show ?thesis by (simp add: word_less_nat_alt)
qed

lemma probe_settings:
  "common_into_settings now_text a 0 None 1000000 False True = Inr st \<Longrightarrow>
     runnable st \<and> st_max_nodes st = None \<and> st_max_addresses st = 1000000"
proof -
  assume s: "common_into_settings now_text a 0 None 1000000 False True = Inr st"
  then have "st_max_nodes st = None \<and> st_max_addresses st = 1000000"
    unfolding common_into_settings_def Let_def and_then_Inr_iff by (auto simp: built_settings_def)
  moreover have "settings_ok st" using common_into_settings_ok [OF s] .
  moreover have "(1000000 :: usize) \<le> 2 ^ 63" by code_simp
  ultimately show ?thesis by (simp add: runnable_def)
qed

text \<open>C17: A target of a network whose transport has no workers is accepted and queued next to the other targets, but
  it is never probed, and the probe does not end by itself: while no worker fails, every worker stays in
  its loop, with the address still queued and counted as outstanding. The arguments that disable a network allow
  to give its transport no workers, and the targets are not checked against the enabled networks. There must be
  a worker of some other transport: with no workers at all \<open>run\<close> returns at once, and the probe ends without
  having probed anything.\<close>

theorem disabled_target_hangs:
  assumes "common_into_settings now_text a 0 None 1000000 False True = Inr st" "spawn_workers st \<noteq> []"
    and "key \<in> set targets" "length targets \<le> 1000000"
    and "workers_for st (network_transport (classify cr (ak_host key))) = 0"
    and "probe_reach cr st (probe_seed cr st now targets) (c, ws)" "\<not> cw_worker_failed c"
  shows "ws \<noteq> [] \<and> map fst ws = map fst (spawn_workers st) \<and> list_all (\<lambda>(t, p). p \<noteq> Exited) ws \<and>
    key \<in> set (q_items (queue_of (network_transport (classify cr (ak_host key))) (cw_queues c))) \<and>
    \<not> q_closed (queue_of t (cw_queues c)) \<and>
    0 < ns_outstanding (cw_store c) \<and> map_option ne_state (lookup (cw_store c) key) = Some Queued"
proof -
  let ?t0 = "network_transport (classify cr (ak_host key))" and ?c0 = "probe_seed cr st now targets"
  note st = probe_settings [OF assms(1)]
  have "length targets \<le> unat (st_max_addresses st)" using assms(4) st by simp
  note placed = probe_placed [OF this, of cr now]
  then obtain e where e: "lookup (cw_store ?c0) key = Some e" "ne_network e = classify cr (ak_host key)"
    using assms(3) by blast
  with placed have e': "ne_state e = Queued" "key \<in> set (q_items (queue_of ?t0 (cw_queues ?c0)))"
    "\<not> terminated_early ?c0"
    using seed_entry_fields(1) unfolding seeds_placed_def by metis+
  have "left_waiting st key ?t0 (run_start ?c0, spawn_workers st)"
    using placed_init [of st ?c0] placed e e'
    by (simp add: left_waiting_def run_start_def queue_close_def terminated_early_def)
  then have "left_waiting st key ?t0 (c, ws)"
    using assms(6) left_waiting_step [where key = key and ?t0.0 = ?t0] st assms(5)
    by (elim probe_runs.invariant [where I = "left_waiting st key ?t0"]) blast+
  then have b: "balanced st (c, ws)" and wc: "well_closed (c, ws)"
    and q: "key \<in> set (q_items (queue_of ?t0 (cw_queues c)))"
    and k: "map_option ne_state (lookup (cw_store c) key) = Some Queued" and early: "\<not> terminated_early c"
    using assms(7) by (auto simp: left_waiting_def)
  have ne: "queued (cw_queues c) \<noteq> []" using queue_in_queued [OF q] by auto
  then have "\<not> idle c" using b by (auto simp: balanced_def)
  then have "\<not> closed c" using wc early by (simp add: well_closed_def)
  then have cl: "\<not> closed c" "\<not> q_closed (queue_of t (cw_queues c))"
    using wc closed_queue by (auto simp: well_closed_def)
  have "list_all (\<lambda>(t, p). p \<noteq> Exited) ws"
    using wc cl early by (fastforce simp: list_all_iff well_closed_def worker_closing_def terminated_early_def)
  moreover have ws: "map fst ws = map fst (spawn_workers st)" using b by (simp add: balanced_def)
  moreover have "ws \<noteq> []" using ws assms(2) by auto
  ultimately show ?thesis using q cl k queued_outstanding [OF b ne] by blast
qed

definition no_tor_args :: common_args where
  "no_tor_args = common_defaults\<lparr>ca_no_tor := True, ca_tor_concurrency := 0\<rparr>"

definition onion_key :: addr_key where
  "onion_key = \<lparr>ak_host = b32_label rfc4648_crates (replicate 10 0) @ ''.onion'', ak_port = 8333\<rparr>"

lemma disabled_target_hangs_witness:
  "\<exists>st. common_into_settings ''t'' no_tor_args 0 None 1000000 False True = Inr st \<and>
     classify rfc4648_crates (ak_host onion_key) = OnionV2 \<and>
     \<not> is_enabled st OnionV2 \<and> spawn_workers st \<noteq> [] \<and>
     list_all (\<lambda>(t, p). p \<noteq> Exited) (spawn_workers st) \<and>
     (let c = run_start (probe_seed rfc4648_crates st 0 [solo_key, onion_key])
      in 0 < ns_outstanding (cw_store c) \<and> map_option ne_state (lookup (cw_store c) onion_key) = Some Queued)"
proof -
  let ?st = "built_settings ''t'' True (networks_of_args no_tor_args) 600 no_tor_args 0 None 1000000 False True"
  have a: "ca_timestamp no_tor_args = None" "ca_record_addr_responses no_tor_args"
    "\<not> ca_no_record_addr_responses no_tor_args" "ca_checkpoint_interval no_tor_args = ''10m''"
    "ca_handshake_attempts no_tor_args = 3" "ca_ip_concurrency no_tor_args = 64"
    "ca_tor_concurrency no_tor_args = 0" "ca_i2p_concurrency no_tor_args = 32"
    "en_tor (networks_of_args no_tor_args) = False"
    by (simp_all add: no_tor_args_def default_args networks_of_args_def)
  have "common_into_settings ''t'' no_tor_args 0 None 1000000 False True = Inr ?st"
    by (simp add: a default_durations common_into_settings_def Let_def ensure_def MAX_CONCURRENCY_def)
  moreover have "workers_for ?st TransportTor = 0" "workers_for ?st TransportIp = 64"
    "\<not> is_enabled ?st OnionV2"
    by (simp_all add: built_settings_def workers_for_def is_enabled_def a)
  ultimately have "\<exists>st. common_into_settings ''t'' no_tor_args 0 None 1000000 False True = Inr st \<and>
      workers_for st TransportTor = 0 \<and> workers_for st TransportIp = 64 \<and> \<not> is_enabled st OnionV2" by blast
  then obtain st where st: "common_into_settings ''t'' no_tor_args 0 None 1000000 False True = Inr st"
    "workers_for st TransportTor = 0" "workers_for st TransportIp = 64" "\<not> is_enabled st OnionV2" by blast
  have k: "classify rfc4648_crates (ak_host onion_key) = OnionV2"
    using classify_onion_v2 [OF rfc4648_crates_ok, of "replicate 10 0"] by (simp add: onion_key_def)
  have sp: "spawn_workers st \<noteq> []" using st(3) by (simp add: spawn_workers_def)
  have w: "workers_for st (network_transport (classify rfc4648_crates (ak_host onion_key))) = 0"
    using st(2) k by simp
  let ?c0 = "probe_seed rfc4648_crates st 0 [solo_key, onion_key]"
  have f: "\<not> cw_worker_failed (run_start ?c0)"
  proof -
    have "cw_worker_failed (seed_key rfc4648_crates now key c) = cw_worker_failed c" for now key c
      by (auto simp: seed_key_def enqueue_seed_def enqueue_def send_key_def on_entry_def Let_def
          split: prod.splits bool.splits)
    then show ?thesis by (simp add: probe_seed_def run_start_def crawler_new_def)
  qed
  have "onion_key \<in> set [solo_key, onion_key]" "length [solo_key, onion_key] \<le> 1000000" by simp_all
  from disabled_target_hangs [OF st(1) sp this w probe_init f] st k sp show ?thesis
    by (auto simp: Let_def)
qed

end
