(* ===== verification/Spec2Isabelle.thy ===== *)
theory Spec2Isabelle
  imports Prelude Text Net_Text Crates Wire Address Protocol Stream_IO Transport Store Settings
    AddrLog Queue Crawler Runs Crawl_Steps Crawl_Live Crawl_Props Conversation
    Seen Turn Crawl_Refine Observation Files Output Dns Preflight
    Main_Program Checkpoint Probe
begin

text \<open>
  A model of new-p2p-crawler, a crawler of the Bitcoin peer-to-peer network written in Rust, and
  the theorems that make its parts correct.

  The program. A crawl starts from seed addresses. Workers, a pool per transport (TCP, Tor by
  SOCKS5, I2P by SAM), take an address from their transport's queue, connect, exchange version
  messages, ask for addresses, and feed the advertised addresses of enabled networks back into the
  store and the queues. The crawl ends when no address is queued or being processed, on Ctrl+C, or
  when the node budget is spent. Observations are logged as they arrive; results are written at the
  end and at checkpoints. A second binary, the probe, crawls a given list of nodes without asking
  them for addresses.

  Theories and sources.
    \<^item> Prelude, Text, Net_Text: what the program uses of Rust's standard library: integers and their
      bytes, \<open>Result\<close>, numerals, UTF-8, trimming, textual IP addresses.
    \<^item> Crates: SHA-256, SHA3-256 and base32 (not under src/) as a record of functions, with the
      documented laws the code relies on as the predicate \<open>crates_ok\<close>; an executable instance that
      satisfies them serves the concrete instances of theorems.
    \<^item> Wire: the cursor and CompactSize of src/protocol.rs; the interface \<open>wire_reader\<close> of a reader
      that accepts exactly the encodings of valid values.
    \<^item> Address: src/address.rs, network types and the classification of hosts.
    \<^item> Protocol: src/protocol.rs, framing, version, addr and addrv2.
    \<^item> Stream_IO: TCP streams whose peer and network are a script, timeouts, dialing.
    \<^item> Transport: src/transport.rs, the envelope parser, the receive loop, SOCKS5 and SAM; the
      interface \<open>message_stream\<close> of a parser that takes one message off a buffer.
    \<^item> Store: src/store.rs, node entries, counters, the address budget; the interface \<open>entry_store\<close>.
    \<^item> Settings: src/settings.rs, arguments, their checks and durations.
    \<^item> AddrLog: src/addrlog.rs, the CSV event log and its writer.
    \<^item> Queue: the bounded channels of src/crawler.rs; the interface \<open>channel\<close>.
    \<^item> Crawler: src/crawler.rs, the shared state, queueing and termination, one worker's processing
      of a node, peer discovery, as functions on the state.
    \<^item> Runs: the interfaces \<open>run_system\<close> and \<open>simulation\<close> of systems that move in steps; the crawl, the
      crawler binary and the probe are interpretations.
    \<^item> Crawl_Steps: the same operations as atomic steps of concurrent workers (\<open>worker_loop\<close>,
      \<open>process\<close>, \<open>finish\<close>, \<open>signal_loop\<close>), every interleaving allowed, and the invariants of the
      steps: where each address is, what \<open>outstanding\<close> counts, what the entries say.
    \<^item> Crawl_Live: closing of the queues, no worker waiting for ever, the measure by which the workers
      come to rest.
    \<^item> Crawl_Props: the properties of a crawl.
    \<^item> Conversation: how long the conversation with a peer takes: if its writes complete and the waits for what
      the workers share end, no peer can keep \<open>process\<close> from returning.
    \<^item> Turn: a turn of a worker, as composed of the functions of Crawler, taken apart into steps over the
      interface \<open>turn_runs\<close>; Crawl_Refine and Observation interpret it on theirs.
    \<^item> Crawl_Refine: a turn is a run of the steps of the crawl.
    \<^item> Seen, Observation: the observation barrier of src/crawler.rs: what a worker does between taking and
      dropping its guard, the history of the observations, what the statistics and the log have of it.
    \<^item> Files: directories and files with faults, and the order in which they become durable.
    \<^item> Output: src/output.rs, rows, statistics, the manifest and the publication of a snapshot.
    \<^item> Dns, Preflight: src/dns.rs and src/preflight.rs, the seeds and the probes of each network.
    \<^item> Main_Program: src/main.rs and src/logging.rs, what is checked before the crawl, seeding, the
      checkpoint task, the end and the exit code.
    \<^item> Checkpoint: what a checkpoint of src/main.rs publishes while the workers run.
    \<^item> Probe: src/bin/probe.rs, the nodes given as text, their crawl and the report.

  Correspondence. A struct is a record with the code's fields, an enum a datatype, \<open>Result\<close> a sum
  with \<open>Inl\<close> for \<open>Err\<close>, an unsigned integer a word of its width, a signed one an \<open>int\<close>. A method with
  \<open>&mut self\<close> returns the state after it. Text is the list of its UTF-8 bytes. Time is a number of
  milliseconds that passes only while an operation waits. In the step relation a worker has a program
  counter, and one step is one access to the shared state: a lock held, an atomic counter, a send or a
  receive, the closing of the queues. Between them a worker may do anything to its own entry that the
  code's updates could (\<open>entry_local\<close>); what the code does is shown to be among it, for the crawl and
  for the whole program. In the program each worker also has a phase, which says whether it holds the read side of
  the observation barrier and how far it is with an observation, and the state has the history of the
  observations, which the code does not keep: it is what statistics and log are compared with. The checkpoint
  task holds the write side while it flushes the log and copies the entries, one step per entry.

  What the lemmas show. Readers and printers: each wire format is accepted exactly when it is an
  encoding, a frame is delivered however its bytes arrive, log and node texts read back. Store: the
  budget holds, an address is queued exactly when it is new and fresh. Crawl, for every interleaving:
  each address with work left is in one place, the queues close only when nothing is left or the
  crawl ends early, no worker waits for ever, the workers come to rest, and a crawl that ends by itself
  has a verdict for every address. A conversation: it ends within its timeouts, up to the time its writes
  and its waits for the SAM session, the barrier and the log take. Checkpoints: the statistics of a snapshot are the tally of the logged events up to the event
  whose id its manifest names. Results: every entry is in the file of its verdict, the statistics
  are those of the rows, a published manifest names a snapshot whose files hold the whole rows and
  statistics, made durable in order, whatever fails, and the exit code and \<open>run_complete\<close> say what happened.

  Bounds and termination. Every loop over input is a total function: the receive loop ends because
  a read consumes the script, the getaddr loop because a message consumes the byte flow, the SAM line
  because a byte consumes the stream. \<open>recv_matching\<close> is a partial function whose value \<open>None\<close> is not
  returning; it returns when every write does, because a receive without a message lets its whole
  timeout pass. How long a worker waits for the mutex of the SAM session, the barrier or the log is given by the
  environment (\<open>ev_wait\<close>), since the code sets no bound: the mutex is held while another worker makes the
  session, so that the I2P workers may wait for one another many times the connect timeout. A buffer is shorter than \<open>2 ^ 64\<close> (\<open>cursor_ok\<close>), as any slice is. The properties of the
  crawl ask for at most \<open>2 ^ 63\<close> addresses: the counter \<open>outstanding\<close> then cannot wrap, and the
  program, which reserves a queue of that many addresses, could not start with more. Event ids are compared
  for fewer than \<open>2 ^ 64 - 1\<close> events, before the counter wraps.

  Not modelled. The log output of \<open>tracing\<close> and the installation of its subscribers; the throughput of
  the status monitor, a floating-point number that is only printed (its counts and the text of its
  estimate are modelled); the runtime, beyond the interleaving of atomic steps and without fairness (a lock is
  taken when it is free, in no particular order); the branch of \<open>run\<close> for a worker task that cannot be joined,
  which would have to panic outside the tasks it spawns for the nodes; the second Ctrl+C, which ends the process. The printers of \<open>csv\<close> and
  \<open>serde_json\<close>, the \<open>Debug\<close> text of a string, the resolver, the network and the standard input are
  parameters. Files has no permissions and does not require a file's directory to exist. Parsing the
  command line is clap's.
\<close>

end
